(* ===== verification/W2K_Prelude.thy ===== *)
theory W2K_Prelude
  imports Main "HOL-Library.Word"
begin

text \<open>
  Shared ground of the development: the C integer types as words, characters of a C string
  as HOL characters (a C string is the list of its bytes before the terminating NUL), the
  ASCII predicates and the case folding of the C locale, numbers as decimal text, a generic reachability predicate
  with the interface of an inductive invariant, and counting lemmas for maps from threads to
  program counters.
\<close>

unbundle bit_operations_syntax

named_theorems ascii_simps \<open>definitions of the ASCII character predicates\<close>
named_theorems cnt_simps \<open>counting the threads that satisfy a predicate\<close>

type_synonym u8 = "8 word"
type_synonym u16 = "16 word"
type_synonym u32 = "32 word"

text \<open>\<open>MAX_PATH\<close> of the Windows headers.\<close>

abbreviation MAX_PATH :: nat where
  "MAX_PATH \<equiv> 260"

section \<open>Characters of the C locale\<close>

definition code :: "char \<Rightarrow> nat" where
  [ascii_simps]: "code c = of_char c"

definition is_digit :: "char \<Rightarrow> bool" where
  [ascii_simps]: "is_digit c \<longleftrightarrow> 48 \<le> code c \<and> code c \<le> 57"

definition is_upper :: "char \<Rightarrow> bool" where
  [ascii_simps]: "is_upper c \<longleftrightarrow> 65 \<le> code c \<and> code c \<le> 90"

definition is_lower :: "char \<Rightarrow> bool" where
  [ascii_simps]: "is_lower c \<longleftrightarrow> 97 \<le> code c \<and> code c \<le> 122"

definition is_alpha :: "char \<Rightarrow> bool" where
  [ascii_simps]: "is_alpha c \<longleftrightarrow> is_upper c \<or> is_lower c"

definition is_alnum :: "char \<Rightarrow> bool" where
  [ascii_simps]: "is_alnum c \<longleftrightarrow> is_alpha c \<or> is_digit c"

text \<open>\<open>isspace\<close>: blank, tab, newline, vertical tab, form feed, carriage return.\<close>

definition is_space :: "char \<Rightarrow> bool" where
  [ascii_simps]: "is_space c \<longleftrightarrow> code c = 32 \<or> (9 \<le> code c \<and> code c \<le> 13)"

definition to_lower :: "char \<Rightarrow> char" where
  [ascii_simps]: "to_lower c = (if is_upper c then char_of (code c + 32) else c)"

definition digit_value :: "char \<Rightarrow> nat" where
  [ascii_simps]: "digit_value c = code c - 48"

definition digit_char :: "nat \<Rightarrow> char" where
  [ascii_simps]: "digit_char n = char_of (48 + n)"

lemma code_less: "code c < 256"
  using of_char_of [of "code c"] by (simp add: code_def)

lemma code_inject [simp]: "code c = code d \<longleftrightarrow> c = d"
  by (simp add: code_def)

lemma is_digit_digit_char [simp]: "n < 10 \<Longrightarrow> is_digit (digit_char n)"
  by (simp add: ascii_simps of_char_of)

lemma digit_value_digit_char [simp]: "n < 10 \<Longrightarrow> digit_value (digit_char n) = n"
  by (simp add: ascii_simps of_char_of)

lemma digit_value_le: "is_digit c \<Longrightarrow> digit_value c \<le> 9"
  unfolding is_digit_def digit_value_def by arith

text \<open>The value of a string of decimal digits, most significant first.\<close>

fun dec_value_from :: "nat \<Rightarrow> string \<Rightarrow> nat" where
  "dec_value_from n [] = n"
| "dec_value_from n (c # cs) = dec_value_from (10 * n + digit_value c) cs"

definition dec_value :: "string \<Rightarrow> nat" where
  "dec_value s = dec_value_from 0 s"

lemma dec_value_from_mono: "n \<le> dec_value_from n s"
proof (induction s arbitrary: n)
  case (Cons c cs)
  show ?case using Cons.IH [of "10 * n + digit_value c"] by simp
qed simp

lemma dec_value_from_append:
  "dec_value_from n (s @ t) = dec_value_from (dec_value_from n s) t"
  by (induction s arbitrary: n) auto

lemma unat_less_pow: "unat (w :: 'a::len word) < 2 ^ LENGTH('a)"
  by (rule unsigned_less)

lemma unat_u8_less [simp]: "unat (b :: u8) < 256"
  using unat_less_pow [of b] by simp

lemma ucast_of_nat_small:
  "n < 2 ^ LENGTH('b) \<Longrightarrow> n < 2 ^ LENGTH('a) \<Longrightarrow>
   (ucast (of_nat n :: 'a::len word) :: 'b::len word) = of_nat n"
  by (rule word_unat_eq_iff [THEN iffD2])
    (simp add: unat_of_nat unsigned_ucast_eq take_bit_nat_eq_self)

lemma unat_of_nat_small:
  "n < 2 ^ LENGTH('a) \<Longrightarrow> unat (of_nat n :: 'a::len word) = n"
  by (simp add: unat_of_nat take_bit_nat_eq_self)

lemma unat_minus_of_nat:
  fixes w :: "'a::len word"
  assumes "k \<le> unat w"
  shows "unat (w - of_nat k) = unat w - k"
proof -
  have "unat (of_nat k :: 'a word) = k"
    by (rule unat_of_nat_small [OF le_less_trans [OF assms unat_less_pow]])
  then show ?thesis using assms by (simp add: unat_sub word_le_nat_alt)
qed

section \<open>Numbers as decimal text\<close>

text \<open>The decimal text that the format \<open>%lu\<close> gives.\<close>

fun decimal :: "nat \<Rightarrow> string" where
  "decimal n = (if n < 10 then [digit_char n] else decimal (n div 10) @ [digit_char (n mod 10)])"

declare decimal.simps [simp del]

abbreviation CRLF :: string where
  "CRLF \<equiv> [CHR 0x0D, CHR 0x0A]"

lemma length_decimal: "n < 10 ^ k \<Longrightarrow> 0 < k \<Longrightarrow> length (decimal n) \<le> k"
proof (induction k arbitrary: n)
  case (Suc k)
  show ?case
  proof (cases "n < 10")
    case True
    then show ?thesis by (simp add: decimal.simps [of n])
  next
    case False
    then have "0 < k" using Suc.prems by (cases k) auto
    then have "length (decimal (n div 10)) \<le> k" using Suc by (intro Suc.IH) auto
    then show ?thesis using False by (simp add: decimal.simps [of n])
  qed
qed simp

lemma decimal_nonempty [simp]: "decimal n \<noteq> []"
  by (simp add: decimal.simps [of n])

lemma length_decimal_u32: "length (decimal (unat (w :: u32))) \<le> 10"
  using unat_less_pow [of w] by (intro length_decimal) auto

lemma length_decimal_u16: "length (decimal (unat (w :: u16))) \<le> 5"
  using unat_less_pow [of w] by (intro length_decimal) auto

lemma dec_value_decimal [simp]: "dec_value (decimal n) = n"
proof (induction n rule: decimal.induct)
  case (1 n)
  then show ?case
    by (simp add: decimal.simps [of n] dec_value_def dec_value_from_append)
qed

lemma decimal_inject [simp]: "decimal m = decimal n \<longleftrightarrow> m = n"
  by (metis dec_value_decimal)

lemma digits_decimal: "list_all is_digit (decimal n)"
proof (induction n rule: decimal.induct)
  case (1 n)
  then show ?case by (simp add: decimal.simps [of n])
qed

section \<open>Little-endian words\<close>

definition le32_decode :: "u8 list \<Rightarrow> u32" where
  "le32_decode bs =
     ucast (bs ! 0) OR push_bit 8 (ucast (bs ! 1)) OR
     push_bit 16 (ucast (bs ! 2)) OR push_bit 24 (ucast (bs ! 3))"

definition le32_encode :: "u32 \<Rightarrow> u8 list" where
  "le32_encode w = [ucast w, ucast (drop_bit 8 w), ucast (drop_bit 16 w), ucast (drop_bit 24 w)]"

lemma le32_decode_encode [simp]: "le32_decode (le32_encode w @ xs) = w"
proof (rule bit_word_eqI)
  fix n assume "n < LENGTH(32)"
  then have "n < 32" "n < 24 \<or> 24 + (n - 24) = n" by auto
  then show "bit (le32_decode (le32_encode w @ xs)) n = bit w n"
    by (auto simp: le32_decode_def le32_encode_def bit_simps nth_Cons')
qed

lemma length_le32_encode [simp]: "length (le32_encode w) = 4"
  by (simp add: le32_encode_def)

section \<open>Reachable states and inductive invariants\<close>

inductive reach :: "('s \<Rightarrow> bool) \<Rightarrow> ('s \<Rightarrow> 's \<Rightarrow> bool) \<Rightarrow> 's \<Rightarrow> bool"
  for init :: "'s \<Rightarrow> bool" and step :: "'s \<Rightarrow> 's \<Rightarrow> bool" where
  reach_init: "init s \<Longrightarrow> reach init step s"
| reach_step: "reach init step s \<Longrightarrow> step s t \<Longrightarrow> reach init step t"

text \<open>
  The contract every interleaved component fulfils: an invariant that holds at the start and
  that every step keeps. Clients use only \<open>reach_inv\<close>.
\<close>

locale inductive_invariant =
  fixes init :: "'s \<Rightarrow> bool"
    and step :: "'s \<Rightarrow> 's \<Rightarrow> bool"
    and inv :: "'s \<Rightarrow> bool"
  assumes inv_init: "init s \<Longrightarrow> inv s"
    and inv_step: "step s t \<Longrightarrow> inv s \<Longrightarrow> inv t"
begin

lemma reach_inv: "reach init step s \<Longrightarrow> inv s"
  by (induction rule: reach.induct) (auto intro: inv_init inv_step)

lemma reach_inv_step: "reach init step s \<Longrightarrow> step s t \<Longrightarrow> inv s \<and> inv t"
  using inv_step reach_inv by blast

end

section \<open>Counting threads\<close>

text \<open>
  \<open>cnt P f\<close> is the number of threads whose program counter satisfies \<open>P\<close>; it is used
  where all but finitely many threads are at a counter that does not.
\<close>

definition cnt :: "('pc \<Rightarrow> bool) \<Rightarrow> (nat \<Rightarrow> 'pc) \<Rightarrow> int" where
  "cnt P f = int (card {t. P (f t)})"

lemma cnt_nonneg [simp]: "0 \<le> cnt P f"
  by (simp add: cnt_def)

lemma cnt_succ_nonzero [simp]: "cnt P f + 1 \<noteq> 0"
  using cnt_nonneg [of P f] by linarith

lemma cnt_upd:
  assumes "finite {t. P (f t)}"
  shows "cnt P (f(t := x)) =
    cnt P f - (if P (f t) then 1 else 0) + (if P x then 1 else 0)"
proof -
  let ?A = "{u. P (f u)}"
  have *: "{u. P ((f(t := x)) u)} = (if P x then insert t (?A - {t}) else ?A - {t})"
    by auto
  show ?thesis
  proof (cases "P (f t)")
    case True
    then have "0 < card ?A" using assms by (auto simp: card_gt_0_iff)
    with True assms show ?thesis unfolding cnt_def *
      by (auto simp: insert_absorb of_nat_diff Suc_le_eq)
  next
    case False
    with assms show ?thesis unfolding cnt_def * by simp
  qed
qed

lemma cnt_zero_iff:
  assumes "finite {t. P (f t)}"
  shows "cnt P f = 0 \<longleftrightarrow> (\<forall>t. \<not> P (f t))"
  using assms by (auto simp: cnt_def)

lemma cnt_pos:
  assumes "finite {t. P (f t)}" and "P (f t)"
  shows "0 < cnt P f"
  using assms by (auto simp: cnt_def card_gt_0_iff)

lemma cnt_one_unique:
  assumes "finite {t. P (f t)}" and "cnt P f \<le> 1" and "P (f t)" and "P (f u)"
  shows "t = u"
proof (rule ccontr)
  assume "t \<noteq> u"
  with assms have "card {t, u} \<le> card {t. P (f t)}"
    by (intro card_mono) auto
  with \<open>t \<noteq> u\<close> assms(2) show False by (simp add: cnt_def)
qed

lemma finite_Collect_upd [simp]:
  "finite {u. (u = t \<longrightarrow> A) \<and> (u \<noteq> t \<longrightarrow> P u)} \<longleftrightarrow> finite {u. P u}"
proof -
  have "{u. (u = t \<longrightarrow> A) \<and> (u \<noteq> t \<longrightarrow> P u)} \<subseteq> insert t {u. P u}"
    and "{u. P u} \<subseteq> insert t {u. (u = t \<longrightarrow> A) \<and> (u \<noteq> t \<longrightarrow> P u)}" by auto
  then show ?thesis by (meson finite_insert rev_finite_subset)
qed

lemma finite_Collect_upd_True [simp]:
  "finite {u. u \<noteq> t \<longrightarrow> P u} \<longleftrightarrow> finite {u. P u}"
  using finite_Collect_upd [of t True P] by simp

lemma finite_pcs_upd:
  "finite {t. f t \<noteq> idle} \<Longrightarrow> finite {t. (f(u := x)) t \<noteq> idle}"
  by (rule finite_subset [of _ "insert u {t. f t \<noteq> idle}"]) auto

lemma finite_pcs_sub:
  "finite {t. f t \<noteq> idle} \<Longrightarrow> \<not> P idle \<Longrightarrow> finite {t. P (f t)}"
  by (rule finite_subset [of _ "{t. f t \<noteq> idle}"]) auto

end
