(* ===== verification/Winsock_Text.thy ===== *)
theory Winsock_Text
  imports W2K_Prelude
begin

text \<open>
  The text routines of the Winsock bridge (\<open>compat/w2k_s232.c\<close>): the port and dotted-quad
  parsers \<open>parse_decimal_port\<close> and \<open>parse_ipv4\<close>, and the byte printer
  \<open>append_decimal_byte\<close> behind \<open>inet_ntop\<close>. A C string pointer is a \<open>string option\<close>
  (\<open>None\<close> for NULL); the accumulators are 32-bit words as in the source, and the lemmas
  show that the range checks keep them from wrapping. An IPv4 address is the 32-bit word whose
  bytes in memory, lowest address first, are the four parts (the target is little endian).
\<close>

section \<open>Addresses and their bytes\<close>

definition le_word :: "u8 \<Rightarrow> u8 \<Rightarrow> u8 \<Rightarrow> u8 \<Rightarrow> u32" where
  "le_word b0 b1 b2 b3 =
     ucast b0 + ucast b1 * 256 + ucast b2 * 65536 + ucast b3 * 16777216"

section \<open>The port parser\<close>

fun port_loop :: "u32 \<Rightarrow> string \<Rightarrow> u32 option" where
  "port_loop value [] = Some value"
| "port_loop value (c # cs) =
     (if \<not> is_digit c then None
      else let value' = value * 10 + of_nat (digit_value c) in
        if value' > 65535 then None else port_loop value' cs)"

definition parse_decimal_port :: "(u16 \<Rightarrow> u16) option \<Rightarrow> string option \<Rightarrow> u16 option" where
  "parse_decimal_port g_htons text =
     (case text of
        None \<Rightarrow> None
      | Some s \<Rightarrow>
          if s = [] then None
          else case port_loop 0 s of
            None \<Rightarrow> None
          | Some value \<Rightarrow> Some (case g_htons of Some h \<Rightarrow> h (ucast value) | None \<Rightarrow> ucast value))"

section \<open>The dotted-quad parser\<close>

text \<open>The inner digit loop: the part so far, the digit count, the text left.\<close>

fun ipv4_digits :: "u32 \<Rightarrow> nat \<Rightarrow> string \<Rightarrow> (u32 \<times> nat \<times> string) option" where
  "ipv4_digits part digits [] = Some (part, digits, [])"
| "ipv4_digits part digits (c # cs) =
     (if is_digit c
      then let part' = part * 10 + of_nat (digit_value c) in
        if part' > 255 then None else ipv4_digits part' (Suc digits) cs
      else Some (part, digits, c # cs))"

text \<open>The loop over the index; the argument is the number of parts still to read.\<close>

fun ipv4_groups :: "nat \<Rightarrow> string \<Rightarrow> (u32 list \<times> string) option" where
  "ipv4_groups 0 cursor = Some ([], cursor)"
| "ipv4_groups (Suc k) cursor =
     (case ipv4_digits 0 0 cursor of
        None \<Rightarrow> None
      | Some (part, digits, rest) \<Rightarrow>
          if digits = 0 then None
          else if k = 0 then Some ([part], rest)
          else case rest of
            [] \<Rightarrow> None
          | c # rest' \<Rightarrow>
              if c \<noteq> CHR ''.'' then None
              else case ipv4_groups k rest' of
                None \<Rightarrow> None
              | Some (parts, rest'') \<Rightarrow> Some (part # parts, rest''))"

definition parse_ipv4 :: "string option \<Rightarrow> u32 option" where
  "parse_ipv4 text =
     (case text of
        None \<Rightarrow> None
      | Some s \<Rightarrow>
          if s = [] then None
          else case ipv4_groups 4 s of
            Some ([p0, p1, p2, p3], []) \<Rightarrow>
              Some (le_word (ucast p0) (ucast p1) (ucast p2) (ucast p3))
          | _ \<Rightarrow> None)"

section \<open>The byte printer\<close>

definition append_decimal_byte :: "string \<Rightarrow> nat \<Rightarrow> string" where
  "append_decimal_byte output value =
     (if value \<ge> 100
      then output @ [digit_char (value div 100), digit_char ((value mod 100) div 10)]
             @ [digit_char ((value mod 100) mod 10)]
      else if value \<ge> 10 then output @ [digit_char (value div 10)] @ [digit_char (value mod 10)]
      else output @ [digit_char (value mod 10)])"

text \<open>The loop of \<open>inet_ntop\<close> over the four bytes, with the separating dots.\<close>

definition render_ipv4 :: "u8 list \<Rightarrow> string" where
  "render_ipv4 bytes =
     foldl (\<lambda>cursor index.
        let cursor' = append_decimal_byte cursor (unat (bytes ! index)) in
          if index \<noteq> 3 then cursor' @ ''.'' else cursor')
      [] [0, 1, 2, 3]"

section \<open>What the port parser computes\<close>

lemma unat_acc_step:
  assumes "unat (v :: u32) \<le> 65535" and "is_digit c"
  shows "unat (v * 10 + of_nat (digit_value c)) = 10 * unat v + digit_value c"
proof -
  have d: "digit_value c \<le> 9" using assms(2) by (rule digit_value_le)
  have "unat (of_nat (digit_value c) :: u32) = digit_value c"
    using d by (simp add: unat_of_nat)
  moreover have "unat (v * 10 :: u32) = 10 * unat v"
    using assms(1) by (simp add: unat_word_ariths)
  ultimately show ?thesis using assms(1) d by (simp add: unat_word_ariths)
qed

lemma port_loop_eq:
  "unat v \<le> 65535 \<Longrightarrow>
   port_loop v s =
     (if (\<forall>c \<in> set s. is_digit c) \<and> dec_value_from (unat v) s \<le> 65535
      then Some (of_nat (dec_value_from (unat v) s)) else None)"
proof (induction s arbitrary: v)
  case Nil
  then show ?case by simp
next
  case (Cons c cs)
  show ?case
  proof (cases "is_digit c")
    case False
    then show ?thesis by simp
  next
    case True
    let ?v' = "v * 10 + of_nat (digit_value c) :: u32"
    have u: "unat ?v' = 10 * unat v + digit_value c"
      using Cons.prems True by (rule unat_acc_step)
    show ?thesis
    proof (cases "?v' > 65535")
      case True
      then have "65535 < unat ?v'" by (simp add: word_less_nat_alt)
      with True u dec_value_from_mono [of "unat ?v'" cs] \<open>is_digit c\<close> show ?thesis
        by (simp add: Let_def)
    next
      case False
      then have "unat ?v' \<le> 65535" by (simp add: word_less_nat_alt)
      with False u \<open>is_digit c\<close> Cons.IH [of ?v'] show ?thesis
        by (simp add: Let_def)
    qed
  qed
qed

text \<open>
  \<open>parse_decimal_port\<close> accepts exactly the non-empty strings of decimal digits whose
  value is at most 65535, whatever their length, and returns that value through the system's
  \<open>htons\<close> (or unconverted while that pointer is not resolved): the accumulator never wraps.
\<close>

theorem parse_decimal_port_iff:
  "parse_decimal_port h text = Some p \<longleftrightarrow>
     (\<exists>s. text = Some s \<and> s \<noteq> [] \<and> list_all is_digit s \<and> dec_value s \<le> 65535 \<and>
          p = (case h of Some f \<Rightarrow> f (of_nat (dec_value s)) | None \<Rightarrow> of_nat (dec_value s)))"
proof -
  have cast: "(ucast (of_nat n :: u32) :: u16) = of_nat n" if "n \<le> 65535" for n
    using that by (intro ucast_of_nat_small) simp_all
  show ?thesis
    by (auto simp: parse_decimal_port_def port_loop_eq dec_value_def list_all_iff cast
        split: option.splits if_splits)
qed

section \<open>What the dotted-quad parser computes\<close>

text \<open>One part: leading digits, their value bounded by 255.\<close>

lemma ipv4_digits_eq:
  "unat v \<le> 255 \<Longrightarrow>
   ipv4_digits v n s =
     (let ds = takeWhile is_digit s in
        if dec_value_from (unat v) ds \<le> 255
        then Some (of_nat (dec_value_from (unat v) ds), n + length ds, dropWhile is_digit s)
        else None)"
proof (induction s arbitrary: v n)
  case Nil
  then show ?case by simp
next
  case (Cons c cs)
  show ?case
  proof (cases "is_digit c")
    case False
    with Cons.prems show ?thesis by (simp add: Let_def)
  next
    case True
    let ?v' = "v * 10 + of_nat (digit_value c) :: u32"
    have u: "unat ?v' = 10 * unat v + digit_value c"
      by (rule unat_acc_step) (use Cons.prems True in auto)
    show ?thesis
    proof (cases "?v' > 255")
      case True
      then have "255 < unat ?v'" by (simp add: word_less_nat_alt)
      with True u dec_value_from_mono [of "unat ?v'" "takeWhile is_digit cs"] \<open>is_digit c\<close>
      show ?thesis by (simp add: Let_def)
    next
      case False
      then have "unat ?v' \<le> 255" by (simp add: word_less_nat_alt)
      with False u \<open>is_digit c\<close> Cons.IH [of ?v' "Suc n"] show ?thesis
        by (simp add: Let_def)
    qed
  qed
qed

definition ipv4_part :: "string \<Rightarrow> bool" where
  "ipv4_part s \<longleftrightarrow> s \<noteq> [] \<and> list_all is_digit s \<and> dec_value s \<le> 255"

lemma not_digit_dot [simp]: "\<not> is_digit CHR ''.''"
  by (simp add: ascii_simps)

lemma takeWhile_digits_append:
  "list_all is_digit ds \<Longrightarrow> \<not> (\<exists>c cs. rest = c # cs \<and> is_digit c) \<Longrightarrow>
   takeWhile is_digit (ds @ rest) = ds \<and> dropWhile is_digit (ds @ rest) = rest"
  by (induction ds) (auto simp: takeWhile_eq_Nil_iff dropWhile_eq_self_iff neq_Nil_conv)

lemma list_all_takeWhile [simp]: "list_all P (takeWhile P xs)"
  by (induction xs) auto

lemma ipv4_digits_part:
  assumes "ipv4_digits 0 0 s = Some (p, n, rest)" and "n \<noteq> 0"
  shows "\<exists>ds. s = ds @ rest \<and> ipv4_part ds \<and> p = of_nat (dec_value ds) \<and>
    \<not> (\<exists>c cs. rest = c # cs \<and> is_digit c)"
proof -
  let ?ds = "takeWhile is_digit s"
  have "dec_value_from 0 ?ds \<le> 255" "p = of_nat (dec_value_from 0 ?ds)" "n = length ?ds"
    "rest = dropWhile is_digit s"
    using assms(1) by (auto simp: ipv4_digits_eq Let_def split: if_splits)
  moreover have "\<not> (\<exists>c cs. dropWhile is_digit s = c # cs \<and> is_digit c)"
    by (metis hd_dropWhile list.distinct(1) list.sel(1))
  ultimately show ?thesis using assms(2)
    by (intro exI [of _ ?ds]) (auto simp: ipv4_part_def dec_value_def)
qed

lemma ipv4_digits_of_part:
  assumes "ipv4_part ds" and "\<not> (\<exists>c cs. rest = c # cs \<and> is_digit c)"
  shows "ipv4_digits 0 0 (ds @ rest) = Some (of_nat (dec_value ds), length ds, rest)"
  using assms takeWhile_digits_append [of ds rest]
  by (auto simp: ipv4_digits_eq ipv4_part_def dec_value_def)

text \<open>\<open>k + 1\<close> parts joined by dots, followed by text that does not start with a digit.\<close>

fun join_dots :: "string list \<Rightarrow> string" where
  "join_dots [] = []"
| "join_dots [p] = p"
| "join_dots (p # ps) = p @ CHR ''.'' # join_dots ps"

lemma join_dots_Cons: "ps \<noteq> [] \<Longrightarrow> join_dots (p # ps) = p @ CHR ''.'' # join_dots ps"
  by (cases ps) auto

lemma ipv4_groups_sound:
  "ipv4_groups (Suc k) s = Some (vs, rest) \<Longrightarrow>
   \<exists>ps. length ps = Suc k \<and> list_all ipv4_part ps \<and> s = join_dots ps @ rest \<and>
        vs = map (\<lambda>p. of_nat (dec_value p)) ps"
proof (induction k arbitrary: s vs rest)
  case 0
  then obtain n where "ipv4_digits 0 0 s = Some (hd vs, n, rest)" "n \<noteq> 0" "vs = [hd vs]"
    by (auto split: option.splits if_splits)
  from ipv4_digits_part [OF this(1,2)] this(3) obtain ds where
    "s = ds @ rest" "ipv4_part ds" "vs = [of_nat (dec_value ds)]" by auto
  then show ?case by (intro exI [of _ "[ds]"]) auto
next
  case (Suc k)
  from Suc.prems obtain p n cs vs' where
    d: "ipv4_digits 0 0 s = Some (p, n, CHR ''.'' # cs)" "n \<noteq> 0"
    and g: "ipv4_groups (Suc k) cs = Some (vs', rest)" and vs: "vs = p # vs'"
    by (auto simp del: ipv4_groups.simps(2) simp: ipv4_groups.simps(2) [of "Suc k"]
        split: option.splits if_splits list.splits)
  from ipv4_digits_part [OF d] obtain ds where
    ds: "s = ds @ CHR ''.'' # cs" "ipv4_part ds" "p = of_nat (dec_value ds)" by auto
  from Suc.IH [OF g] obtain ps where
    ps: "length ps = Suc k" "list_all ipv4_part ps" "cs = join_dots ps @ rest"
      "vs' = map (\<lambda>p. of_nat (dec_value p)) ps" by auto
  from ps(1) have "ps \<noteq> []" by auto
  with ds ps vs show ?case
    by (intro exI [of _ "ds # ps"]) (auto simp: join_dots_Cons)
qed

lemma ipv4_groups_complete:
  "length ps = Suc k \<Longrightarrow> list_all ipv4_part ps \<Longrightarrow>
   \<not> (\<exists>c cs. rest = c # cs \<and> is_digit c) \<Longrightarrow>
   ipv4_groups (Suc k) (join_dots ps @ rest) =
     Some (map (\<lambda>p. of_nat (dec_value p)) ps, rest)"
proof (induction k arbitrary: ps)
  case 0
  then obtain p where [simp]: "ps = [p]" by (cases ps) auto
  from 0 have "length p \<noteq> 0" by (auto simp: ipv4_part_def)
  with 0 show ?case by (simp add: ipv4_digits_of_part)
next
  case (Suc k)
  then obtain p ps' where [simp]: "ps = p # ps'" and len: "length ps' = Suc k"
    by (cases ps) auto
  then have ne: "ps' \<noteq> []" by auto
  from Suc.prems have p: "ipv4_part p" "length p \<noteq> 0" by (auto simp: ipv4_part_def)
  have "ipv4_digits 0 0 (join_dots ps @ rest) =
      Some (of_nat (dec_value p), length p, CHR ''.'' # join_dots ps' @ rest)"
    using ipv4_digits_of_part [OF p(1), of "CHR ''.'' # join_dots ps' @ rest"] ne
    by (simp add: join_dots_Cons)
  with Suc.IH [OF len] Suc.prems p show ?case
    by (simp del: ipv4_groups.simps(2) add: ipv4_groups.simps(2) [of "Suc k"])
qed

lemma parse_ipv4_grammar:
  "parse_ipv4 text = Some a \<longleftrightarrow>
     (\<exists>p0 p1 p2 p3. text = Some (join_dots [p0, p1, p2, p3]) \<and>
        list_all ipv4_part [p0, p1, p2, p3] \<and>
        a = le_word (of_nat (dec_value p0)) (of_nat (dec_value p1))
                    (of_nat (dec_value p2)) (of_nat (dec_value p3)))"
  (is "_ \<longleftrightarrow> ?rhs")
proof -
  have cast: "(ucast (of_nat n :: u32) :: u8) = of_nat n" if "n \<le> 255" for n
    using that by (intro ucast_of_nat_small) simp_all
  show ?thesis
  proof
    assume "parse_ipv4 text = Some a"
    then obtain s v0 v1 v2 v3 where s: "text = Some s"
      and g: "ipv4_groups (Suc 3) s = Some ([v0, v1, v2, v3], [])"
      and a: "a = le_word (ucast v0) (ucast v1) (ucast v2) (ucast v3)"
      by (auto simp: parse_ipv4_def eval_nat_numeral split: option.splits if_splits list.splits)
    from ipv4_groups_sound [OF g] obtain ps where w: "length ps = Suc 3" "list_all ipv4_part ps"
      "s = join_dots ps @ []" "[v0, v1, v2, v3] = map (\<lambda>p. of_nat (dec_value p)) ps"
      by (elim exE conjE)
    then obtain p0 p1 p2 p3 where ps: "ps = [p0, p1, p2, p3]"
      by (auto simp: length_Suc_conv numeral_3_eq_3)
    show ?rhs
    proof (intro exI conjI)
      show "text = Some (join_dots [p0, p1, p2, p3])" using s w(3) ps by simp
      show "list_all ipv4_part [p0, p1, p2, p3]" using w(2) ps by simp
      then show "a = le_word (of_nat (dec_value p0)) (of_nat (dec_value p1))
                    (of_nat (dec_value p2)) (of_nat (dec_value p3))"
        using a w(4) ps by (simp add: cast ipv4_part_def)
    qed
  next
    assume ?rhs
    then obtain p0 p1 p2 p3 where r: "text = Some (join_dots [p0, p1, p2, p3])"
      "list_all ipv4_part [p0, p1, p2, p3]"
      "a = le_word (of_nat (dec_value p0)) (of_nat (dec_value p1))
                   (of_nat (dec_value p2)) (of_nat (dec_value p3))" by auto
    have "ipv4_groups 4 (join_dots [p0, p1, p2, p3]) =
        Some (map (\<lambda>p. of_nat (dec_value p)) [p0, p1, p2, p3], [])"
      using ipv4_groups_complete [of "[p0, p1, p2, p3]" 3 "[]"] r(2)
      by (simp add: eval_nat_numeral)
    with r show "parse_ipv4 text = Some a"
      by (auto simp: parse_ipv4_def cast ipv4_part_def)
  qed
qed

text \<open>
  C21: \<open>parse_ipv4\<close> accepts exactly four non-empty strings of decimal digits, each of value
  at most 255, joined by dots, with nothing before or after; the result is the address whose
  bytes in memory are the four values in order. Abbreviated forms and trailing text are refused;
  leading zeros are read as decimal.
\<close>

theorem parse_ipv4_iff:
  "parse_ipv4 text = Some a \<longleftrightarrow>
     (\<exists>p0 p1 p2 p3. text = Some (join_dots [p0, p1, p2, p3]) \<and>
        list_all ipv4_part [p0, p1, p2, p3] \<and>
        a = le_word (of_nat (dec_value p0)) (of_nat (dec_value p1))
                    (of_nat (dec_value p2)) (of_nat (dec_value p3)))"
  by (rule parse_ipv4_grammar)

section \<open>Printing and parsing are inverse\<close>

lemma append_decimal_byte_app:
  "append_decimal_byte out n = out @ append_decimal_byte [] n"
  by (simp add: append_decimal_byte_def)

lemma append_decimal_byte_part:
  assumes "n < 256"
  shows "ipv4_part (append_decimal_byte [] n) \<and> dec_value (append_decimal_byte [] n) = n"
proof -
  have lt: "n div 100 < 10" "n mod 100 div 10 < 10" "n mod 10 < 10"
    "\<not> 100 \<le> n \<Longrightarrow> n div 10 < 10"
    using assms by auto
  have m: "n mod 100 mod 10 = n mod 10" by (simp add: mod_mod_cancel)
  have eq: "10 * (10 * (n div 100) + n mod 100 div 10) + n mod 10 = n"
    using mult_div_mod_eq [of 100 n] mult_div_mod_eq [of 10 "n mod 100"] unfolding m
    by (simp only: distrib_left mult.assoc [symmetric] add.assoc)
  consider "100 \<le> n" | "10 \<le> n" "\<not> 100 \<le> n" | "n < 10" by linarith
  then show ?thesis
  proof cases
    case 1
    with lt eq assms show ?thesis
      by (simp add: append_decimal_byte_def ipv4_part_def dec_value_def m)
  next
    case 2
    with lt assms show ?thesis
      by (simp add: append_decimal_byte_def ipv4_part_def dec_value_def)
  next
    case 3
    then show ?thesis
      by (simp add: append_decimal_byte_def ipv4_part_def dec_value_def)
  qed
qed

lemma append_decimal_byte_length: "length (append_decimal_byte [] n) \<le> 3"
  by (simp add: append_decimal_byte_def)

lemma render_ipv4_join:
  "render_ipv4 [b0, b1, b2, b3] =
     join_dots (map (\<lambda>b. append_decimal_byte [] (unat b)) [b0, b1, b2, b3])"
proof -
  have "append_decimal_byte (append_decimal_byte (append_decimal_byte
      (append_decimal_byte [] x @ ''.'') y @ ''.'') z @ ''.'') w =
    append_decimal_byte [] x @ ''.'' @ append_decimal_byte [] y @ ''.'' @
    append_decimal_byte [] z @ ''.'' @ append_decimal_byte [] w" for x y z w
    by (subst append_decimal_byte_app [of _ w], subst append_decimal_byte_app [of _ z],
        subst append_decimal_byte_app [of _ y]) simp
  then show ?thesis by (simp add: render_ipv4_def Let_def)
qed

lemma render_ipv4_length: "length (render_ipv4 [b0, b1, b2, b3]) \<le> 15"
  using append_decimal_byte_length [of "unat b0"] append_decimal_byte_length [of "unat b1"]
    append_decimal_byte_length [of "unat b2"] append_decimal_byte_length [of "unat b3"]
  by (simp add: render_ipv4_join)

text \<open>
  The text that \<open>inet_ntop\<close> prints for four address bytes is read back by \<open>parse_ipv4\<close>
  as the address with exactly those bytes.
\<close>

theorem parse_render_ipv4:
  "parse_ipv4 (Some (render_ipv4 [b0, b1, b2, b3])) = Some (le_word b0 b1 b2 b3)"
proof -
  have *: "ipv4_part (append_decimal_byte [] (unat b)) \<and>
      dec_value (append_decimal_byte [] (unat b)) = unat b" for b :: u8
    by (rule append_decimal_byte_part) simp
  show ?thesis unfolding parse_ipv4_grammar render_ipv4_join
    by (intro exI [of _ "append_decimal_byte [] (unat b0)"]
        exI [of _ "append_decimal_byte [] (unat b1)"]
        exI [of _ "append_decimal_byte [] (unat b2)"]
        exI [of _ "append_decimal_byte [] (unat b3)"]) (simp add: *)
qed

end
