(* ===== verification/Winsock_Resolver.thy ===== *)
theory Winsock_Resolver
  imports Winsock_Text "HOL-Library.Monad_Syntax"
begin

text \<open>
  The resolver of the Winsock bridge (\<open>compat/w2k_s232.c\<close>): \<open>getaddrinfo\<close>,
  \<open>freeaddrinfo\<close> and \<open>inet_ntop\<close>. The functions of the system's \<open>ws2_32.dll\<close>
  that the bridge resolves at load time are fields of \<open>ws2_api\<close>, each absent when its
  pointer is NULL. The process heap is a map from addresses to result nodes; every
  \<open>HeapAlloc\<close> call either fails, as the arbitrary predicate \<open>heap_fails\<close> says, or
  returns a fresh address. A dereference or a free of an address that is not allocated is the
  value \<open>None\<close>, so that a result \<open>Some\<close> shows that the code does neither.
\<close>

section \<open>Constants and structures\<close>

abbreviation "AF_UNSPEC \<equiv> (0 :: int)"
abbreviation "AF_INET \<equiv> (2 :: int)"
abbreviation "SOCK_STREAM \<equiv> (1 :: int)"
abbreviation "SOCK_DGRAM \<equiv> (2 :: int)"
abbreviation "SOCK_RAW \<equiv> (3 :: int)"
abbreviation "IPPROTO_TCP \<equiv> (6 :: int)"
abbreviation "IPPROTO_UDP \<equiv> (17 :: int)"
abbreviation "AI_PASSIVE \<equiv> (1 :: int)"
abbreviation "AI_CANONNAME \<equiv> (2 :: int)"
abbreviation "AI_NUMERICHOST \<equiv> (4 :: int)"
abbreviation "AI_NUMERICSERV \<equiv> (8 :: int)"
abbreviation "AI_ALL \<equiv> (256 :: int)"
abbreviation "AI_ADDRCONFIG \<equiv> (1024 :: int)"
abbreviation "AI_V4MAPPED \<equiv> (2048 :: int)"
abbreviation "WSAEFAULT \<equiv> (10014 :: int)"
abbreviation "WSAEINVAL \<equiv> (10022 :: int)"
abbreviation "WSAESOCKTNOSUPPORT \<equiv> (10044 :: int)"
abbreviation "WSAEAFNOSUPPORT \<equiv> (10047 :: int)"
abbreviation "WSAHOST_NOT_FOUND \<equiv> (11001 :: int)"
abbreviation "WSANO_RECOVERY \<equiv> (11003 :: int)"
abbreviation "WSATYPE_NOT_FOUND \<equiv> (10109 :: int)"
abbreviation "WSA_NOT_ENOUGH_MEMORY \<equiv> (8 :: int)"

record sockaddr_in =
  sin_family :: int
  sin_port :: u16
  sin_addr :: u32

text \<open>A result node; its socket address lies in the same allocation, right behind it.\<close>

record addrinfo =
  ai_flags :: int
  ai_family :: int
  ai_socktype :: int
  ai_protocol :: int
  ai_addrlen :: nat
  ai_canonname :: "string option"
  ai_addr :: sockaddr_in
  ai_next :: "nat option"

text \<open>
  What \<open>gethostbyname\<close> returns. The list of 4-byte addresses ends at its NULL pointer;
  \<open>None\<close> is a NULL list pointer.
\<close>

record hostent =
  h_name :: "string option"
  h_addrtype :: int
  h_length :: int
  h_addr_list :: "u32 list option"

record ws2_api =
  g_gethostbyname :: "(string \<Rightarrow> hostent option) option"
  g_getservbyname :: "(string \<Rightarrow> string \<Rightarrow> u16 option) option"
  g_htons :: "(u16 \<Rightarrow> u16) option"
  g_wsa_set_last_error :: bool
  g_wsa_get_last_error :: "int option"
  heap_fails :: "nat \<Rightarrow> bool"

type_synonym ai_heap = "nat \<rightharpoonup> addrinfo"

record ws2_state =
  heap :: ai_heap
  heap_calls :: nat
  wsa_last :: int
  win_last :: u32

definition set_wsa_error :: "ws2_api \<Rightarrow> int \<Rightarrow> ws2_state \<Rightarrow> ws2_state" where
  "set_wsa_error api error st =
     st\<lparr>wsa_last := (if g_wsa_set_last_error api then error else wsa_last st),
        win_last := of_int error\<rparr>"

section \<open>Services\<close>

definition resolve_service ::
  "ws2_api \<Rightarrow> string option \<Rightarrow> int \<Rightarrow> bool \<Rightarrow> u16 option" where
  "resolve_service api service protocol numeric_only =
     (case service of
        None \<Rightarrow> Some 0
      | Some name \<Rightarrow>
          (case parse_decimal_port (g_htons api) (Some name) of
             Some port \<Rightarrow> Some port
           | None \<Rightarrow>
               if numeric_only then None
               else case g_getservbyname api of
                 None \<Rightarrow> None
               | Some getservbyname \<Rightarrow>
                   getservbyname name (if protocol = IPPROTO_UDP then ''udp'' else ''tcp'')))"

text \<open>The socket type and protocol variants the hints ask for, in order.\<close>

definition select_variants :: "int \<Rightarrow> int \<Rightarrow> (int \<times> int) list" where
  "select_variants requested_socktype requested_protocol =
     (if requested_socktype = 0
      then (if requested_protocol = 0 \<or> requested_protocol = IPPROTO_TCP
            then [(SOCK_STREAM, IPPROTO_TCP)] else [])
         @ (if requested_protocol = 0 \<or> requested_protocol = IPPROTO_UDP
            then [(SOCK_DGRAM, IPPROTO_UDP)] else [])
      else [(requested_socktype,
             if requested_protocol = 0
             then (if requested_socktype = SOCK_STREAM then IPPROTO_TCP
                   else if requested_socktype = SOCK_DGRAM then IPPROTO_UDP
                   else requested_protocol)
             else requested_protocol)])"

fun resolve_ports ::
  "ws2_api \<Rightarrow> string option \<Rightarrow> bool \<Rightarrow> (int \<times> int) list \<Rightarrow> (int \<times> int \<times> u16) list option" where
  "resolve_ports api service numeric_only [] = Some []"
| "resolve_ports api service numeric_only ((socktype, protocol) # variants) =
     (case resolve_service api service protocol numeric_only of
        None \<Rightarrow> None
      | Some port \<Rightarrow>
          (case resolve_ports api service numeric_only variants of
             None \<Rightarrow> None
           | Some rest \<Rightarrow> Some ((socktype, protocol, port) # rest)))"

section \<open>Hosts\<close>

text \<open>The addresses to report and the canonical name of the first, or the error code.\<close>

definition resolve_node ::
  "ws2_api \<Rightarrow> string option \<Rightarrow> int \<Rightarrow> int + (u32 list \<times> string option)" where
  "resolve_node api node flags =
     (case node of
        None \<Rightarrow>
          Inr ([le_word (if flags AND AI_PASSIVE \<noteq> 0 then 0 else 127) 0 0
                        (if flags AND AI_PASSIVE \<noteq> 0 then 0 else 1)], None)
      | Some name \<Rightarrow>
          (case parse_ipv4 (Some name) of
             Some address \<Rightarrow>
               Inr ([address], if flags AND AI_CANONNAME \<noteq> 0 then Some name else None)
           | None \<Rightarrow>
               if flags AND AI_NUMERICHOST \<noteq> 0 then Inl WSAHOST_NOT_FOUND
               else case g_gethostbyname api of
                 None \<Rightarrow> Inl WSANO_RECOVERY
               | Some gethostbyname \<Rightarrow>
                   (case gethostbyname name of
                      None \<Rightarrow>
                        let error = (case g_wsa_get_last_error api of
                                       Some e \<Rightarrow> e | None \<Rightarrow> WSAHOST_NOT_FOUND)
                        in Inl (if error = 0 then WSAHOST_NOT_FOUND else error)
                    | Some host \<Rightarrow>
                        if h_addrtype host \<noteq> AF_INET \<or> h_length host \<noteq> 4 then Inl WSAEAFNOSUPPORT
                        else case h_addr_list host of
                          None \<Rightarrow> Inl WSAEAFNOSUPPORT
                        | Some [] \<Rightarrow> Inl WSAEAFNOSUPPORT
                        | Some addresses \<Rightarrow>
                            Inr (addresses,
                              if flags AND AI_CANONNAME \<noteq> 0
                              then Some (case h_name host of Some h \<Rightarrow> h | None \<Rightarrow> name)
                              else None))))"

section \<open>The result chain\<close>

definition zero_addrinfo :: addrinfo where
  "zero_addrinfo = \<lparr>ai_flags = 0, ai_family = 0, ai_socktype = 0, ai_protocol = 0,
     ai_addrlen = 0, ai_canonname = None,
     ai_addr = \<lparr>sin_family = 0, sin_port = 0, sin_addr = 0\<rparr>, ai_next = None\<rparr>"

definition filled_addrinfo :: "u32 \<Rightarrow> u16 \<Rightarrow> int \<Rightarrow> int \<Rightarrow> string option \<Rightarrow> addrinfo" where
  "filled_addrinfo address port socktype protocol canonical_name =
     zero_addrinfo\<lparr>ai_addr := \<lparr>sin_family = AF_INET, sin_port = port, sin_addr = address\<rparr>,
       ai_family := AF_INET, ai_socktype := socktype, ai_protocol := protocol,
       ai_addrlen := 16, ai_canonname := canonical_name\<rparr>"

definition set_ai_next :: "nat \<Rightarrow> nat option \<Rightarrow> ai_heap \<Rightarrow> ai_heap option" where
  "set_ai_next p q h =
     (case h p of None \<Rightarrow> None | Some e \<Rightarrow> Some (h(p \<mapsto> e\<lparr>ai_next := q\<rparr>)))"

text \<open>
  The head and tail pointers and the heap after one append; the flag is the function's
  result, false when the allocation failed. The value \<open>None\<close> is a bad dereference of the
  tail pointer.
\<close>

definition append_result ::
  "ws2_api \<Rightarrow> u32 \<Rightarrow> u16 \<Rightarrow> int \<Rightarrow> int \<Rightarrow> string option \<Rightarrow>
   nat option \<times> nat option \<times> ws2_state \<Rightarrow> (bool \<times> nat option \<times> nat option \<times> ws2_state) option" where
  "append_result api address port socktype protocol canonical_name =
     (\<lambda>(head, tail, st).
        let a = heap_calls st; st = st\<lparr>heap_calls := Suc a\<rparr> in
          if heap_fails api a then Some (False, head, tail, st)
          else
            let entry = filled_addrinfo address port socktype protocol canonical_name;
                h = (heap st)(a \<mapsto> entry) in
              case tail of
                Some t \<Rightarrow>
                  do { h' \<leftarrow> set_ai_next t (Some a) h;
                       Some (True, head, Some a, st\<lparr>heap := h'\<rparr>) }
              | None \<Rightarrow> Some (True, Some a, Some a, st\<lparr>heap := h\<rparr>))"

partial_function (option) free_addrinfo_chain :: "nat option \<Rightarrow> ai_heap \<Rightarrow> ai_heap option" where
  "free_addrinfo_chain head h =
     (case head of
        None \<Rightarrow> Some h
      | Some p \<Rightarrow>
          (case h p of
             None \<Rightarrow> None
           | Some e \<Rightarrow> free_addrinfo_chain (ai_next e) (h(p := None))))"

definition freeaddrinfo :: "nat option \<Rightarrow> ws2_state \<Rightarrow> ws2_state option" where
  "freeaddrinfo result st =
     map_option (\<lambda>h. st\<lparr>heap := h\<rparr>) (free_addrinfo_chain result (heap st))"

text \<open>The inner loop over the variants: the canonical name goes to the first one only.\<close>

fun variant_loop ::
  "ws2_api \<Rightarrow> u32 \<Rightarrow> string option \<Rightarrow> (int \<times> int \<times> u16) list \<Rightarrow>
   nat option \<times> nat option \<times> ws2_state \<Rightarrow> (bool \<times> nat option \<times> nat option \<times> ws2_state) option" where
  "variant_loop api address canonical [] (head, tail, st) = Some (True, head, tail, st)"
| "variant_loop api address canonical ((socktype, protocol, port) # variants) c =
     do { (ok, c') \<leftarrow> append_result api address port socktype protocol canonical c;
          if ok then variant_loop api address None variants c' else Some (False, c') }"

text \<open>The outer loop over the addresses.\<close>

fun address_loop ::
  "ws2_api \<Rightarrow> string option \<Rightarrow> (int \<times> int \<times> u16) list \<Rightarrow> u32 list \<Rightarrow>
   nat option \<times> nat option \<times> ws2_state \<Rightarrow> (bool \<times> nat option \<times> nat option \<times> ws2_state) option" where
  "address_loop api canonical variants [] (head, tail, st) = Some (True, head, tail, st)"
| "address_loop api canonical variants (address # addresses) c =
     do { (ok, c') \<leftarrow> variant_loop api address canonical variants c;
          if ok then address_loop api None variants addresses c' else Some (False, c') }"

definition allowed_flags :: int where
  "allowed_flags = AI_PASSIVE OR AI_CANONNAME OR AI_NUMERICHOST OR AI_NUMERICSERV OR AI_ALL OR
     AI_ADDRCONFIG OR AI_V4MAPPED"

definition gai_fail ::
  "ws2_api \<Rightarrow> int \<Rightarrow> ws2_state \<Rightarrow> (int \<times> nat option \<times> ws2_state) option" where
  "gai_fail api error st = Some (error, None, set_wsa_error api error st)"

text \<open>The end of \<open>getaddrinfo\<close>: the nested loops, the release on failure, the result.\<close>

definition gai_collect ::
  "ws2_api \<Rightarrow> u32 list \<Rightarrow> string option \<Rightarrow> (int \<times> int \<times> u16) list \<Rightarrow> ws2_state \<Rightarrow>
   (int \<times> nat option \<times> ws2_state) option" where
  "gai_collect api addresses canonical ported st =
     do { (ok, head, tail, st) \<leftarrow> address_loop api canonical ported addresses (None, None, st);
          if \<not> ok
          then do { st \<leftarrow> freeaddrinfo head st; gai_fail api WSA_NOT_ENOUGH_MEMORY st }
          else case head of
            None \<Rightarrow> gai_fail api WSAHOST_NOT_FOUND st
          | Some p \<Rightarrow> Some (0, Some p, set_wsa_error api 0 st) }"

text \<open>
  \<open>getaddrinfo\<close>: the return code, what is stored through \<open>result\<close> (nothing is stored
  when that pointer is NULL) and the state. \<open>None\<close> as the whole value is a bad
  dereference or free.
\<close>

definition getaddrinfo ::
  "ws2_api \<Rightarrow> string option \<Rightarrow> string option \<Rightarrow> addrinfo option \<Rightarrow> bool \<Rightarrow> ws2_state \<Rightarrow>
   (int \<times> nat option \<times> ws2_state) option" where
  "getaddrinfo api node service hints result_given st =
     (let family = (case hints of Some h \<Rightarrow> ai_family h | None \<Rightarrow> AF_UNSPEC);
          requested_socktype = (case hints of Some h \<Rightarrow> ai_socktype h | None \<Rightarrow> 0);
          requested_protocol = (case hints of Some h \<Rightarrow> ai_protocol h | None \<Rightarrow> 0);
          flags = (case hints of Some h \<Rightarrow> ai_flags h | None \<Rightarrow> 0);
          variants = select_variants requested_socktype requested_protocol in
        if \<not> result_given then gai_fail api WSAEFAULT st
        else if node = None \<and> service = None then gai_fail api WSAHOST_NOT_FOUND st
        else if flags AND NOT allowed_flags \<noteq> 0 then gai_fail api WSAEINVAL st
        else if family \<noteq> AF_UNSPEC \<and> family \<noteq> AF_INET then gai_fail api WSAEAFNOSUPPORT st
        else if requested_socktype \<noteq> 0 \<and> requested_socktype \<noteq> SOCK_STREAM \<and>
          requested_socktype \<noteq> SOCK_DGRAM \<and> requested_socktype \<noteq> SOCK_RAW
        then gai_fail api WSAESOCKTNOSUPPORT st
        else if variants = [] then gai_fail api WSAESOCKTNOSUPPORT st
        else case resolve_ports api service (flags AND AI_NUMERICSERV \<noteq> 0) variants of
          None \<Rightarrow> gai_fail api WSATYPE_NOT_FOUND st
        | Some ported \<Rightarrow>
            (case resolve_node api node flags of
               Inl error \<Rightarrow> gai_fail api error st
             | Inr (addresses, canonical) \<Rightarrow> gai_collect api addresses canonical ported st))"

section \<open>Printing an address\<close>

text \<open>
  \<open>inet_ntop\<close>: the text stored in the caller's buffer, if any (the returned pointer is
  NULL exactly when there is none), and the state. \<open>address\<close> are the four bytes the
  pointer refers to, \<open>None\<close> for NULL; \<open>rendered\<close> ends with its NUL.
\<close>

definition inet_ntop ::
  "ws2_api \<Rightarrow> int \<Rightarrow> (u8 \<times> u8 \<times> u8 \<times> u8) option \<Rightarrow> bool \<Rightarrow> u32 \<Rightarrow> ws2_state \<Rightarrow>
   string option \<times> ws2_state" where
  "inet_ntop api family address buffer_given buffer_bytes st =
     (if family \<noteq> AF_INET then (None, set_wsa_error api WSAEAFNOSUPPORT st)
      else case address of
        None \<Rightarrow> (None, set_wsa_error api WSAEFAULT st)
      | Some (b0, b1, b2, b3) \<Rightarrow>
          if \<not> buffer_given then (None, set_wsa_error api WSAEFAULT st)
          else
            let rendered = render_ipv4 [b0, b1, b2, b3]; size = length rendered + 1 in
              if unat buffer_bytes < size then (None, set_wsa_error api WSAEFAULT st)
              else (Some rendered, set_wsa_error api 0 st))"

section \<open>Chains in the heap\<close>

primrec ai_path :: "ai_heap \<Rightarrow> nat option \<Rightarrow> nat list \<Rightarrow> nat option \<Rightarrow> bool" where
  "ai_path h p [] q \<longleftrightarrow> p = q"
| "ai_path h p (a # as) q \<longleftrightarrow> p = Some a \<and> (\<exists>e. h a = Some e \<and> ai_path h (ai_next e) as q)"

definition ai_content :: "ai_heap \<Rightarrow> nat \<Rightarrow> addrinfo" where
  "ai_content h a = (the (h a))\<lparr>ai_next := None\<rparr>"

text \<open>The chain from \<open>p\<close> holds the nodes \<open>es\<close>, at the distinct addresses \<open>as\<close>.\<close>

definition ai_chain :: "ai_heap \<Rightarrow> nat option \<Rightarrow> nat list \<Rightarrow> addrinfo list \<Rightarrow> bool" where
  "ai_chain h p as es \<longleftrightarrow>
     ai_path h p as None \<and> distinct as \<and> map (ai_content h) as = es"

lemma ai_path_append [simp]:
  "ai_path h p (as @ bs) q \<longleftrightarrow> (\<exists>r. ai_path h p as r \<and> ai_path h r bs q)"
  by (induction as arbitrary: p) auto

lemma ai_path_cong:
  "(\<And>a. a \<in> set as \<Longrightarrow> h' a = h a) \<Longrightarrow> ai_path h' p as q = ai_path h p as q"
  by (induction as arbitrary: p) auto

lemma ai_path_dom: "ai_path h p as q \<Longrightarrow> a \<in> set as \<Longrightarrow> h a \<noteq> None"
  by (induction as arbitrary: p) auto

lemma free_addrinfo_chain_path:
  "ai_path h p as None \<Longrightarrow> distinct as \<Longrightarrow>
   free_addrinfo_chain p h = Some (\<lambda>a. if a \<in> set as then None else h a)"
proof (induction as arbitrary: p h)
  case Nil
  then show ?case by (simp add: free_addrinfo_chain.simps)
next
  case (Cons a as)
  then obtain e where p: "p = Some a" "h a = Some e" "ai_path h (ai_next e) as None" by auto
  have "ai_path (h(a := None)) (ai_next e) as None"
    using p(3) Cons.prems(2) by (subst ai_path_cong [of _ _ h]) auto
  moreover from Cons.prems(2) have "distinct as" by simp
  ultimately have "free_addrinfo_chain (ai_next e) (h(a := None)) =
      Some (\<lambda>b. if b \<in> set as then None else (h(a := None)) b)" by (rule Cons.IH)
  then have "free_addrinfo_chain p h =
      Some (\<lambda>b. if b \<in> set as then None else (h(a := None)) b)"
    using p by (subst free_addrinfo_chain.simps) simp
  then show ?case by (auto simp: fun_eq_iff)
qed

text \<open>
  What the append loop keeps: \<open>as\<close> are the addresses allocated so far, over the heap
  \<open>h0\<close> of the call.
\<close>

definition built ::
  "ai_heap \<Rightarrow> addrinfo list \<Rightarrow> nat list \<Rightarrow> nat option \<times> nat option \<times> ws2_state \<Rightarrow> bool" where
  "built h0 es as = (\<lambda>(head, tail, st).
     ai_chain (heap st) head as es \<and>
     tail = (if as = [] then None else Some (last as)) \<and>
     (\<forall>a \<in> set as. h0 a = None) \<and>
     (\<forall>a. a \<notin> set as \<longrightarrow> heap st a = h0 a) \<and>
     (\<forall>a \<ge> heap_calls st. heap st a = None))"

definition heap_bounded :: "ws2_state \<Rightarrow> bool" where
  "heap_bounded st \<longleftrightarrow> (\<forall>a \<ge> heap_calls st. heap st a = None)"

lemma built_init: "heap_bounded st \<Longrightarrow> built (heap st) [] [] (None, None, st)"
  by (auto simp: built_def ai_chain_def heap_bounded_def)

lemma built_free:
  "built h0 es as (head, tail, st) \<Longrightarrow> freeaddrinfo head st = Some (st\<lparr>heap := h0\<rparr>)"
proof -
  assume b: "built h0 es as (head, tail, st)"
  then have "(\<lambda>a. if a \<in> set as then None else heap st a) = h0"
    by (auto simp: built_def fun_eq_iff)
  moreover from b have "ai_path (heap st) head as None" "distinct as"
    by (auto simp: built_def ai_chain_def)
  ultimately show ?thesis by (simp add: freeaddrinfo_def free_addrinfo_chain_path)
qed

lemma built_head: "built h0 es as (head, tail, st) \<Longrightarrow> head = None \<longleftrightarrow> es = []"
  by (cases as) (auto simp: built_def ai_chain_def)

lemma built_failed_alloc:
  "built h0 es as (head, tail, st) \<Longrightarrow>
   built h0 es as (head, tail, st\<lparr>heap_calls := Suc (heap_calls st)\<rparr>)"
  by (auto simp: built_def)

lemma built_append:
  assumes b: "built h0 es as (head, Some t, st)" and n: "ai_next e = None"
    and l: "heap st t = Some f"
  shows "built h0 (es @ [e]) (as @ [heap_calls st])
    (head, Some (heap_calls st),
     st\<lparr>heap_calls := Suc (heap_calls st),
        heap := (heap st)(heap_calls st \<mapsto> e, t \<mapsto> f\<lparr>ai_next := Some (heap_calls st)\<rparr>)\<rparr>)"
proof -
  let ?a = "heap_calls st" and ?h = "heap st"
  let ?h' = "?h(?a \<mapsto> e, t \<mapsto> f\<lparr>ai_next := Some ?a\<rparr>)"
  from b have path: "ai_path ?h head as None" and dist: "distinct as"
    and es: "map (ai_content ?h) as = es" and "as \<noteq> []" "t = last as"
    and out: "\<forall>a. a \<notin> set as \<longrightarrow> ?h a = h0 a" and fresh: "\<forall>a \<ge> ?a. ?h a = None"
    and new: "\<forall>a \<in> set as. h0 a = None"
    by (auto simp: built_def ai_chain_def split: if_splits)
  then obtain as' where as: "as = as' @ [t]" by (metis append_butlast_last_id)
  have na: "?a \<notin> set as" using ai_path_dom [OF path, of ?a] fresh by auto
  with as have "t \<noteq> ?a" by auto
  have path': "ai_path ?h head as' (Some t)" using path as by auto
  have "ai_path ?h' head as' (Some t)"
    using path' dist na as by (subst ai_path_cong [of _ _ ?h]) auto
  then have "ai_path ?h' head (as @ [?a]) None"
    using as \<open>t \<noteq> ?a\<close> n by auto
  moreover have "map (ai_content ?h') (as @ [?a]) = es @ [e]"
    using es as dist na l n \<open>t \<noteq> ?a\<close> by (auto simp: ai_content_def)
  moreover have "h0 ?a = None" using out na fresh by auto
  moreover have "t < ?a" using l fresh by (metis linorder_not_le option.distinct(1))
  ultimately show ?thesis
    using dist na out new fresh as by (auto simp: built_def ai_chain_def)
qed

lemma built_first:
  assumes "built h0 es [] (head, tail, st)" and "ai_next e = None"
  shows "built h0 [e] [heap_calls st]
    (Some (heap_calls st), Some (heap_calls st),
     st\<lparr>heap_calls := Suc (heap_calls st), heap := (heap st)(heap_calls st \<mapsto> e)\<rparr>)"
  using assms by (auto simp: built_def ai_chain_def ai_content_def)

lemma ai_next_filled [simp]: "ai_next (filled_addrinfo a p s q c) = None"
  by (simp add: filled_addrinfo_def zero_addrinfo_def)

text \<open>One append: it either fails and changes nothing but the call count, or adds its node.\<close>

lemma append_result_built:
  assumes "built h0 es as c"
  shows "\<exists>ok c'. append_result api address port socktype protocol canonical c = Some (ok, c') \<and>
    (ok \<longrightarrow> (\<exists>as'. built h0 (es @ [filled_addrinfo address port socktype protocol canonical]) as' c'))
    \<and> (\<not> ok \<longrightarrow> (\<exists>as'. built h0 es as' c') \<and> (\<exists>n. heap_fails api n))"
proof -
  obtain head tail st where c: "c = (head, tail, st)" by (cases c)
  let ?e = "filled_addrinfo address port socktype protocol canonical"
  show ?thesis
  proof (cases "heap_fails api (heap_calls st)")
    case True
    with assms c built_failed_alloc [of h0 es as head tail st] show ?thesis
      by (auto simp: append_result_def)
  next
    case False
    show ?thesis
    proof (cases "as = []")
      case True
      with assms c have "tail = None" "es = []" by (auto simp: built_def ai_chain_def)
      with assms c True False built_first [of h0 es head tail st ?e] show ?thesis
        by (auto simp: append_result_def Let_def)
    next
      case ne: False
      then have t: "tail = Some (last as)" using assms c by (auto simp: built_def)
      have "heap st (last as) \<noteq> None"
        using assms c ne ai_path_dom [of "heap st" head as None "last as"]
        by (auto simp: built_def ai_chain_def)
      then obtain f where f: "heap st (last as) = Some f" by auto
      have "last as \<noteq> heap_calls st" using assms c f by (auto simp: built_def)
      with built_append [of h0 es as head "last as" st ?e f] assms c False t f show ?thesis
        by (auto simp: append_result_def Let_def set_ai_next_def)
    qed
  qed
qed

section \<open>What the loops build\<close>

fun variant_entries :: "u32 \<Rightarrow> string option \<Rightarrow> (int \<times> int \<times> u16) list \<Rightarrow> addrinfo list" where
  "variant_entries address canonical [] = []"
| "variant_entries address canonical ((socktype, protocol, port) # variants) =
     filled_addrinfo address port socktype protocol canonical
       # variant_entries address None variants"

fun address_entries :: "string option \<Rightarrow> (int \<times> int \<times> u16) list \<Rightarrow> u32 list \<Rightarrow> addrinfo list" where
  "address_entries canonical variants [] = []"
| "address_entries canonical variants (address # addresses) =
     variant_entries address canonical variants @ address_entries None variants addresses"

lemma variant_loop_built:
  "built h0 es as c \<Longrightarrow>
   \<exists>ok c'. variant_loop api address canonical variants c = Some (ok, c') \<and>
    (ok \<longrightarrow> (\<exists>as'. built h0 (es @ variant_entries address canonical variants) as' c')) \<and>
    (\<not> ok \<longrightarrow> (\<exists>es' as'. built h0 es' as' c') \<and> (\<exists>n. heap_fails api n))"
proof (induction variants arbitrary: canonical es as c)
  case Nil
  then show ?case by (cases c) auto
next
  case (Cons v vs)
  obtain socktype protocol port where v: "v = (socktype, protocol, port)" by (cases v)
  obtain ok c' where app: "append_result api address port socktype protocol canonical c = Some (ok, c')"
    and yes: "ok \<Longrightarrow>
      \<exists>as'. built h0 (es @ [filled_addrinfo address port socktype protocol canonical]) as' c'"
    and no: "\<not> ok \<Longrightarrow> (\<exists>as'. built h0 es as' c') \<and> (\<exists>n. heap_fails api n)"
    using append_result_built [OF Cons.prems, of api address port socktype protocol canonical]
    by blast
  show ?case
  proof (cases ok)
    case True
    with yes obtain as' where
      "built h0 (es @ [filled_addrinfo address port socktype protocol canonical]) as' c'" by auto
    from Cons.IH [OF this, of None] show ?thesis using app True v by simp
  next
    case False
    with no app v show ?thesis by auto
  qed
qed

lemma address_loop_built:
  "built h0 es as c \<Longrightarrow>
   \<exists>ok c'. address_loop api canonical variants addresses c = Some (ok, c') \<and>
    (ok \<longrightarrow> (\<exists>as'. built h0 (es @ address_entries canonical variants addresses) as' c')) \<and>
    (\<not> ok \<longrightarrow> (\<exists>es' as'. built h0 es' as' c') \<and> (\<exists>n. heap_fails api n))"
proof (induction addresses arbitrary: canonical es as c)
  case Nil
  then show ?case by (cases c) auto
next
  case (Cons a rest)
  obtain ok c' where loop: "variant_loop api a canonical variants c = Some (ok, c')"
    and yes: "ok \<Longrightarrow> \<exists>as'. built h0 (es @ variant_entries a canonical variants) as' c'"
    and no: "\<not> ok \<Longrightarrow> (\<exists>es' as'. built h0 es' as' c') \<and> (\<exists>n. heap_fails api n)"
    using variant_loop_built [OF Cons.prems, of api a canonical variants] by blast
  show ?case
  proof (cases ok)
    case True
    with yes obtain as' where "built h0 (es @ variant_entries a canonical variants) as' c'" by auto
    from Cons.IH [OF this, of None] show ?thesis using loop True by simp
  next
    case False
    with no loop show ?thesis by auto
  qed
qed

lemma address_entries_Nil_iff:
  "address_entries canonical variants addresses = [] \<longleftrightarrow> variants = [] \<or> addresses = []"
proof -
  have v: "variant_entries a c variants = [] \<longleftrightarrow> variants = []" for a c
    by (cases variants) auto
  show ?thesis by (induction addresses arbitrary: canonical) (auto simp: v)
qed

lemma variant_entries_length: "length (variant_entries a c vs) = length vs"
  by (induction vs arbitrary: c) auto

lemma address_entries_length:
  "length (address_entries c variants addresses) = length addresses * length variants"
  by (induction addresses arbitrary: c) (auto simp: variant_entries_length)

lemma variant_entries_set:
  "e \<in> set (variant_entries a c vs) \<Longrightarrow>
   \<exists>v c'. v \<in> set vs \<and> e = filled_addrinfo a (snd (snd v)) (fst v) (fst (snd v)) c'"
proof (induction vs arbitrary: c)
  case (Cons v vs)
  obtain s q p where v: "v = (s, q, p)" by (cases v)
  from Cons.prems consider "e = filled_addrinfo a p s q c" | "e \<in> set (variant_entries a None vs)"
    by (auto simp: v)
  then show ?case
  proof cases
    case 1
    then show ?thesis by (intro exI [of _ v] exI [of _ c]) (simp add: v)
  next
    case 2
    from Cons.IH [OF this] show ?thesis by (auto intro: exI [of _ "_ :: _ \<times> _"])
  qed
qed simp

lemma address_entries_set:
  "e \<in> set (address_entries c vs addresses) \<Longrightarrow>
   \<exists>a v c'. a \<in> set addresses \<and> v \<in> set vs \<and>
     e = filled_addrinfo a (snd (snd v)) (fst v) (fst (snd v)) c'"
proof (induction addresses arbitrary: c)
  case (Cons a addresses)
  then consider "e \<in> set (variant_entries a c vs)" | "e \<in> set (address_entries None vs addresses)"
    by auto
  then show ?case
  proof cases
    case 1
    from variant_entries_set [OF this] show ?thesis by (metis list.set_intros(1))
  next
    case 2
    from Cons.IH [OF this] show ?thesis by (metis list.set_intros(2))
  qed
qed simp

lemma resolve_ports_variants:
  "resolve_ports api service n vs = Some ported \<Longrightarrow>
   map (\<lambda>v. (fst v, fst (snd v))) ported = vs \<and>
   (\<forall>v \<in> set ported. resolve_service api service (fst (snd v)) n = Some (snd (snd v)))"
proof (induction vs arbitrary: ported)
  case (Cons v vs)
  obtain s q where v: "v = (s, q)" by (cases v)
  from Cons.prems obtain p rest where "resolve_service api service q n = Some p"
    "resolve_ports api service n vs = Some rest" "ported = (s, q, p) # rest"
    by (auto simp: v split: option.splits)
  with Cons.IH [of rest] show ?case by (simp add: v)
qed simp

lemma heap_set_wsa_error [simp]:
  "heap (set_wsa_error api e st) = heap st" "heap_calls (set_wsa_error api e st) = heap_calls st"
  by (simp_all add: set_wsa_error_def)

lemma win_last_set_wsa_error [simp]: "win_last (set_wsa_error api e st) = of_int e"
  by (simp add: set_wsa_error_def)

lemma select_variants_nonempty:
  "resolve_ports api service n vs = Some ported \<Longrightarrow> ported = [] \<longleftrightarrow> vs = []"
  by (cases vs) (auto split: option.splits)

lemma resolve_node_nonempty: "resolve_node api node flags = Inr (addresses, c) \<Longrightarrow> addresses \<noteq> []"
  by (auto simp: resolve_node_def Let_def split: option.splits if_splits list.splits)

text \<open>What a call of \<open>getaddrinfo\<close> promises about its code, its result and the heap.\<close>

definition gai_outcome ::
  "ws2_api \<Rightarrow> string option \<Rightarrow> string option \<Rightarrow> addrinfo option \<Rightarrow> ws2_state \<Rightarrow>
   int \<times> nat option \<times> ws2_state \<Rightarrow> bool" where
  "gai_outcome api node service hints st = (\<lambda>(code, res, st').
     win_last st' = of_int code \<and>
     (res \<noteq> None \<longleftrightarrow> code = 0) \<and>
     (code \<noteq> 0 \<longrightarrow> heap st' = heap st) \<and>
     (code = WSA_NOT_ENOUGH_MEMORY \<longrightarrow> (\<exists>n. heap_fails api n) \<or> g_wsa_get_last_error api = Some code) \<and>
     (code = 0 \<longrightarrow> (\<exists>as addresses canonical ported.
        resolve_node api node (case hints of Some h \<Rightarrow> ai_flags h | None \<Rightarrow> 0)
          = Inr (addresses, canonical) \<and>
        resolve_ports api service
          ((case hints of Some h \<Rightarrow> ai_flags h | None \<Rightarrow> 0) AND AI_NUMERICSERV \<noteq> 0)
          (select_variants (case hints of Some h \<Rightarrow> ai_socktype h | None \<Rightarrow> 0)
             (case hints of Some h \<Rightarrow> ai_protocol h | None \<Rightarrow> 0)) = Some ported \<and>
        built (heap st) (address_entries canonical ported addresses) as
          (res, (if as = [] then None else Some (last as)), st'))))"

definition gai_ok ::
  "ws2_api \<Rightarrow> string option \<Rightarrow> string option \<Rightarrow> addrinfo option \<Rightarrow> ws2_state \<Rightarrow>
   (int \<times> nat option \<times> ws2_state) option \<Rightarrow> bool" where
  "gai_ok api node service hints st r \<longleftrightarrow>
     (\<exists>out. r = Some out \<and> gai_outcome api node service hints st out)"

lemma gai_ok_fail:
  "e \<noteq> 0 \<Longrightarrow> e \<noteq> WSA_NOT_ENOUGH_MEMORY \<or> g_wsa_get_last_error api = Some e \<Longrightarrow>
   gai_ok api node service hints st (gai_fail api e st)"
  by (auto simp: gai_fail_def gai_outcome_def gai_ok_def)

lemma gai_ok_if:
  "(c \<Longrightarrow> gai_ok api node service hints st a) \<Longrightarrow> (\<not> c \<Longrightarrow> gai_ok api node service hints st b) \<Longrightarrow>
   gai_ok api node service hints st (if c then a else b)"
  by simp

lemma resolve_node_error:
  "resolve_node api node flags = Inl e \<Longrightarrow>
   e \<noteq> 0 \<and> (e \<noteq> WSA_NOT_ENOUGH_MEMORY \<or> g_wsa_get_last_error api = Some e)"
  by (auto simp: resolve_node_def Let_def split: option.splits if_splits list.splits)

lemma built_set_wsa_error:
  "built h0 es as (head, tail, st) \<Longrightarrow> built h0 es as (head, tail, set_wsa_error api e st)"
  by (auto simp: built_def)

lemma gai_collect_ok:
  assumes bounded: "heap_bounded st"
    and node: "resolve_node api node (case hints of Some h \<Rightarrow> ai_flags h | None \<Rightarrow> 0)
          = Inr (addresses, canonical)"
    and ports: "resolve_ports api service
          ((case hints of Some h \<Rightarrow> ai_flags h | None \<Rightarrow> 0) AND AI_NUMERICSERV \<noteq> 0)
          (select_variants (case hints of Some h \<Rightarrow> ai_socktype h | None \<Rightarrow> 0)
             (case hints of Some h \<Rightarrow> ai_protocol h | None \<Rightarrow> 0)) = Some ported"
    and ne: "ported \<noteq> []"
  shows "gai_ok api node service hints st (gai_collect api addresses canonical ported st)"
proof -
  obtain ok c' where
    loop': "address_loop api canonical ported addresses (None, None, st) = Some (ok, c')"
    and yes': "ok \<Longrightarrow> \<exists>as. built (heap st) (address_entries canonical ported addresses) as c'"
    and no': "\<not> ok \<Longrightarrow> (\<exists>es as. built (heap st) es as c') \<and> (\<exists>n. heap_fails api n)"
    using address_loop_built [OF built_init [OF bounded], of api canonical ported addresses]
    unfolding append_Nil by blast
  obtain head tail st' where c': "c' = (head, tail, st')" by (cases c')
  note loop = loop' [unfolded c'] and yes = yes' [unfolded c'] and no = no' [unfolded c']
  show ?thesis
  proof (cases ok)
    case True
    with yes obtain as where
      b: "built (heap st) (address_entries canonical ported addresses) as (head, tail, st')" by auto
    then obtain p where p: "head = Some p"
      using built_head [OF b] resolve_node_nonempty [OF node] ne
      by (auto simp: address_entries_Nil_iff)
    from b have t: "tail = (if as = [] then None else Some (last as))" by (simp add: built_def)
    from built_set_wsa_error [OF b, of api 0] node ports
    have "gai_outcome api node service hints st (0, Some p, set_wsa_error api 0 st')"
      unfolding gai_outcome_def t p prod.case
      by (intro conjI impI exI [of _ as] exI [of _ addresses] exI [of _ canonical]
          exI [of _ ported]) simp_all
    with loop True p show ?thesis by (simp add: gai_ok_def gai_collect_def)
  next
    case False
    with no obtain es as where b: "built (heap st) es as (head, tail, st')" by auto
    from built_free [OF b] loop False no show ?thesis
      by (auto simp: gai_ok_def gai_collect_def gai_outcome_def gai_fail_def)
  qed
qed

lemma gai_ok_getaddrinfo:
  assumes "heap_bounded st"
  shows "gai_ok api node service hints st (getaddrinfo api node service hints True st)"
proof -
  let ?flags = "case hints of Some h \<Rightarrow> ai_flags h | None \<Rightarrow> 0"
  let ?vs = "select_variants (case hints of Some h \<Rightarrow> ai_socktype h | None \<Rightarrow> 0)
             (case hints of Some h \<Rightarrow> ai_protocol h | None \<Rightarrow> 0)"
  let ?rest = "case resolve_ports api service (?flags AND AI_NUMERICSERV \<noteq> 0) ?vs of
      None \<Rightarrow> gai_fail api WSATYPE_NOT_FOUND st
    | Some ported \<Rightarrow>
        (case resolve_node api node ?flags of
           Inl error \<Rightarrow> gai_fail api error st
         | Inr (addresses, canonical) \<Rightarrow> gai_collect api addresses canonical ported st)"
  have rest: "gai_ok api node service hints st ?rest" if "?vs \<noteq> []"
  proof (cases "resolve_ports api service (?flags AND AI_NUMERICSERV \<noteq> 0) ?vs")
    case None
    then show ?thesis by (simp add: gai_ok_fail)
  next
    case (Some ported)
    then have "ported \<noteq> []" using that select_variants_nonempty by blast
    with Some assms show ?thesis
      by (auto split: sum.split intro!: gai_ok_fail gai_collect_ok dest: resolve_node_error)
  qed
  show ?thesis
    unfolding getaddrinfo_def Let_def
    by (intro gai_ok_if rest; simp add: gai_ok_fail)
qed


definition empty_ws2_state :: ws2_state where
  "empty_ws2_state = \<lparr>heap = Map.empty, heap_calls = 0, wsa_last = 0, win_last = 0\<rparr>"

text \<open>A host with two addresses, and a heap whose fourth allocation fails.\<close>

definition sample_ws2_api :: ws2_api where
  "sample_ws2_api = \<lparr>g_gethostbyname = Some (\<lambda>n. Some \<lparr>h_name = Some ''host'',
       h_addrtype = 2, h_length = 4, h_addr_list = Some [16777343, 33554559]\<rparr>),
     g_getservbyname = None, g_htons = None, g_wsa_set_last_error = True,
     g_wsa_get_last_error = Some 11001, heap_fails = (\<lambda>n. n = 3)\<rparr>"

lemma heap_bounded_empty [simp]: "heap_bounded empty_ws2_state"
  by (simp add: heap_bounded_def empty_ws2_state_def)


text \<open>
  C18: whatever a call of \<open>getaddrinfo\<close> returns, passing its result to \<open>freeaddrinfo\<close>
  releases exactly the nodes the call allocated: no node is freed twice, none leaks.
\<close>

theorem freeaddrinfo_getaddrinfo:
  assumes "heap_bounded st"
  shows "\<exists>code res st' st''. getaddrinfo api node service hints True st = Some (code, res, st') \<and>
    freeaddrinfo res st' = Some st'' \<and> heap st'' = heap st"
proof -
  obtain code res st' where call: "getaddrinfo api node service hints True st = Some (code, res, st')"
    and out: "gai_outcome api node service hints st (code, res, st')"
    using gai_ok_getaddrinfo [OF assms, of api node service hints] by (auto simp: gai_ok_def)
  show ?thesis
  proof (cases "code = 0")
    case True
    with out obtain es as where
      "built (heap st) es as (res, (if as = [] then None else Some (last as)), st')"
      by (auto simp: gai_outcome_def)
    from built_free [OF this] call show ?thesis by simp
  next
    case False
    with out call show ?thesis
      by (auto simp: gai_outcome_def freeaddrinfo_def free_addrinfo_chain.simps)
  qed
qed

theorem freeaddrinfo_getaddrinfo_witness:
  "\<exists>code res st' st''. getaddrinfo sample_ws2_api (Some ''host'') (Some ''80'') None True
      empty_ws2_state = Some (code, res, st') \<and>
    freeaddrinfo res st' = Some st'' \<and> heap st'' = heap empty_ws2_state"
  by (rule freeaddrinfo_getaddrinfo [OF heap_bounded_empty])

lemma filled_addrinfo_simps [simp]:
  "ai_family (filled_addrinfo a p s q c) = AF_INET"
  "ai_addrlen (filled_addrinfo a p s q c) = 16"
  "ai_socktype (filled_addrinfo a p s q c) = s"
  "ai_protocol (filled_addrinfo a p s q c) = q"
  "ai_canonname (filled_addrinfo a p s q c) = c"
  "ai_addr (filled_addrinfo a p s q c) = \<lparr>sin_family = AF_INET, sin_port = p, sin_addr = a\<rparr>"
  by (simp_all add: filled_addrinfo_def zero_addrinfo_def)

lemma variant_entries_no_canon: "e \<in> set (variant_entries a None vs) \<Longrightarrow> ai_canonname e = None"
  by (induction vs) auto

lemma address_entries_no_canon:
  "e \<in> set (address_entries None vs addresses) \<Longrightarrow> ai_canonname e = None"
  by (induction addresses) (auto dest: variant_entries_no_canon)

lemma address_entries_tl_canon:
  assumes "vs \<noteq> []" and "e \<in> set (tl (address_entries c vs addresses))"
  shows "ai_canonname e = None"
proof -
  obtain a addresses' v vs' where *: "addresses = a # addresses'" "vs = v # vs'"
    using assms by (cases addresses; cases vs) auto
  obtain s q p where "v = (s, q, p)" by (cases v)
  with assms(2) * show ?thesis
    by (auto dest: variant_entries_no_canon address_entries_no_canon)
qed

text \<open>The socket types and protocols the caller's hints admit.\<close>

definition hint_admits :: "addrinfo option \<Rightarrow> addrinfo \<Rightarrow> bool" where
  "hint_admits hints e \<longleftrightarrow>
     (case hints of
        None \<Rightarrow> (ai_socktype e, ai_protocol e) \<in> {(SOCK_STREAM, IPPROTO_TCP), (SOCK_DGRAM, IPPROTO_UDP)}
      | Some h \<Rightarrow>
          (ai_socktype h \<noteq> 0 \<longrightarrow> ai_socktype e = ai_socktype h) \<and>
          (ai_protocol h \<noteq> 0 \<longrightarrow> ai_protocol e = ai_protocol h) \<and>
          (ai_socktype h = 0 \<longrightarrow> (ai_socktype e, ai_protocol e) \<in>
             {(SOCK_STREAM, IPPROTO_TCP), (SOCK_DGRAM, IPPROTO_UDP)}))"

lemma select_variants_admits:
  "v \<in> set (select_variants (case hints of Some h \<Rightarrow> ai_socktype h | None \<Rightarrow> 0)
      (case hints of Some h \<Rightarrow> ai_protocol h | None \<Rightarrow> 0)) \<Longrightarrow>
   hint_admits hints (filled_addrinfo a p (fst v) (snd v) c)"
  by (cases hints) (auto simp: select_variants_def hint_admits_def split: if_splits)

text \<open>
  C38: on success every node of the result is an IPv4 node whose socket address repeats its
  family, whose socket type and protocol are ones the hints admit and whose port is the
  service's port for that protocol; a canonical name appears on the first node at most.
\<close>

theorem getaddrinfo_entries:
  assumes "heap_bounded st"
    and "getaddrinfo api node service hints True st = Some (0, res, st')"
  shows "\<exists>as es. ai_chain (heap st') res as es \<and> es \<noteq> [] \<and>
    (\<forall>e \<in> set es. ai_family e = AF_INET \<and> sin_family (ai_addr e) = AF_INET \<and>
       ai_addrlen e = 16 \<and> hint_admits hints e \<and>
       resolve_service api service (ai_protocol e)
         ((case hints of Some h \<Rightarrow> ai_flags h | None \<Rightarrow> 0) AND AI_NUMERICSERV \<noteq> 0)
         = Some (sin_port (ai_addr e))) \<and>
    (\<forall>e \<in> set (tl es). ai_canonname e = None)"
proof -
  have "gai_outcome api node service hints st (0, res, st')"
    using gai_ok_getaddrinfo [OF assms(1), of api node service hints] assms(2)
    by (simp add: gai_ok_def)
  then obtain as addresses canonical ported where
    node: "resolve_node api node (case hints of Some h \<Rightarrow> ai_flags h | None \<Rightarrow> 0)
          = Inr (addresses, canonical)" and
    ports: "resolve_ports api service
          ((case hints of Some h \<Rightarrow> ai_flags h | None \<Rightarrow> 0) AND AI_NUMERICSERV \<noteq> 0)
          (select_variants (case hints of Some h \<Rightarrow> ai_socktype h | None \<Rightarrow> 0)
             (case hints of Some h \<Rightarrow> ai_protocol h | None \<Rightarrow> 0)) = Some ported" and
    b: "built (heap st) (address_entries canonical ported addresses) as
          (res, (if as = [] then None else Some (last as)), st')" and "res \<noteq> None"
    by (auto simp: gai_outcome_def)
  let ?es = "address_entries canonical ported addresses"
  have ne: "?es \<noteq> []" using built_head [OF b] \<open>res \<noteq> None\<close> by simp
  then have "ported \<noteq> []" by (auto simp: address_entries_Nil_iff)
  moreover have "hint_admits hints e \<and> resolve_service api service (ai_protocol e)
         ((case hints of Some h \<Rightarrow> ai_flags h | None \<Rightarrow> 0) AND AI_NUMERICSERV \<noteq> 0)
         = Some (sin_port (ai_addr e))" and "ai_family e = AF_INET \<and> sin_family (ai_addr e) = AF_INET \<and>
       ai_addrlen e = 16" if e: "e \<in> set ?es" for e
  proof -
    from address_entries_set [OF e] obtain a v c' where v: "v \<in> set ported"
      "e = filled_addrinfo a (snd (snd v)) (fst v) (fst (snd v)) c'" by auto
    let ?w = "(fst v, fst (snd v))"
    from resolve_ports_variants [OF ports] v(1)
    have "?w \<in> set (select_variants (case hints of Some h \<Rightarrow> ai_socktype h | None \<Rightarrow> 0)
             (case hints of Some h \<Rightarrow> ai_protocol h | None \<Rightarrow> 0))"
      by (metis (mono_tags, lifting) image_eqI list.set_map)
    from select_variants_admits [OF this] resolve_ports_variants [OF ports] v
    show "hint_admits hints e \<and> resolve_service api service (ai_protocol e)
         ((case hints of Some h \<Rightarrow> ai_flags h | None \<Rightarrow> 0) AND AI_NUMERICSERV \<noteq> 0)
         = Some (sin_port (ai_addr e))" by simp
    from v show "ai_family e = AF_INET \<and> sin_family (ai_addr e) = AF_INET \<and>
       ai_addrlen e = 16" by simp
  qed
  ultimately show ?thesis using b ne address_entries_tl_canon [of ported _ canonical addresses]
    by (intro exI [of _ as] exI [of _ ?es]) (auto simp: built_def)
qed

theorem getaddrinfo_entries_witness:
  "\<exists>st'. getaddrinfo sample_ws2_api None (Some ''80'') None True empty_ws2_state
      = Some (0, Some 0, st') \<and>
    (\<exists>as es. ai_chain (heap st') (Some 0) as es \<and> es \<noteq> [] \<and>
      (\<forall>e \<in> set es. ai_family e = AF_INET \<and> sin_family (ai_addr e) = AF_INET \<and>
         ai_addrlen e = 16 \<and> hint_admits None e \<and>
         resolve_service sample_ws2_api (Some ''80'') (ai_protocol e) False
           = Some (sin_port (ai_addr e))) \<and>
      (\<forall>e \<in> set (tl es). ai_canonname e = None))"
proof -
  have "\<exists>st'. getaddrinfo sample_ws2_api None (Some ''80'') None True empty_ws2_state
      = Some (0, Some 0, st')"
    by (simp add: getaddrinfo_def select_variants_def resolve_service_def parse_decimal_port_def
        ascii_simps resolve_node_def gai_collect_def append_result_def sample_ws2_api_def
        empty_ws2_state_def set_ai_next_def Let_def filled_addrinfo_def)
  then obtain st' where
    call: "getaddrinfo sample_ws2_api None (Some ''80'') None True empty_ws2_state
      = Some (0, Some 0, st')" by blast
  from getaddrinfo_entries [OF heap_bounded_empty call] call show ?thesis by auto
qed

text \<open>
  \<open>inet_ntop\<close> writes the dotted quad exactly when the family is IPv4, both pointers are
  given and the buffer holds the text with its NUL; 16 bytes always do. Otherwise it writes
  nothing and reports the family (\<open>WSAEAFNOSUPPORT\<close>) or the argument (\<open>WSAEFAULT\<close>).
\<close>

theorem inet_ntop_spec:
  "fst (inet_ntop api family address buffer_given buffer_bytes st) =
     (case address of
        None \<Rightarrow> None
      | Some (b0, b1, b2, b3) \<Rightarrow>
          if family = AF_INET \<and> buffer_given \<and>
             length (render_ipv4 [b0, b1, b2, b3]) < unat buffer_bytes
          then Some (render_ipv4 [b0, b1, b2, b3]) else None) \<and>
   win_last (snd (inet_ntop api family address buffer_given buffer_bytes st)) =
     of_int (if family \<noteq> AF_INET then WSAEAFNOSUPPORT
             else if fst (inet_ntop api family address buffer_given buffer_bytes st) = None
             then WSAEFAULT else 0) \<and>
   length (render_ipv4 [c0, c1, c2, c3]) < 16"
  using render_ipv4_length [of c0 c1 c2 c3]
  by (cases address) (auto simp: inet_ntop_def Let_def split: prod.splits)

end
