(* ===== verification/Winsock_Load.thy ===== *)
theory Winsock_Load
  imports Winsock_Resolver
begin

text \<open>
  Loading the Winsock bridge (\<open>compat/w2k_s232.c\<close>): \<open>DllMain\<close>, which opens the system's
  \<open>ws2_32.dll\<close> by its full path and looks up every function it hands on, and the forwarding stubs,
  modelled as the few machine instructions they consist of. A handle and the address of a function
  are numbers with 0 for NULL.
\<close>

section \<open>What is looked up\<close>

definition W2K_FORWARD_LIST :: "string list" where
  "W2K_FORWARD_LIST =
     [''WSACloseEvent'', ''WSACreateEvent'', ''WSADuplicateSocketW'', ''WSAEnumNameSpaceProvidersW'',
      ''WSAEnumNetworkEvents'', ''WSAEnumProtocolsW'', ''WSAEventSelect'', ''WSAGetLastError'',
      ''WSAGetOverlappedResult'', ''WSAIoctl'', ''WSALookupServiceBeginW'', ''WSALookupServiceEnd'',
      ''WSALookupServiceNextW'', ''WSARecv'', ''WSARecvFrom'', ''WSAResetEvent'', ''WSASend'',
      ''WSASendTo'', ''WSASetEvent'', ''WSASetServiceW'', ''WSASocketW'', ''WSAStartup'',
      ''WSACleanup'', ''WSAWaitForMultipleEvents'', ''WSCEnumProtocols'', ''WSCGetProviderPath'',
      ''accept'', ''bind'', ''closesocket'', ''connect'', ''gethostname'', ''getpeername'',
      ''getsockname'', ''getsockopt'', ''htonl'', ''htons'', ''ioctlsocket'', ''listen'', ''ntohl'',
      ''ntohs'', ''recv'', ''recvfrom'', ''send'', ''sendto'', ''setsockopt'', ''shutdown'', ''socket'']"

text \<open>The pointers of the library; \<open>g_forward\<close> holds one cell for each forwarded name.\<close>

record bridge_globals =
  g_system_ws2 :: u32
  p_gethostbyname :: u32
  p_getservbyname :: u32
  p_htons :: u32
  p_wsa_set_last_error :: u32
  p_wsa_get_last_error :: u32
  g_forward :: "string \<Rightarrow> u32"

definition unloaded_bridge :: bridge_globals where
  "unloaded_bridge = \<lparr>g_system_ws2 = 0, p_gethostbyname = 0, p_getservbyname = 0, p_htons = 0,
     p_wsa_set_last_error = 0, p_wsa_get_last_error = 0, g_forward = (\<lambda>_. 0)\<rparr>"

text \<open>
  The system: its directory, if it can tell, the modules it loads and what they export.
  \<open>GetSystemDirectoryA\<close> gives the length and the text, or the size it would need and no text.
\<close>

record loader =
  system_directory :: "string option"
  load_library :: "string \<Rightarrow> u32"
  get_proc :: "u32 \<Rightarrow> string \<Rightarrow> u32"

definition get_system_directory :: "loader \<Rightarrow> nat \<Rightarrow> nat \<times> string" where
  "get_system_directory sys capacity =
     (case system_directory sys of
        None \<Rightarrow> (0, [])
      | Some dir \<Rightarrow> if length dir < capacity then (length dir, dir) else (length dir + 1, []))"

text \<open>\<open>lstrcatA\<close> into a buffer of so many bytes; \<open>None\<close> is a write behind its end.\<close>

definition lstrcat :: "nat \<Rightarrow> string \<Rightarrow> string \<Rightarrow> string option" where
  "lstrcat capacity dst src = (if length dst + length src < capacity then Some (dst @ src) else None)"

definition WS2_SUFFIX :: string where
  "WS2_SUFFIX = CHR 0x5C # ''ws2_32.dll''"

definition resolve_forwards :: "loader \<Rightarrow> u32 \<Rightarrow> string list \<Rightarrow> bridge_globals \<Rightarrow> bridge_globals" where
  "resolve_forwards sys dll names g =
     fold (\<lambda>name g. g\<lparr>g_forward := (g_forward g)(name := get_proc sys dll name)\<rparr>) names g"

definition resolve_own :: "loader \<Rightarrow> u32 \<Rightarrow> bridge_globals \<Rightarrow> bridge_globals" where
  "resolve_own sys dll g =
     g\<lparr>p_gethostbyname := get_proc sys dll ''gethostbyname'',
       p_getservbyname := get_proc sys dll ''getservbyname'',
       p_htons := get_proc sys dll ''htons'',
       p_wsa_set_last_error := get_proc sys dll ''WSASetLastError'',
       p_wsa_get_last_error := get_proc sys dll ''WSAGetLastError''\<rparr>"

abbreviation "DLL_PROCESS_DETACH \<equiv> (0 :: u32)"
abbreviation "DLL_PROCESS_ATTACH \<equiv> (1 :: u32)"

definition s232_DllMain :: "loader \<Rightarrow> u32 \<Rightarrow> bridge_globals \<Rightarrow> (bool \<times> bridge_globals) option" where
  "s232_DllMain sys reason g =
     (if reason \<noteq> DLL_PROCESS_ATTACH then Some (True, g)
      else
        let (len, system_path) = get_system_directory sys MAX_PATH in
          if len = 0 \<or> len + (length WS2_SUFFIX + 1) > MAX_PATH then Some (False, g)
          else case lstrcat MAX_PATH system_path WS2_SUFFIX of
            None \<Rightarrow> None
          | Some path \<Rightarrow>
              (let dll = load_library sys path; g = g\<lparr>g_system_ws2 := dll\<rparr> in
                 if dll = 0 then Some (False, g)
                 else
                   let g = resolve_own sys dll (resolve_forwards sys dll W2K_FORWARD_LIST g) in
                     Some (p_gethostbyname g \<noteq> 0 \<and> p_htons g \<noteq> 0 \<and> p_wsa_set_last_error g \<noteq> 0 \<and>
                       p_wsa_get_last_error g \<noteq> 0, g)))"

text \<open>
  The functions the resolver sees: what the addresses of the loaded library do is given by the
  functions of \<open>system\<close>, each absent when the bridge holds no address for it.
\<close>

definition resolver_api :: "ws2_api \<Rightarrow> bridge_globals \<Rightarrow> ws2_api" where
  "resolver_api system g =
     system\<lparr>g_gethostbyname := (if p_gethostbyname g = 0 then None else g_gethostbyname system),
       g_getservbyname := (if p_getservbyname g = 0 then None else g_getservbyname system),
       g_htons := (if p_htons g = 0 then None else g_htons system),
       g_wsa_set_last_error := (p_wsa_set_last_error g \<noteq> 0 \<and> g_wsa_set_last_error system),
       g_wsa_get_last_error := (if p_wsa_get_last_error g = 0 then None else g_wsa_get_last_error system)\<rparr>"

section \<open>Loading\<close>

lemma resolve_forwards_cells:
  "g_forward (resolve_forwards sys dll names g) =
     (\<lambda>n. if n \<in> set names then get_proc sys dll n else g_forward g n)"
  unfolding resolve_forwards_def
  by (induction names arbitrary: g) (auto simp: fun_eq_iff)

lemma resolve_forwards_keeps [simp]: "g_system_ws2 (resolve_forwards sys dll names g) = g_system_ws2 g"
  unfolding resolve_forwards_def by (induction names arbitrary: g) auto

lemma resolve_own_cells [simp]: "g_forward (resolve_own sys dll g) = g_forward g"
  by (simp add: resolve_own_def)

lemma system_directory_fits:
  "get_system_directory sys MAX_PATH = (len, path) \<Longrightarrow> len + (length WS2_SUFFIX + 1) \<le> MAX_PATH \<Longrightarrow>
   len \<noteq> 0 \<Longrightarrow> system_directory sys = Some path \<and> length path = len"
  by (auto simp: get_system_directory_def split: option.splits if_splits)

text \<open>One attach: refused before anything is loaded, the library missing, or everything looked up.\<close>

lemma attach_cases:
  obtains (refused) "s232_DllMain sys DLL_PROCESS_ATTACH g = Some (False, g)"
  | (missing) path where "system_directory sys = Some path" "load_library sys (path @ WS2_SUFFIX) = 0"
      "s232_DllMain sys DLL_PROCESS_ATTACH g = Some (False, g\<lparr>g_system_ws2 := 0\<rparr>)"
  | (loaded) path dll where "system_directory sys = Some path" "length (path @ WS2_SUFFIX) < MAX_PATH"
      "dll = load_library sys (path @ WS2_SUFFIX)" "dll \<noteq> 0"
      "s232_DllMain sys DLL_PROCESS_ATTACH g =
         (let g' = resolve_own sys dll (resolve_forwards sys dll W2K_FORWARD_LIST (g\<lparr>g_system_ws2 := dll\<rparr>))
          in Some (p_gethostbyname g' \<noteq> 0 \<and> p_htons g' \<noteq> 0 \<and> p_wsa_set_last_error g' \<noteq> 0 \<and>
            p_wsa_get_last_error g' \<noteq> 0, g'))"
proof -
  obtain len path where p: "get_system_directory sys MAX_PATH = (len, path)" by force
  show ?thesis
  proof (cases "len = 0 \<or> len + (length WS2_SUFFIX + 1) > MAX_PATH")
    case True
    then show ?thesis using refused p by (simp add: s232_DllMain_def)
  next
    case False
    with p have d: "system_directory sys = Some path" "length path = len"
      using system_directory_fits by auto
    with False have l: "lstrcat MAX_PATH path WS2_SUFFIX = Some (path @ WS2_SUFFIX)"
      by (simp add: lstrcat_def)
    show ?thesis
      using missing [OF d(1)] loaded [OF d(1) _ refl] p l d False
      by (cases "load_library sys (path @ WS2_SUFFIX) = 0") (simp_all add: s232_DllMain_def Let_def)
  qed
qed

section \<open>The forwarding stubs\<close>

text \<open>
  The part of the processor a stub uses: the stack and frame pointers, the next instruction and
  the stack as a memory of 32-bit cells, named by their addresses. The compiler puts a frame
  prologue with a frame of any size before the three instructions of the source.
\<close>

record cpu =
  esp :: u32
  ebp :: u32
  eip :: u32
  stack :: "u32 \<Rightarrow> u32"

datatype instruction =
    Push_ebp | Mov_ebp_esp | Sub_esp u32 | Mov_esp_ebp | Pop_ebp | Jmp_forward string

fun exec1 :: "bridge_globals \<Rightarrow> instruction \<Rightarrow> cpu \<Rightarrow> cpu" where
  "exec1 g Push_ebp c = c\<lparr>esp := esp c - 4, stack := (stack c)(esp c - 4 := ebp c)\<rparr>"
| "exec1 g Mov_ebp_esp c = c\<lparr>ebp := esp c\<rparr>"
| "exec1 g (Sub_esp n) c = c\<lparr>esp := esp c - n\<rparr>"
| "exec1 g Mov_esp_ebp c = c\<lparr>esp := ebp c\<rparr>"
| "exec1 g Pop_ebp c = c\<lparr>esp := esp c + 4, ebp := stack c (esp c)\<rparr>"
| "exec1 g (Jmp_forward name) c = c\<lparr>eip := g_forward g name\<rparr>"

definition exec :: "bridge_globals \<Rightarrow> instruction list \<Rightarrow> cpu \<Rightarrow> cpu" where
  "exec g instrs c = fold (exec1 g) instrs c"

definition compiler_prologue :: "u32 \<Rightarrow> instruction list" where
  "compiler_prologue frame = [Push_ebp, Mov_ebp_esp, Sub_esp frame]"

definition forward_stub :: "string \<Rightarrow> instruction list" where
  "forward_stub name = [Mov_esp_ebp, Pop_ebp, Jmp_forward name]"

text \<open>Calling the export \<open>name\<close> of the bridge.\<close>

definition call_forward :: "bridge_globals \<Rightarrow> u32 \<Rightarrow> string \<Rightarrow> cpu \<Rightarrow> cpu" where
  "call_forward g frame name c = exec g (compiler_prologue frame @ forward_stub name) c"

lemma call_forward_eq:
  "call_forward g frame name c =
     c\<lparr>eip := g_forward g name, stack := (stack c)(esp c - 4 := ebp c)\<rparr>"
  by (simp add: call_forward_def exec_def compiler_prologue_def forward_stub_def)

text \<open>A system with the library at address 7, where the export of length n lies at 4096 + n.\<close>

definition sample_loader :: loader where
  "sample_loader = \<lparr>system_directory = Some ''C:'',
     load_library = (\<lambda>path. if path = ''C:'' @ WS2_SUFFIX then 7 else 0),
     get_proc = (\<lambda>dll name. if dll = 7 then 0x1000 + of_nat (length name) else 0)\<rparr>"

lemma attach_forwards:
  assumes "s232_DllMain sys DLL_PROCESS_ATTACH g = Some (True, g')" and "name \<in> set W2K_FORWARD_LIST"
  shows "g_forward g' name = get_proc sys (g_system_ws2 g') name"
  using assms by (cases rule: attach_cases [of sys g])
    (auto simp: Let_def resolve_forwards_cells resolve_own_def resolve_forwards_keeps)

lemma attach_required:
  assumes "s232_DllMain sys DLL_PROCESS_ATTACH g = Some (True, g')"
  shows "p_gethostbyname g' \<noteq> 0 \<and> p_htons g' \<noteq> 0 \<and> p_wsa_set_last_error g' \<noteq> 0 \<and>
    p_wsa_get_last_error g' \<noteq> 0"
  using assms by (cases rule: attach_cases [of sys g]) (auto simp: Let_def)

lemma sample_attach:
  "s232_DllMain sample_loader DLL_PROCESS_ATTACH unloaded_bridge =
     Some (True, snd (the (s232_DllMain sample_loader DLL_PROCESS_ATTACH unloaded_bridge)))"
  "g_system_ws2 (snd (the (s232_DllMain sample_loader DLL_PROCESS_ATTACH unloaded_bridge))) = 7"
  by (simp_all add: s232_DllMain_def sample_loader_def get_system_directory_def lstrcat_def WS2_SUFFIX_def
      Let_def resolve_own_def)

text \<open>
  C29: A program that calls a forwarded Winsock function through the bridge, once the bridge is loaded,
  runs the function of the system's library that has this name, with the stack pointer, the frame
  pointer and the stack from the stack pointer upwards as the caller left them, whatever frame the
  compiler's prologue set up: only the cell below the stack pointer differs.
\<close>

theorem forward_reaches_system:
  assumes "s232_DllMain sys DLL_PROCESS_ATTACH unloaded_bridge = Some (True, g)"
    and "name \<in> set W2K_FORWARD_LIST"
  shows "let c' = call_forward g frame name c in
      eip c' = get_proc sys (g_system_ws2 g) name \<and> esp c' = esp c \<and> ebp c' = ebp c \<and>
      {a. stack c' a \<noteq> stack c a} \<subseteq> {esp c - 4}"
  using attach_forwards [OF assms] by (auto simp: call_forward_eq Let_def)

theorem forward_reaches_system_witness:
  "let g = snd (the (s232_DllMain sample_loader DLL_PROCESS_ATTACH unloaded_bridge));
       c = \<lparr>esp = 0x8000, ebp = 0x9000, eip = 0x10, stack = (\<lambda>_. 0)\<rparr>;
       c' = call_forward g 64 ''send'' c in
     eip c' = 0x1004 \<and> esp c' = 0x8000 \<and> ebp c' = 0x9000 \<and> {a. stack c' a \<noteq> stack c a} \<subseteq> {0x7FFC}"
  using forward_reaches_system [OF sample_attach(1), of "''send''" 64
      "\<lparr>esp = 0x8000, ebp = 0x9000, eip = 0x10, stack = (\<lambda>_. 0)\<rparr>"] sample_attach(2)
  by (simp add: Let_def sample_loader_def W2K_FORWARD_LIST_def)

text \<open>
  The bridge loads the library of the system directory by its full path, and its path buffer is
  never overrun: every attach comes back, and when it says that it succeeded, no call of the resolver
  meets a missing function for looking up a host, for ordering bytes or for reporting errors.
\<close>

theorem attach_is_safe:
  "\<exists>ok g'. s232_DllMain sys reason g = Some (ok, g') \<and>
     (ok \<and> reason = DLL_PROCESS_ATTACH \<longrightarrow>
        g_system_ws2 g' = load_library sys (the (system_directory sys) @ WS2_SUFFIX) \<and> g_system_ws2 g' \<noteq> 0 \<and>
        g_gethostbyname (resolver_api system g') = g_gethostbyname system \<and>
        g_htons (resolver_api system g') = g_htons system \<and>
        g_wsa_set_last_error (resolver_api system g') = g_wsa_set_last_error system \<and>
        g_wsa_get_last_error (resolver_api system g') = g_wsa_get_last_error system)"
proof (cases "reason = DLL_PROCESS_ATTACH")
  case False
  then have "s232_DllMain sys reason g = Some (True, g)" by (simp add: s232_DllMain_def)
  with False show ?thesis by blast
next
  case True
  show ?thesis unfolding True
    by (cases rule: attach_cases [of sys g])
      (auto simp: Let_def resolver_api_def resolve_own_def resolve_forwards_keeps)
qed

theorem attach_is_safe_witness:
  "\<exists>ok g'. s232_DllMain sample_loader DLL_PROCESS_ATTACH unloaded_bridge = Some (ok, g') \<and> ok \<and>
     g_system_ws2 g' = 7 \<and> g_htons (resolver_api sample_ws2_api g') = g_htons sample_ws2_api"
  using attach_is_safe [of sample_loader DLL_PROCESS_ATTACH unloaded_bridge sample_ws2_api] sample_attach
  by auto

end
