(* ===== verification/Srw_Lock.thy ===== *)
theory Srw_Lock
  imports W2K_Prelude
begin

text \<open>
  The slim reader/writer lock of \<open>compat/w2k_sync.c\<close>. \<open>srw_state\<close> is
  \<open>W2K_SRW_STATE\<close>: its critical section (\<open>gate\<close>, the owner if any), its two
  manual-reset events and its three counters. The code between \<open>EnterCriticalSection\<close> and
  \<open>LeaveCriticalSection\<close> is a function on that state; \<open>srw_step\<close> interleaves any number
  of threads that run the acquire, try-acquire and release routines, where taking the gate,
  each body, leaving the gate and passing \<open>WaitForSingleObject\<close> are steps of their own.
  The counters are integers: \<open>srw_counters_bounded\<close> shows that they never exceed the number
  of threads inside the lock's routines, which a 32-bit process keeps far below the range of
  \<open>LONG\<close>.
\<close>

section \<open>The state and the bodies of the critical sections\<close>

record srw_state =
  gate :: "nat option"
  can_read :: bool
  can_write :: bool
  readers :: int
  writer_active :: int
  writers_waiting :: int

definition new_srw_state :: srw_state where
  "new_srw_state = \<lparr>gate = None, can_read = True, can_write = True,
     readers = 0, writer_active = 0, writers_waiting = 0\<rparr>"

text \<open>\<open>acquire_exclusive_state\<close>: the announcement, then one round of the loop.\<close>

definition announce_writer :: "srw_state \<Rightarrow> srw_state" where
  "announce_writer s = s\<lparr>writers_waiting := writers_waiting s + 1, can_read := False\<rparr>"

definition exclusive_round :: "srw_state \<Rightarrow> bool \<times> srw_state" where
  "exclusive_round s =
     (if writer_active s \<noteq> 0 \<or> readers s \<noteq> 0 then (False, s\<lparr>can_write := False\<rparr>)
      else (True, s\<lparr>writers_waiting := writers_waiting s - 1, writer_active := 1,
                     can_write := False\<rparr>))"

definition try_acquire_exclusive_state :: "srw_state \<Rightarrow> bool \<times> srw_state" where
  "try_acquire_exclusive_state s =
     (if writer_active s = 0 \<and> readers s = 0
      then (True, s\<lparr>writer_active := 1, can_write := False, can_read := False\<rparr>)
      else (False, s))"

definition release_exclusive_state :: "srw_state \<Rightarrow> srw_state" where
  "release_exclusive_state s =
     (let s = s\<lparr>writer_active := 0, can_write := True\<rparr> in
        if writers_waiting s = 0 then s\<lparr>can_read := True\<rparr> else s)"

definition take_reader :: "srw_state \<Rightarrow> srw_state" where
  "take_reader s =
     (let s = s\<lparr>readers := readers s + 1\<rparr> in
        if readers s = 1 then s\<lparr>can_write := False\<rparr> else s)"

text \<open>\<open>acquire_shared_state\<close>: one round of its loop.\<close>

definition shared_round :: "srw_state \<Rightarrow> bool \<times> srw_state" where
  "shared_round s =
     (if writer_active s \<noteq> 0 \<or> writers_waiting s \<noteq> 0 then (False, s\<lparr>can_read := False\<rparr>)
      else (True, take_reader s))"

definition try_acquire_shared_state :: "srw_state \<Rightarrow> bool \<times> srw_state" where
  "try_acquire_shared_state s =
     (if writer_active s = 0 \<and> writers_waiting s = 0 then (True, take_reader s) else (False, s))"

definition release_shared_state :: "srw_state \<Rightarrow> srw_state" where
  "release_shared_state s =
     (let s = (if 0 < readers s then s\<lparr>readers := readers s - 1\<rparr> else s) in
        if readers s = 0
        then let s = s\<lparr>can_write := True\<rparr> in
          if writers_waiting s = 0 then s\<lparr>can_read := True\<rparr> else s
        else s)"

section \<open>Threads\<close>

text \<open>
  The program counters. \<open>X\<close>, \<open>S\<close>: \<open>acquire_exclusive_state\<close> and
  \<open>acquire_shared_state\<close>; \<open>TX\<close>, \<open>TS\<close>: the try variants; \<open>RX\<close>, \<open>RS\<close>: the
  releases; \<open>HoldX\<close>, \<open>HoldS\<close>: the caller holds the lock and is outside the routines.
\<close>

datatype srw_pc =
    Idle | HoldX | HoldS
  | XEnter | XAnnounce | XTest | XUnlock | XWait | XReenter | XLeave
  | SEnter | STest | SUnlock | SWait | SReenter | SLeave
  | TXEnter | TXBody | TXLeave bool
  | TSEnter | TSBody | TSLeave bool
  | RXEnter | RXBody | RXLeave
  | RSEnter | RSBody | RSLeave

text \<open>The calls a thread may make: it acquires when idle and releases what it holds.\<close>

fun srw_calls :: "srw_pc \<Rightarrow> srw_pc list" where
  "srw_calls Idle = [XEnter, SEnter, TXEnter, TSEnter]"
| "srw_calls HoldX = [RXEnter]"
| "srw_calls HoldS = [RSEnter]"
| "srw_calls _ = []"

text \<open>\<open>EnterCriticalSection\<close>: where the thread goes once it has the gate.\<close>

fun srw_enter :: "srw_pc \<Rightarrow> srw_pc option" where
  "srw_enter XEnter = Some XAnnounce"
| "srw_enter XReenter = Some XTest"
| "srw_enter SEnter = Some STest"
| "srw_enter SReenter = Some STest"
| "srw_enter TXEnter = Some TXBody"
| "srw_enter TSEnter = Some TSBody"
| "srw_enter RXEnter = Some RXBody"
| "srw_enter RSEnter = Some RSBody"
| "srw_enter _ = None"

text \<open>The code under the gate.\<close>

fun srw_body :: "srw_pc \<Rightarrow> srw_state \<Rightarrow> (srw_pc \<times> srw_state) option" where
  "srw_body XAnnounce s = Some (XTest, announce_writer s)"
| "srw_body XTest s =
     (case exclusive_round s of (got, s') \<Rightarrow> Some (if got then XLeave else XUnlock, s'))"
| "srw_body STest s =
     (case shared_round s of (got, s') \<Rightarrow> Some (if got then SLeave else SUnlock, s'))"
| "srw_body TXBody s = (case try_acquire_exclusive_state s of (got, s') \<Rightarrow> Some (TXLeave got, s'))"
| "srw_body TSBody s = (case try_acquire_shared_state s of (got, s') \<Rightarrow> Some (TSLeave got, s'))"
| "srw_body RXBody s = Some (RXLeave, release_exclusive_state s)"
| "srw_body RSBody s = Some (RSLeave, release_shared_state s)"
| "srw_body _ s = None"

text \<open>\<open>LeaveCriticalSection\<close>.\<close>

fun srw_leave :: "srw_pc \<Rightarrow> srw_pc option" where
  "srw_leave XUnlock = Some XWait"
| "srw_leave XLeave = Some HoldX"
| "srw_leave SUnlock = Some SWait"
| "srw_leave SLeave = Some HoldS"
| "srw_leave (TXLeave got) = Some (if got then HoldX else Idle)"
| "srw_leave (TSLeave got) = Some (if got then HoldS else Idle)"
| "srw_leave RXLeave = Some Idle"
| "srw_leave RSLeave = Some Idle"
| "srw_leave _ = None"

record srw_sys =
  srw :: srw_state
  pcs :: "nat \<Rightarrow> srw_pc"

definition srw_init :: "srw_sys \<Rightarrow> bool" where
  "srw_init s \<longleftrightarrow> srw s = new_srw_state \<and> (\<forall>t. pcs s t = Idle)"

inductive srw_step :: "nat \<Rightarrow> srw_sys \<Rightarrow> srw_sys \<Rightarrow> bool" for t :: nat and s :: srw_sys where
  call: "p \<in> set (srw_calls (pcs s t)) \<Longrightarrow> srw_step t s (s\<lparr>pcs := (pcs s)(t := p)\<rparr>)"
| enter: "srw_enter (pcs s t) = Some p \<Longrightarrow> gate (srw s) = None \<Longrightarrow>
    srw_step t s (s\<lparr>pcs := (pcs s)(t := p), srw := (srw s)\<lparr>gate := Some t\<rparr>\<rparr>)"
| body: "gate (srw s) = Some t \<Longrightarrow> srw_body (pcs s t) (srw s) = Some (p, l) \<Longrightarrow>
    srw_step t s (s\<lparr>pcs := (pcs s)(t := p), srw := l\<rparr>)"
| leave: "gate (srw s) = Some t \<Longrightarrow> srw_leave (pcs s t) = Some p \<Longrightarrow>
    srw_step t s (s\<lparr>pcs := (pcs s)(t := p), srw := (srw s)\<lparr>gate := None\<rparr>\<rparr>)"
| wait_write: "pcs s t = XWait \<Longrightarrow> can_write (srw s) \<Longrightarrow>
    srw_step t s (s\<lparr>pcs := (pcs s)(t := XReenter)\<rparr>)"
| wait_read: "pcs s t = SWait \<Longrightarrow> can_read (srw s) \<Longrightarrow>
    srw_step t s (s\<lparr>pcs := (pcs s)(t := SReenter)\<rparr>)"

definition srw_any_step :: "srw_sys \<Rightarrow> srw_sys \<Rightarrow> bool" where
  "srw_any_step s s' \<longleftrightarrow> (\<exists>t. srw_step t s s')"

abbreviation srw_reachable :: "srw_sys \<Rightarrow> bool" where
  "srw_reachable \<equiv> reach srw_init srw_any_step"

section \<open>The invariant\<close>

text \<open>Where a thread owns the gate, the lock, or is counted in \<open>writers_waiting\<close>.\<close>

fun in_gate :: "srw_pc \<Rightarrow> bool" where
  "in_gate XAnnounce = True" | "in_gate XTest = True" | "in_gate XUnlock = True"
| "in_gate XLeave = True" | "in_gate STest = True" | "in_gate SUnlock = True"
| "in_gate SLeave = True" | "in_gate TXBody = True" | "in_gate (TXLeave _) = True"
| "in_gate TSBody = True" | "in_gate (TSLeave _) = True" | "in_gate RXBody = True"
| "in_gate RXLeave = True" | "in_gate RSBody = True" | "in_gate RSLeave = True"
| "in_gate _ = False"

fun owns_x :: "srw_pc \<Rightarrow> bool" where
  "owns_x XLeave = True" | "owns_x (TXLeave got) = got" | "owns_x HoldX = True"
| "owns_x RXEnter = True" | "owns_x RXBody = True" | "owns_x _ = False"

fun owns_s :: "srw_pc \<Rightarrow> bool" where
  "owns_s SLeave = True" | "owns_s (TSLeave got) = got" | "owns_s HoldS = True"
| "owns_s RSEnter = True" | "owns_s RSBody = True" | "owns_s _ = False"

fun waits_x :: "srw_pc \<Rightarrow> bool" where
  "waits_x XTest = True" | "waits_x XUnlock = True" | "waits_x XWait = True"
| "waits_x XReenter = True" | "waits_x _ = False"

definition srw_inv :: "srw_sys \<Rightarrow> bool" where
  "srw_inv s \<longleftrightarrow>
     finite {t. pcs s t \<noteq> Idle} \<and>
     (\<forall>t. gate (srw s) = Some t \<longleftrightarrow> in_gate (pcs s t)) \<and>
     writer_active (srw s) = cnt owns_x (pcs s) \<and>
     readers (srw s) = cnt owns_s (pcs s) \<and>
     writers_waiting (srw s) = cnt waits_x (pcs s) \<and>
     cnt owns_x (pcs s) \<le> 1 \<and>
     (cnt owns_x (pcs s) = 1 \<longrightarrow> cnt owns_s (pcs s) = 0) \<and>
     (writer_active (srw s) = 0 \<and> writers_waiting (srw s) = 0 \<longrightarrow> can_read (srw s)) \<and>
     (writer_active (srw s) = 0 \<and> readers (srw s) = 0 \<longrightarrow> can_write (srw s))"

lemma srw_inv_init: "srw_init s \<Longrightarrow> srw_inv s"
  by (auto simp: srw_init_def srw_inv_def new_srw_state_def cnt_def)

lemma srw_cnt_upd:
  assumes "finite {t. pcs s t \<noteq> Idle}"
  shows "cnt owns_x ((pcs s)(t := p)) =
      cnt owns_x (pcs s) - (if owns_x (pcs s t) then 1 else 0) + (if owns_x p then 1 else 0)"
    and "cnt owns_s ((pcs s)(t := p)) =
      cnt owns_s (pcs s) - (if owns_s (pcs s t) then 1 else 0) + (if owns_s p then 1 else 0)"
    and "cnt waits_x ((pcs s)(t := p)) =
      cnt waits_x (pcs s) - (if waits_x (pcs s t) then 1 else 0) + (if waits_x p then 1 else 0)"
  by (rule cnt_upd, rule finite_pcs_sub [OF assms], simp)+

lemma srw_cnt_pos:
  assumes "finite {t. pcs s t \<noteq> Idle}"
  shows "owns_x (pcs s t) \<Longrightarrow> 0 < cnt owns_x (pcs s)"
    and "owns_s (pcs s t) \<Longrightarrow> 0 < cnt owns_s (pcs s)"
    and "waits_x (pcs s t) \<Longrightarrow> 0 < cnt waits_x (pcs s)"
  by (blast intro: cnt_pos finite_pcs_sub [OF assms, of owns_x, simplified]
      finite_pcs_sub [OF assms, of owns_s, simplified]
      finite_pcs_sub [OF assms, of waits_x, simplified])+

text \<open>Steps that leave the counters alone keep the flags of the thread.\<close>

definition same_flags :: "srw_pc \<Rightarrow> srw_pc \<Rightarrow> bool" where
  "same_flags p q \<longleftrightarrow> owns_x q = owns_x p \<and> owns_s q = owns_s p \<and> waits_x q = waits_x p"

lemma srw_calls_flags:
  "q \<in> set (srw_calls p) \<Longrightarrow> same_flags p q \<and> \<not> in_gate p \<and> \<not> in_gate q"
  by (cases p) (auto simp: same_flags_def)

lemma srw_enter_flags:
  "srw_enter p = Some q \<Longrightarrow> same_flags p q \<and> \<not> in_gate p \<and> in_gate q"
  by (cases p) (auto simp: same_flags_def)

lemma srw_leave_flags:
  "srw_leave p = Some q \<Longrightarrow> same_flags p q \<and> in_gate p \<and> \<not> in_gate q"
  by (cases p) (auto simp: same_flags_def split: if_splits)

lemma srw_wait_flags:
  "same_flags XWait XReenter" "same_flags SWait SReenter"
  by (simp_all add: same_flags_def)

lemma srw_body_gate:
  "srw_body p l = Some (q, l') \<Longrightarrow> in_gate p \<and> in_gate q \<and> gate l' = gate l"
  by (cases p) (auto simp: announce_writer_def exclusive_round_def shared_round_def take_reader_def
      try_acquire_exclusive_state_def try_acquire_shared_state_def release_exclusive_state_def
      release_shared_state_def Let_def split: if_splits)

lemma same_flags_cnt:
  assumes "finite {t. pcs s t \<noteq> Idle}" and "same_flags (pcs s t) p"
  shows "cnt owns_x ((pcs s)(t := p)) = cnt owns_x (pcs s)"
    and "cnt owns_s ((pcs s)(t := p)) = cnt owns_s (pcs s)"
    and "cnt waits_x ((pcs s)(t := p)) = cnt waits_x (pcs s)"
  using assms(2) by (simp_all add: srw_cnt_upd [OF assms(1)] same_flags_def)

text \<open>The part of the invariant that does not mention the gate.\<close>

definition counted :: "srw_state \<Rightarrow> (nat \<Rightarrow> srw_pc) \<Rightarrow> bool" where
  "counted l f \<longleftrightarrow>
     writer_active l = cnt owns_x f \<and> readers l = cnt owns_s f \<and>
     writers_waiting l = cnt waits_x f \<and> cnt owns_x f \<le> 1 \<and>
     (cnt owns_x f = 1 \<longrightarrow> cnt owns_s f = 0) \<and>
     (writer_active l = 0 \<and> writers_waiting l = 0 \<longrightarrow> can_read l) \<and>
     (writer_active l = 0 \<and> readers l = 0 \<longrightarrow> can_write l)"

lemma srw_inv_counted:
  "srw_inv s \<longleftrightarrow> finite {t. pcs s t \<noteq> Idle} \<and>
     (\<forall>t. gate (srw s) = Some t \<longleftrightarrow> in_gate (pcs s t)) \<and> counted (srw s) (pcs s)"
  by (auto simp: srw_inv_def counted_def)

lemma counted_same_flags:
  assumes "finite {t. pcs s t \<noteq> Idle}" and "same_flags (pcs s t) p" and "counted (srw s) (pcs s)"
  shows "counted ((srw s)\<lparr>gate := g\<rparr>) ((pcs s)(t := p))" and "counted (srw s) ((pcs s)(t := p))"
  using assms(3) by (simp_all add: counted_def same_flags_cnt [OF assms(1,2)])

lemma counted_body:
  assumes fin: "finite {t. pcs s t \<noteq> Idle}" and "counted (srw s) (pcs s)"
    and body: "srw_body (pcs s t) (srw s) = Some (p, l)"
  shows "counted l ((pcs s)(t := p))"
proof -
  note pos = srw_cnt_pos [OF fin, of t] and upd = srw_cnt_upd [OF fin, of t]
  have nn: "0 \<le> cnt owns_x (pcs s)" "0 \<le> cnt owns_s (pcs s)" "0 \<le> cnt waits_x (pcs s)"
    by simp_all
  show ?thesis
  proof (cases "pcs s t")
    case XAnnounce
    with assms(2) body pos nn show ?thesis
      by (auto simp: counted_def upd announce_writer_def split: if_splits)
  next
    case XTest
    with assms(2) body pos nn show ?thesis
      by (auto simp: counted_def upd exclusive_round_def split: if_splits)
  next
    case STest
    with assms(2) body pos nn show ?thesis
      by (auto simp: counted_def upd shared_round_def take_reader_def Let_def split: if_splits)
  next
    case TXBody
    with assms(2) body pos nn show ?thesis
      by (auto simp: counted_def upd try_acquire_exclusive_state_def split: if_splits)
  next
    case TSBody
    with assms(2) body pos nn show ?thesis
      by (auto simp: counted_def upd try_acquire_shared_state_def take_reader_def Let_def split: if_splits)
  next
    case RXBody
    with assms(2) body pos nn show ?thesis
      by (auto simp: counted_def upd release_exclusive_state_def Let_def split: if_splits)
  next
    case RSBody
    with assms(2) body pos nn show ?thesis
      by (auto simp: counted_def upd release_shared_state_def Let_def split: if_splits)
  qed (use body in simp_all)
qed

lemma srw_inv_step: "srw_step t s s' \<Longrightarrow> srw_inv s \<Longrightarrow> srw_inv s'"
proof (induction rule: srw_step.induct)
  case (call p)
  with srw_calls_flags [OF call(1)] show ?case
    by (auto simp: srw_inv_counted finite_pcs_upd counted_same_flags)
next
  case (enter p)
  with srw_enter_flags [OF enter(1)] show ?case
    by (auto simp: srw_inv_counted finite_pcs_upd counted_same_flags)
next
  case (body p l)
  with srw_body_gate [OF body(2)] show ?case
    by (auto simp: srw_inv_counted finite_pcs_upd counted_body)
next
  case (leave p)
  with srw_leave_flags [OF leave(2)] show ?case
    by (auto simp: srw_inv_counted finite_pcs_upd counted_same_flags)
next
  case wait_write
  with srw_wait_flags(1) counted_same_flags(2) [of s t XReenter] show ?case
    by (auto simp: srw_inv_counted finite_pcs_upd)
next
  case wait_read
  with srw_wait_flags(2) counted_same_flags(2) [of s t SReenter] show ?case
    by (auto simp: srw_inv_counted finite_pcs_upd)
qed

interpretation srw: inductive_invariant srw_init srw_any_step srw_inv
  by unfold_locales (auto simp: srw_any_step_def intro: srw_inv_init srw_inv_step)

section \<open>Executing a schedule\<close>

text \<open>
  The step relation as a function of the thread and, where the thread is outside the
  routines, of the call it makes; \<open>None\<close> when it is blocked.
\<close>

definition srw_exec :: "nat \<Rightarrow> srw_pc option \<Rightarrow> srw_sys \<Rightarrow> srw_sys option" where
  "srw_exec t c s =
     (case c of
        Some p \<Rightarrow>
          if p \<in> set (srw_calls (pcs s t)) then Some (s\<lparr>pcs := (pcs s)(t := p)\<rparr>) else None
      | None \<Rightarrow>
          (case srw_enter (pcs s t) of
             Some p \<Rightarrow>
               if gate (srw s) = None
               then Some (s\<lparr>pcs := (pcs s)(t := p), srw := (srw s)\<lparr>gate := Some t\<rparr>\<rparr>) else None
           | None \<Rightarrow>
               if gate (srw s) = Some t
               then (case srw_body (pcs s t) (srw s) of
                       Some (p, l) \<Rightarrow> Some (s\<lparr>pcs := (pcs s)(t := p), srw := l\<rparr>)
                     | None \<Rightarrow>
                         map_option (\<lambda>p. s\<lparr>pcs := (pcs s)(t := p), srw := (srw s)\<lparr>gate := None\<rparr>\<rparr>)
                           (srw_leave (pcs s t)))
               else if pcs s t = XWait \<and> can_write (srw s)
               then Some (s\<lparr>pcs := (pcs s)(t := XReenter)\<rparr>)
               else if pcs s t = SWait \<and> can_read (srw s)
               then Some (s\<lparr>pcs := (pcs s)(t := SReenter)\<rparr>)
               else None))"

lemma srw_exec_step: "srw_exec t c s = Some s' \<Longrightarrow> srw_step t s s'"
  by (auto simp: srw_exec_def split: option.splits if_splits intro: srw_step.intros)

fun srw_run :: "(nat \<times> srw_pc option) list \<Rightarrow> srw_sys \<Rightarrow> srw_sys option" where
  "srw_run [] s = Some s"
| "srw_run ((t, c) # sched) s =
     (case srw_exec t c s of None \<Rightarrow> None | Some s' \<Rightarrow> srw_run sched s')"

lemma srw_run_reach:
  "srw_reachable s \<Longrightarrow> srw_run sched s = Some s' \<Longrightarrow> srw_reachable s'"
proof (induction sched arbitrary: s)
  case (Cons a sched)
  obtain t c where a: "a = (t, c)" by (cases a)
  with Cons.prems(2) obtain s1 where s1: "srw_exec t c s = Some s1" "srw_run sched s1 = Some s'"
    by (auto split: option.splits)
  from srw_exec_step [OF s1(1)] have "srw_any_step s s1" by (auto simp: srw_any_step_def)
  with Cons.prems(1) have "srw_reachable s1" by (rule reach_step)
  then show ?case using s1(2) by (rule Cons.IH)
qed simp

definition srw_start :: srw_sys where
  "srw_start = \<lparr>srw = new_srw_state, pcs = (\<lambda>_. Idle)\<rparr>"

lemma srw_start_reachable: "srw_reachable srw_start"
  by (rule reach_init) (simp add: srw_init_def srw_start_def)

lemmas srw_run_start = srw_run_reach [OF srw_start_reachable]

lemmas srw_eval = srw_exec_def srw_start_def new_srw_state_def announce_writer_def
  exclusive_round_def shared_round_def take_reader_def try_acquire_exclusive_state_def
  try_acquire_shared_state_def release_exclusive_state_def release_shared_state_def Let_def

section \<open>Safety\<close>

lemma srw_reach_facts:
  assumes "srw_reachable s"
  shows "finite {t. pcs s t \<noteq> Idle}" and "gate (srw s) = Some t \<longleftrightarrow> in_gate (pcs s t)"
    and "counted (srw s) (pcs s)"
  using srw.reach_inv [OF assms] by (auto simp: srw_inv_counted)

lemma srw_exclusive_alone:
  assumes "srw_reachable s" and "pcs s t = HoldX" and "pcs s u = HoldX \<or> pcs s u = HoldS"
  shows "t = u"
proof -
  note fin = srw_reach_facts(1) [OF assms(1)] and cnt = srw_reach_facts(3) [OF assms(1)]
  have one: "cnt owns_x (pcs s) = 1"
    using srw_cnt_pos(1) [OF fin, of t] assms(2) cnt by (auto simp: counted_def)
  with cnt srw_cnt_pos(2) [OF fin, of u] assms(3) have "pcs s u = HoldX"
    by (auto simp: counted_def)
  with one assms(2) show ?thesis
    using cnt_one_unique [of owns_x "pcs s" t u] finite_pcs_sub [OF fin, of owns_x] by simp
qed

text \<open>
  C1: mutual exclusion. In every reachable state, a thread that holds the lock exclusively is
  alone: no other thread holds it, exclusively or shared.
\<close>

theorem srw_mutual_exclusion:
  assumes "srw_reachable s" and "pcs s t = HoldX" and "pcs s u = HoldX \<or> pcs s u = HoldS"
  shows "t = u"
  by (rule srw_exclusive_alone [OF assms])

theorem srw_mutual_exclusion_witness:
  "\<exists>s. srw_run [(0, Some TXEnter), (0, None), (0, None), (0, None)] srw_start = Some s \<and>
     pcs s 0 = HoldX \<and> (\<forall>u. pcs s u = HoldX \<or> pcs s u = HoldS \<longrightarrow> 0 = u)"
proof -
  let ?sched = "[(0, Some TXEnter), (0, None), (0, None), (0, None)]"
  obtain s where s: "srw_run ?sched srw_start = Some s" "pcs s 0 = HoldX"
    by (simp add: srw_eval)
  from srw_mutual_exclusion [OF srw_run_start [OF s(1)] s(2)] s show ?thesis by blast
qed

text \<open>
  C17: no wakeup is lost. A writer blocked in \<open>WaitForSingleObject\<close> while no thread holds the
  lock finds \<open>can_write\<close> set, and a reader blocked while no writer holds or awaits the lock
  finds \<open>can_read\<close> set: the wait is passed by a step of that thread alone.
\<close>

theorem srw_no_lost_wakeup:
  assumes "srw_reachable s"
  shows "((\<forall>u. \<not> owns_x (pcs s u) \<and> \<not> owns_s (pcs s u)) \<and> pcs s t = XWait \<longrightarrow>
      srw_step t s (s\<lparr>pcs := (pcs s)(t := XReenter)\<rparr>)) \<and>
    ((\<forall>u. \<not> owns_x (pcs s u) \<and> \<not> waits_x (pcs s u)) \<and> pcs s t = SWait \<longrightarrow>
      srw_step t s (s\<lparr>pcs := (pcs s)(t := SReenter)\<rparr>))"
proof -
  note cnt = srw_reach_facts(3) [OF assms]
  have z: "(\<forall>u. \<not> P (pcs s u)) \<Longrightarrow> cnt P (pcs s) = 0" for P by (simp add: cnt_def)
  show ?thesis
    using cnt z [of owns_x] z [of owns_s] z [of waits_x]
    by (auto simp: counted_def intro: srw_step.wait_write srw_step.wait_read)
qed

text \<open>A writer that blocks on thread 0, which then releases the lock.\<close>

abbreviation srw_handover :: "(nat \<times> srw_pc option) list" where
  "srw_handover \<equiv> [(0, Some TXEnter), (0, None), (0, None), (0, None), (1, Some XEnter),
     (1, None), (1, None), (1, None), (1, None), (0, Some RXEnter), (0, None), (0, None), (0, None)]"

theorem srw_no_lost_wakeup_witness:
  "\<exists>s. srw_run srw_handover srw_start = Some s \<and> pcs s 1 = XWait \<and>
     srw_step 1 s (s\<lparr>pcs := (pcs s)(1 := XReenter)\<rparr>)"
proof -
  obtain s where s: "srw_run srw_handover srw_start = Some s" "pcs s 1 = XWait"
    "\<forall>u. \<not> owns_x (pcs s u) \<and> \<not> owns_s (pcs s u)"
    by (simp add: srw_eval)
  from srw_no_lost_wakeup [OF srw_run_start [OF s(1)], of 1] s show ?thesis by blast
qed

section \<open>Refinement of an abstract reader/writer lock\<close>

text \<open>What the lock promises: the threads that own it exclusively and shared.\<close>

record rw_lock =
  writers :: "nat set"
  sharers :: "nat set"

inductive rw_spec :: "nat \<Rightarrow> rw_lock \<Rightarrow> rw_lock \<Rightarrow> bool" for t :: nat and a :: rw_lock where
  stutter: "rw_spec t a a"
| lock_exclusive: "writers a = {} \<Longrightarrow> sharers a = {} \<Longrightarrow> rw_spec t a (a\<lparr>writers := {t}\<rparr>)"
| lock_shared: "writers a = {} \<Longrightarrow> t \<notin> sharers a \<Longrightarrow> rw_spec t a (a\<lparr>sharers := insert t (sharers a)\<rparr>)"
| unlock_exclusive: "writers a = {t} \<Longrightarrow> rw_spec t a (a\<lparr>writers := {}\<rparr>)"
| unlock_shared: "t \<in> sharers a \<Longrightarrow> rw_spec t a (a\<lparr>sharers := sharers a - {t}\<rparr>)"

definition srw_abs :: "srw_sys \<Rightarrow> rw_lock" where
  "srw_abs s = \<lparr>writers = {t. owns_x (pcs s t)}, sharers = {t. owns_s (pcs s t)}\<rparr>"

lemma srw_abs_upd:
  "pcs s' = (pcs s)(t := p) \<Longrightarrow>
   writers (srw_abs s') = (if owns_x p then insert t (writers (srw_abs s)) else writers (srw_abs s) - {t}) \<and>
   sharers (srw_abs s') = (if owns_s p then insert t (sharers (srw_abs s)) else sharers (srw_abs s) - {t})"
  by (auto simp: srw_abs_def)

lemma srw_abs_same_flags:
  assumes "pcs s' = (pcs s)(t := p)" and "same_flags (pcs s t) p"
  shows "srw_abs s' = srw_abs s"
proof (rule rw_lock.equality)
  from assms(2) have *: "owns_x p = owns_x (pcs s t)" "owns_s p = owns_s (pcs s t)"
    by (auto simp: same_flags_def)
  show "writers (srw_abs s') = writers (srw_abs s)" "sharers (srw_abs s') = sharers (srw_abs s)"
    using * by (auto simp: srw_abs_def assms(1))
qed simp

lemma rw_lock_eqI: "writers a = writers b \<Longrightarrow> sharers a = sharers b \<Longrightarrow> a = (b :: rw_lock)"
  by simp

text \<open>The owners in terms of the counters.\<close>

lemma srw_abs_owners:
  assumes "srw_reachable s"
  shows "writer_active (srw s) = 0 \<Longrightarrow> writers (srw_abs s) = {}"
    and "readers (srw s) = 0 \<Longrightarrow> sharers (srw_abs s) = {}"
    and "t \<in> writers (srw_abs s) \<Longrightarrow> writers (srw_abs s) = {t}"
proof -
  note fin = srw_reach_facts(1) [OF assms] and cnt = srw_reach_facts(3) [OF assms]
  show "writers (srw_abs s) = {}" if "writer_active (srw s) = 0"
    using that cnt srw_cnt_pos(1) [OF fin] by (fastforce simp: counted_def srw_abs_def)
  show "sharers (srw_abs s) = {}" if "readers (srw s) = 0"
    using that cnt srw_cnt_pos(2) [OF fin] by (fastforce simp: counted_def srw_abs_def)
  have "finite {t. owns_x (pcs s t)}" using finite_pcs_sub [OF fin, of owns_x] by simp
  then have "t = u" if "owns_x (pcs s t)" "owns_x (pcs s u)" for u
    using cnt_one_unique [of owns_x "pcs s" t u] cnt that by (simp add: counted_def)
  then show "writers (srw_abs s) = {t}" if "t \<in> writers (srw_abs s)"
    using that unfolding srw_abs_def rw_lock.select_convs by blast
qed

text \<open>What each body does to the ownership of its thread.\<close>

lemma srw_body_owns:
  assumes "srw_body p l = Some (q, l')"
  shows "same_flags p q \<or>
    (owns_x q = owns_x p \<and> owns_s q = owns_s p) \<or>
    (writer_active l = 0 \<and> readers l = 0 \<and> \<not> owns_x p \<and> \<not> owns_s p \<and> owns_x q \<and> \<not> owns_s q) \<or>
    (writer_active l = 0 \<and> writers_waiting l = 0 \<and> \<not> owns_x p \<and> \<not> owns_s p \<and> owns_s q \<and> \<not> owns_x q) \<or>
    (owns_x p \<and> \<not> owns_s p \<and> \<not> owns_x q \<and> \<not> owns_s q) \<or>
    (owns_s p \<and> \<not> owns_x p \<and> \<not> owns_x q \<and> \<not> owns_s q)"
  using assms
  by (cases p) (auto simp: exclusive_round_def shared_round_def try_acquire_exclusive_state_def
      try_acquire_shared_state_def same_flags_def split: if_splits)

lemma srw_body_refines:
  assumes "srw_reachable s" and "srw_body (pcs s t) (srw s) = Some (p, l)"
    and s': "pcs s' = (pcs s)(t := p)"
  shows "rw_spec t (srw_abs s) (srw_abs s')"
proof -
  note upd = srw_abs_upd [OF s'] and owners = srw_abs_owners [OF assms(1)]
  have mem: "t \<in> writers (srw_abs s) \<longleftrightarrow> owns_x (pcs s t)" "t \<in> sharers (srw_abs s) \<longleftrightarrow> owns_s (pcs s t)"
    by (auto simp: srw_abs_def)
  from srw_body_owns [OF assms(2)] consider
      (same) "owns_x p = owns_x (pcs s t)" "owns_s p = owns_s (pcs s t)"
    | (x) "writer_active (srw s) = 0" "readers (srw s) = 0" "owns_x p" "\<not> owns_s p"
    | (sh) "writer_active (srw s) = 0" "\<not> owns_s (pcs s t)" "owns_s p" "\<not> owns_x p"
    | (rx) "owns_x (pcs s t)" "\<not> owns_s (pcs s t)" "\<not> owns_x p" "\<not> owns_s p"
    | (rs) "owns_s (pcs s t)" "\<not> owns_x (pcs s t)" "\<not> owns_x p" "\<not> owns_s p"
    unfolding same_flags_def by blast
  then show ?thesis
  proof cases
    case same
    then have "srw_abs s' = srw_abs s"
      by (intro rw_lock_eqI) (auto simp: upd mem [symmetric])
    then show ?thesis by (simp add: rw_spec.stutter)
  next
    case x
    note none = owners(1) [OF x(1)] owners(2) [OF x(2)]
    then have "srw_abs s' = (srw_abs s)\<lparr>writers := {t}\<rparr>"
      using x upd by (intro rw_lock_eqI) simp_all
    with rw_spec.lock_exclusive [OF none, of t] show ?thesis by simp
  next
    case sh
    note none = owners(1) [OF sh(1)]
    have "srw_abs s' = (srw_abs s)\<lparr>sharers := insert t (sharers (srw_abs s))\<rparr>"
      using sh upd none by (intro rw_lock_eqI) simp_all
    with rw_spec.lock_shared [OF none, of t] sh(2) mem show ?thesis by simp
  next
    case rx
    have one: "writers (srw_abs s) = {t}" using rx(1) mem owners(3) by blast
    have "srw_abs s' = (srw_abs s)\<lparr>writers := {}\<rparr>"
      using rx upd one mem by (intro rw_lock_eqI) simp_all
    with rw_spec.unlock_exclusive [OF one] show ?thesis by simp
  next
    case rs
    have "srw_abs s' = (srw_abs s)\<lparr>sharers := sharers (srw_abs s) - {t}\<rparr>"
      using rs upd mem by (intro rw_lock_eqI) simp_all
    with rw_spec.unlock_shared [of t "srw_abs s"] rs(1) mem show ?thesis by simp
  qed
qed

text \<open>
  C6: the lock implements an abstract reader/writer lock. Under any interleaving of the
  acquire, try-acquire and release routines, every step of a thread is either invisible or one
  atomic step of the specification \<open>rw_spec\<close> for that thread, in which the lock is granted
  exclusively only when nobody owns it and shared only when no writer does.
\<close>

theorem srw_refines_rw_spec:
  assumes "srw_reachable s" and "srw_step t s s'"
  shows "rw_spec t (srw_abs s) (srw_abs s')"
  using assms(2)
proof cases
  case (body p l)
  with srw_body_refines [OF assms(1)] show ?thesis by simp
next
  case (call p)
  with srw_calls_flags [OF call(2)] srw_abs_same_flags [of s' s t p] show ?thesis
    by (simp add: rw_spec.stutter)
next
  case (enter p)
  with srw_enter_flags [OF enter(2)] srw_abs_same_flags [of s' s t p] show ?thesis
    by (simp add: rw_spec.stutter)
next
  case (leave p)
  with srw_leave_flags [OF leave(3)] srw_abs_same_flags [of s' s t p] show ?thesis
    by (simp add: rw_spec.stutter)
next
  case wait_write
  with srw_wait_flags(1) srw_abs_same_flags [of s' s t XReenter] show ?thesis
    by (simp add: rw_spec.stutter)
next
  case wait_read
  with srw_wait_flags(2) srw_abs_same_flags [of s' s t SReenter] show ?thesis
    by (simp add: rw_spec.stutter)
qed

theorem srw_refines_rw_spec_witness:
  "\<exists>s s'. srw_run [(0, Some TXEnter), (0, None)] srw_start = Some s \<and> srw_step 0 s s' \<and>
     rw_spec 0 (srw_abs s) (srw_abs s') \<and> writers (srw_abs s') = {0}"
proof -
  let ?sched = "[(0, Some TXEnter), (0, None)]"
  obtain s s' where s: "srw_run ?sched srw_start = Some s" "srw_exec 0 None s = Some s'"
    "writers (srw_abs s') = {0}"
    by (simp add: srw_eval srw_abs_def)
  from srw_refines_rw_spec [OF srw_run_start [OF s(1)] srw_exec_step [OF s(2)]]
    srw_exec_step [OF s(2)] s show ?thesis by blast
qed

section \<open>Writer preference, progress and bounds\<close>

lemma srw_step_pcs:
  "srw_step t s s' \<Longrightarrow> \<exists>p. pcs s' = (pcs s)(t := p) \<and>
    (same_flags (pcs s t) p \<or> (\<exists>l. srw_body (pcs s t) (srw s) = Some (p, l)))"
proof (induction rule: srw_step.induct)
  case (call p)
  with srw_calls_flags [OF call] show ?case by auto
next
  case (enter p)
  with srw_enter_flags [OF enter(1)] show ?case by auto
next
  case (leave p)
  with srw_leave_flags [OF leave(2)] show ?case by auto
next
  case wait_write
  with srw_wait_flags(1) show ?case by auto
next
  case wait_read
  with srw_wait_flags(2) show ?case by auto
qed auto

text \<open>
  Writers are preferred. While a writer is announced and still waiting, no step, of
  whatever thread, makes another thread a reader.
\<close>

theorem srw_writer_preference:
  assumes "srw_reachable s" and "srw_step t s s'" and "waits_x (pcs s w)"
  shows "{u. owns_s (pcs s' u)} \<subseteq> {u. owns_s (pcs s u)}"
proof -
  note fin = srw_reach_facts(1) [OF assms(1)] and cnt = srw_reach_facts(3) [OF assms(1)]
  have w: "writers_waiting (srw s) \<noteq> 0"
    using cnt srw_cnt_pos(3) [OF fin assms(3)] by (simp add: counted_def)
  from srw_step_pcs [OF assms(2)] obtain p where p: "pcs s' = (pcs s)(t := p)"
    "same_flags (pcs s t) p \<or> (\<exists>l. srw_body (pcs s t) (srw s) = Some (p, l))" by auto
  from p(2) w have "owns_s p \<Longrightarrow> owns_s (pcs s t)"
    by (auto simp: same_flags_def dest: srw_body_owns)
  with p(1) show ?thesis by auto
qed

text \<open>A writer waits behind a reader while another reader arrives.\<close>

abbreviation srw_queueing :: "(nat \<times> srw_pc option) list" where
  "srw_queueing \<equiv> [(0, Some SEnter), (0, None), (0, None), (0, None), (1, Some XEnter),
     (1, None), (1, None), (1, None), (1, None), (2, Some SEnter), (2, None)]"

theorem srw_writer_preference_witness:
  "\<exists>s s'. srw_run srw_queueing srw_start = Some s \<and> srw_step 2 s s' \<and> waits_x (pcs s 1) \<and>
     {u. owns_s (pcs s' u)} \<subseteq> {u. owns_s (pcs s u)} \<and> pcs s' 2 = SUnlock"
proof -
  obtain s s' where s: "srw_run srw_queueing srw_start = Some s" "srw_exec 2 None s = Some s'"
    "waits_x (pcs s 1)" "pcs s' 2 = SUnlock"
    by (simp add: srw_eval)
  from srw_writer_preference [OF srw_run_start [OF s(1)] srw_exec_step [OF s(2)] s(3)]
    srw_exec_step [OF s(2)] s show ?thesis by blast
qed

text \<open>Where a thread is inside the routines, so that its next step is not a call.\<close>

definition in_routine :: "srw_pc \<Rightarrow> bool" where
  "in_routine p \<longleftrightarrow> p \<noteq> Idle \<and> p \<noteq> HoldX \<and> p \<noteq> HoldS"

lemma srw_gate_steps:
  assumes "in_gate (pcs s t)" and "gate (srw s) = Some t"
  shows "\<exists>s'. srw_step t s s'"
proof -
  have "(\<exists>p l. srw_body (pcs s t) (srw s) = Some (p, l)) \<or> (\<exists>p. srw_leave (pcs s t) = Some p)"
    using assms(1) by (cases "pcs s t") (auto split: prod.splits)
  with assms(2) show ?thesis by (blast intro: srw_step.body srw_step.leave)
qed

lemma srw_pc_cases:
  "in_routine p \<Longrightarrow> in_gate p \<or> (\<exists>q. srw_enter p = Some q) \<or> p = XWait \<or> p = SWait"
  by (cases p) (auto simp: in_routine_def)

text \<open>
  The routines cannot deadlock. In every reachable state in which some thread is inside
  a routine and no thread is outside holding the lock, some thread inside a routine can take
  its next step: waits whose event will never be set do not occur.
\<close>

theorem srw_progress:
  assumes "srw_reachable s" and "in_routine (pcs s t)"
    and "\<forall>u. pcs s u \<noteq> HoldX \<and> pcs s u \<noteq> HoldS"
  shows "\<exists>u s'. in_routine (pcs s u) \<and> srw_step u s s'"
proof (cases "gate (srw s)")
  case (Some u)
  then have "in_gate (pcs s u)" using srw_reach_facts(2) [OF assms(1)] by blast
  then have "in_routine (pcs s u)" by (auto simp: in_routine_def)
  with srw_gate_steps [OF \<open>in_gate (pcs s u)\<close> Some] show ?thesis by blast
next
  case None
  note cnt = srw_reach_facts(3) [OF assms(1)]
  have out: "\<not> in_gate (pcs s u)" for u using srw_reach_facts(2) [OF assms(1), of u] None by simp
  show ?thesis
  proof (cases "\<exists>u q. srw_enter (pcs s u) = Some q")
    case True
    then obtain u q where u: "srw_enter (pcs s u) = Some q" by blast
    then have "in_routine (pcs s u)" by (auto simp: in_routine_def)
    with srw_step.enter [OF u None] show ?thesis by blast
  next
    case False
    then have no: "pcs s u \<in> {Idle, XWait, SWait}" for u
      using srw_pc_cases [of "pcs s u"] out [of u] assms(3) by (auto simp: in_routine_def)
    have quiet: "\<not> owns_x (pcs s u)" "\<not> owns_s (pcs s u)" for u using no [of u] by auto
    then have zero: "writer_active (srw s) = 0" "readers (srw s) = 0"
      using cnt by (simp_all add: counted_def cnt_def)
    show ?thesis
    proof (cases "\<exists>u. pcs s u = XWait")
      case True
      then obtain u where "pcs s u = XWait" by blast
      moreover have "can_write (srw s)" using cnt zero by (simp add: counted_def)
      ultimately have "srw_step u s (s\<lparr>pcs := (pcs s)(u := XReenter)\<rparr>)"
        by (rule srw_step.wait_write)
      moreover have "in_routine (pcs s u)" using \<open>pcs s u = XWait\<close> by (simp add: in_routine_def)
      ultimately show ?thesis by blast
    next
      case False
      then have "\<not> waits_x (pcs s u)" for u using no [of u] by auto
      then have "writers_waiting (srw s) = 0" using cnt by (simp add: counted_def cnt_def)
      then have "can_read (srw s)" using cnt zero by (simp add: counted_def)
      moreover have "pcs s t = SWait" using no [of t] False assms(2) by (auto simp: in_routine_def)
      ultimately show ?thesis using srw_step.wait_read [of s t] assms(2) by blast
    qed
  qed
qed

theorem srw_progress_witness:
  "\<exists>s. srw_run srw_handover srw_start = Some s \<and>
     (\<exists>u s'. in_routine (pcs s u) \<and> srw_step u s s')"
proof -
  obtain s where s: "srw_run srw_handover srw_start = Some s" "in_routine (pcs s 1)"
    "\<forall>u. pcs s u \<noteq> HoldX \<and> pcs s u \<noteq> HoldS"
    by (simp add: srw_eval in_routine_def)
  from srw_progress [OF srw_run_start [OF s(1)] s(2,3)] s show ?thesis by blast
qed

text \<open>
  The counters of the lock are exact, never negative, and bounded by the number of
  threads at work in it, so that they cannot leave the range of a 32-bit \<open>LONG\<close> with fewer
  than \<open>2^31\<close> threads; \<open>writer_active\<close> is 0 or 1.
\<close>

theorem srw_counters_bounded:
  assumes "srw_reachable s"
  shows "0 \<le> readers (srw s) \<and> readers (srw s) \<le> int (card {t. pcs s t \<noteq> Idle}) \<and>
    0 \<le> writers_waiting (srw s) \<and>
    writers_waiting (srw s) \<le> int (card {t. pcs s t \<noteq> Idle}) \<and>
    writer_active (srw s) \<in> {0, 1}"
proof -
  note fin = srw_reach_facts(1) [OF assms] and cnt = srw_reach_facts(3) [OF assms]
  have le: "cnt P (pcs s) \<le> int (card {t. pcs s t \<noteq> Idle})" if "\<not> P Idle" for P
    unfolding cnt_def using that by (auto intro!: card_mono [OF fin])
  have "cnt owns_x (pcs s) = 0 \<or> cnt owns_x (pcs s) = 1"
    using cnt cnt_nonneg [of owns_x "pcs s"] unfolding counted_def by linarith
  with cnt le [of owns_s] le [of waits_x] show ?thesis by (simp add: counted_def)
qed

theorem srw_counters_bounded_witness:
  "\<exists>s. srw_run srw_queueing srw_start = Some s \<and> readers (srw s) = 1 \<and>
     0 \<le> readers (srw s) \<and> readers (srw s) \<le> int (card {t. pcs s t \<noteq> Idle}) \<and>
     0 \<le> writers_waiting (srw s) \<and>
     writers_waiting (srw s) \<le> int (card {t. pcs s t \<noteq> Idle}) \<and>
     writer_active (srw s) \<in> {0, 1}"
proof -
  obtain s where s: "srw_run srw_queueing srw_start = Some s" "readers (srw s) = 1"
    by (simp add: srw_eval)
  from srw_counters_bounded [OF srw_run_start [OF s(1)]] s show ?thesis by blast
qed

end
