(* ===== verification/Sync_Exports.thy ===== *)
theory Sync_Exports
  imports Srw_Lock
begin

text \<open>
  The exported lock functions of \<open>compat/w2k_sync.c\<close>, on the answer of \<open>get_srw_state\<close>: what they
  do when no other thread is inside the gate, and how that is a run of the interleaved lock.
\<close>

section \<open>The lock exports\<close>

text \<open>
  The argument is the answer of \<open>get_srw_state\<close> (for a release: the content of the slot); the
  routine either returns, with the state as it leaves it, or goes to wait.
\<close>

datatype srw_outcome = Returns "srw_state option" | Waits srw_state

definition W2KAcquireSRWLockExclusive :: "srw_state option \<Rightarrow> srw_outcome" where
  "W2KAcquireSRWLockExclusive state =
     (case state of
        None \<Rightarrow> Returns None
      | Some s \<Rightarrow>
          (case exclusive_round (announce_writer s) of
             (True, s) \<Rightarrow> Returns (Some s)
           | (False, s) \<Rightarrow> Waits s))"

definition W2KAcquireSRWLockShared :: "srw_state option \<Rightarrow> srw_outcome" where
  "W2KAcquireSRWLockShared state =
     (case state of
        None \<Rightarrow> Returns None
      | Some s \<Rightarrow>
          (case shared_round s of
             (True, s) \<Rightarrow> Returns (Some s)
           | (False, s) \<Rightarrow> Waits s))"

definition W2KReleaseSRWLockExclusive :: "srw_state option \<Rightarrow> srw_state option" where
  "W2KReleaseSRWLockExclusive state = (case state of None \<Rightarrow> None | Some s \<Rightarrow> Some (release_exclusive_state s))"

definition W2KReleaseSRWLockShared :: "srw_state option \<Rightarrow> srw_state option" where
  "W2KReleaseSRWLockShared state = (case state of None \<Rightarrow> None | Some s \<Rightarrow> Some (release_shared_state s))"

definition W2KTryAcquireSRWLockExclusive :: "srw_state option \<Rightarrow> bool \<times> srw_state option" where
  "W2KTryAcquireSRWLockExclusive state =
     (case state of
        None \<Rightarrow> (False, None)
      | Some s \<Rightarrow> (case try_acquire_exclusive_state s of (got, s) \<Rightarrow> (got, Some s)))"

definition W2KTryAcquireSRWLockShared :: "srw_state option \<Rightarrow> bool \<times> srw_state option" where
  "W2KTryAcquireSRWLockShared state =
     (case state of
        None \<Rightarrow> (False, None)
      | Some s \<Rightarrow> (case try_acquire_shared_state s of (got, s) \<Rightarrow> (got, Some s)))"

text \<open>\<open>W2KInitializeSRWLock\<close> and \<open>W2KInitializeConditionVariable\<close>: the slot, if there is one.\<close>

definition W2KInitializeSRWLock :: "'a option option \<Rightarrow> 'a option option" where
  "W2KInitializeSRWLock slot = (case slot of None \<Rightarrow> None | Some _ \<Rightarrow> Some None)"

definition W2KInitializeConditionVariable :: "'a option option \<Rightarrow> 'a option option" where
  "W2KInitializeConditionVariable slot = (case slot of None \<Rightarrow> None | Some _ \<Rightarrow> Some None)"

text \<open>
  A blocking acquire cannot report a failure, and when the memory for the state is refused it
  returns as if it had the lock. The caller's release then releases the lock of whoever really
  holds it: a second writer gets in while the first one is still inside.
\<close>

theorem srw_refused_memory_breaks_exclusion:
  "\<exists>held after.
     W2KAcquireSRWLockExclusive None = Returns None \<and>
     W2KAcquireSRWLockExclusive (Some new_srw_state) = Returns (Some held) \<and>
     (\<forall>s. W2KAcquireSRWLockExclusive (Some held) \<noteq> Returns s) \<and>
     W2KReleaseSRWLockExclusive (Some held) = Some after \<and>
     (\<exists>s. W2KAcquireSRWLockExclusive (Some after) = Returns (Some s))"
  by (simp add: W2KAcquireSRWLockExclusive_def W2KReleaseSRWLockExclusive_def new_srw_state_def
      announce_writer_def exclusive_round_def release_exclusive_state_def)

text \<open>
  The exports answer what the interleaved lock does when the thread runs alone: a call that
  returns ends in the state in which the thread holds the lock, and one that waits ends in
  front of the event.
\<close>

text \<open>The thread alone gets from its counter to another one, with the lock's state as given.\<close>

definition srw_runs :: "nat \<Rightarrow> srw_sys \<Rightarrow> srw_pc \<Rightarrow> srw_state \<Rightarrow> bool" where
  "srw_runs t s p l \<longleftrightarrow> (srw_step t)\<^sup>*\<^sup>* s (s\<lparr>pcs := (pcs s)(t := p), srw := l\<rparr>)"

lemma srw_runs_step:
  assumes "srw_step t s s1" "srw_runs t s1 p l"
    "s1\<lparr>pcs := (pcs s1)(t := p), srw := l\<rparr> = s\<lparr>pcs := (pcs s)(t := p), srw := l\<rparr>"
  shows "srw_runs t s p l"
  using converse_rtranclp_into_rtranclp [of "srw_step t", OF assms(1)] assms(2,3) by (simp add: srw_runs_def)

lemma srw_runs_leave:
  assumes "gate (srw s) = Some t" "srw_leave (pcs s t) = Some p" "l = (srw s)\<lparr>gate := None\<rparr>"
  shows "srw_runs t s p l"
  using leave [OF assms(1,2)] assms(3) by (simp add: srw_runs_def r_into_rtranclp)

lemma srw_runs_body:
  assumes "gate (srw s) = Some t" "srw_body (pcs s t) (srw s) = Some (p1, l1)"
    "srw_runs t (s\<lparr>pcs := (pcs s)(t := p1), srw := l1\<rparr>) p l"
  shows "srw_runs t s p l"
  by (rule srw_runs_step [OF body [OF assms(1,2)] assms(3)]) simp

lemma srw_runs_enter:
  assumes "gate (srw s) = None" "srw_enter (pcs s t) = Some p1"
    "srw_runs t (s\<lparr>pcs := (pcs s)(t := p1), srw := (srw s)\<lparr>gate := Some t\<rparr>\<rparr>) p l"
  shows "srw_runs t s p l"
  by (rule srw_runs_step [OF enter [OF assms(2,1)] assms(3)]) simp

lemma srw_runs_call:
  assumes "p1 \<in> set (srw_calls (pcs s t))" "srw_runs t (s\<lparr>pcs := (pcs s)(t := p1)\<rparr>) p l"
  shows "srw_runs t s p l"
  by (rule srw_runs_step [OF call [OF assms(1)] assms(2)]) simp

text \<open>The bodies neither look at the gate nor change it.\<close>

lemma gate_irrelevant:
  "announce_writer (s\<lparr>gate := g\<rparr>) = (announce_writer s)\<lparr>gate := g\<rparr>"
  "exclusive_round (s\<lparr>gate := g\<rparr>) = (case exclusive_round s of (b, s) \<Rightarrow> (b, s\<lparr>gate := g\<rparr>))"
  "shared_round (s\<lparr>gate := g\<rparr>) = (case shared_round s of (b, s) \<Rightarrow> (b, s\<lparr>gate := g\<rparr>))"
  "try_acquire_exclusive_state (s\<lparr>gate := g\<rparr>) =
     (case try_acquire_exclusive_state s of (b, s) \<Rightarrow> (b, s\<lparr>gate := g\<rparr>))"
  "try_acquire_shared_state (s\<lparr>gate := g\<rparr>) =
     (case try_acquire_shared_state s of (b, s) \<Rightarrow> (b, s\<lparr>gate := g\<rparr>))"
  "release_exclusive_state (s\<lparr>gate := g\<rparr>) = (release_exclusive_state s)\<lparr>gate := g\<rparr>"
  "release_shared_state (s\<lparr>gate := g\<rparr>) = (release_shared_state s)\<lparr>gate := g\<rparr>"
  by (auto simp: announce_writer_def exclusive_round_def shared_round_def take_reader_def Let_def
      try_acquire_exclusive_state_def try_acquire_shared_state_def release_exclusive_state_def
      release_shared_state_def)

lemma gate_same:
  "gate (announce_writer s) = gate s" "gate (snd (exclusive_round s)) = gate s"
  "gate (snd (shared_round s)) = gate s" "gate (snd (try_acquire_exclusive_state s)) = gate s"
  "gate (snd (try_acquire_shared_state s)) = gate s" "gate (release_exclusive_state s) = gate s"
  "gate (release_shared_state s) = gate s"
  by (auto simp: announce_writer_def exclusive_round_def shared_round_def take_reader_def Let_def
      try_acquire_exclusive_state_def try_acquire_shared_state_def release_exclusive_state_def
      release_shared_state_def)

lemma run_exclusive:
  assumes g: "gate (srw s) = None" and p: "pcs s t = Idle"
    and r: "exclusive_round (announce_writer (srw s)) = (got, l)"
  shows "srw_runs t s (if got then HoldX else XWait) l"
proof -
  have gl: "gate l = None" using gate_same(2) [of "announce_writer (srw s)"] gate_same(1) [of "srw s"] r g by simp
  have r2: "exclusive_round (announce_writer ((srw s)\<lparr>gate := Some t\<rparr>)) = (got, l\<lparr>gate := Some t\<rparr>)"
    by (simp add: gate_irrelevant r)
  show ?thesis
    by (rule srw_runs_call [of XEnter], use p in simp, rule srw_runs_enter [of _ _ XAnnounce],
        use g in simp, use p in simp,
        rule srw_runs_body [of _ _ XTest "announce_writer ((srw s)\<lparr>gate := Some t\<rparr>)"],
        simp, simp, rule srw_runs_body [of _ _ "if got then XLeave else XUnlock" "l\<lparr>gate := Some t\<rparr>"],
        simp add: gate_same, simp add: r2, rule srw_runs_leave)
      (use gl in simp_all)
qed

lemma run_section:
  assumes g: "gate (srw s) = None" and c: "p1 \<in> set (srw_calls (pcs s t))" "srw_enter p1 = Some p2"
    and b: "srw_body p2 ((srw s)\<lparr>gate := Some t\<rparr>) = Some (p3, l\<lparr>gate := Some t\<rparr>)"
    and l: "gate l = None" "srw_leave p3 = Some p"
  shows "srw_runs t s p l"
  by (rule srw_runs_call [OF c(1)], rule srw_runs_enter [of _ _ p2], use g in simp, use c in simp,
      rule srw_runs_body [of _ _ p3 "l\<lparr>gate := Some t\<rparr>"], simp, use b in simp, rule srw_runs_leave)
    (use l in simp_all)

text \<open>
  When no thread is inside the gate, every export is a run of the interleaved lock by the calling
  thread alone: a call that returns leaves the thread as owner (a failed attempt as a stranger), one
  that has to wait leaves it in front of the event, a release makes it a stranger; and the state
  is the one the export computes.
\<close>

theorem srw_exports_refine_steps:
  assumes "gate (srw s) = None"
  shows "(pcs s t = Idle \<longrightarrow>
      (case W2KAcquireSRWLockExclusive (Some (srw s)) of
         Returns l \<Rightarrow> l \<noteq> None \<and> srw_runs t s HoldX (the l) | Waits l \<Rightarrow> srw_runs t s XWait l) \<and>
      (case W2KAcquireSRWLockShared (Some (srw s)) of
         Returns l \<Rightarrow> l \<noteq> None \<and> srw_runs t s HoldS (the l) | Waits l \<Rightarrow> srw_runs t s SWait l) \<and>
      (case W2KTryAcquireSRWLockExclusive (Some (srw s)) of
         (got, l) \<Rightarrow> l \<noteq> None \<and> srw_runs t s (if got then HoldX else Idle) (the l)) \<and>
      (case W2KTryAcquireSRWLockShared (Some (srw s)) of
         (got, l) \<Rightarrow> l \<noteq> None \<and> srw_runs t s (if got then HoldS else Idle) (the l))) \<and>
    (pcs s t = HoldX \<longrightarrow> (\<exists>l. W2KReleaseSRWLockExclusive (Some (srw s)) = Some l \<and> srw_runs t s Idle l)) \<and>
    (pcs s t = HoldS \<longrightarrow> (\<exists>l. W2KReleaseSRWLockShared (Some (srw s)) = Some l \<and> srw_runs t s Idle l))"
proof (intro conjI impI)
  assume i: "pcs s t = Idle"
  show "case W2KAcquireSRWLockExclusive (Some (srw s)) of
      Returns l \<Rightarrow> l \<noteq> None \<and> srw_runs t s HoldX (the l) | Waits l \<Rightarrow> srw_runs t s XWait l"
    using run_exclusive [OF assms i]
    by (auto simp: W2KAcquireSRWLockExclusive_def split: prod.split bool.split)
  obtain got l where r: "shared_round (srw s) = (got, l)" by (metis surj_pair)
  have "srw_runs t s (if got then HoldS else SWait) l"
    by (rule run_section [OF assms, of SEnter _ STest "if got then SLeave else SUnlock"])
      (use i r assms gate_same(3) [of "srw s"] in \<open>simp_all add: gate_irrelevant\<close>)
  then show "case W2KAcquireSRWLockShared (Some (srw s)) of
      Returns l \<Rightarrow> l \<noteq> None \<and> srw_runs t s HoldS (the l) | Waits l \<Rightarrow> srw_runs t s SWait l"
    by (cases got) (simp_all add: W2KAcquireSRWLockShared_def r)
  obtain got2 l2 where r: "try_acquire_exclusive_state (srw s) = (got2, l2)" by (metis surj_pair)
  have "srw_runs t s (if got2 then HoldX else Idle) l2"
    by (rule run_section [OF assms, of TXEnter _ TXBody "TXLeave got2"])
      (use i r assms gate_same(4) [of "srw s"] in \<open>simp_all add: gate_irrelevant\<close>)
  then show "case W2KTryAcquireSRWLockExclusive (Some (srw s)) of
      (got, l) \<Rightarrow> l \<noteq> None \<and> srw_runs t s (if got then HoldX else Idle) (the l)"
    by (simp add: W2KTryAcquireSRWLockExclusive_def r)
  obtain got3 l3 where r: "try_acquire_shared_state (srw s) = (got3, l3)" by (metis surj_pair)
  have "srw_runs t s (if got3 then HoldS else Idle) l3"
    by (rule run_section [OF assms, of TSEnter _ TSBody "TSLeave got3"])
      (use i r assms gate_same(5) [of "srw s"] in \<open>simp_all add: gate_irrelevant\<close>)
  then show "case W2KTryAcquireSRWLockShared (Some (srw s)) of
      (got, l) \<Rightarrow> l \<noteq> None \<and> srw_runs t s (if got then HoldS else Idle) (the l)"
    by (simp add: W2KTryAcquireSRWLockShared_def r)
next
  assume i: "pcs s t = HoldX"
  have "srw_runs t s Idle (release_exclusive_state (srw s))"
    by (rule run_section [OF assms, of RXEnter _ RXBody RXLeave])
      (use i assms in \<open>simp_all add: gate_irrelevant gate_same\<close>)
  then show "\<exists>l. W2KReleaseSRWLockExclusive (Some (srw s)) = Some l \<and> srw_runs t s Idle l"
    by (simp add: W2KReleaseSRWLockExclusive_def)
next
  assume i: "pcs s t = HoldS"
  have "srw_runs t s Idle (release_shared_state (srw s))"
    by (rule run_section [OF assms, of RSEnter _ RSBody RSLeave])
      (use i assms in \<open>simp_all add: gate_irrelevant gate_same\<close>)
  then show "\<exists>l. W2KReleaseSRWLockShared (Some (srw s)) = Some l \<and> srw_runs t s Idle l"
    by (simp add: W2KReleaseSRWLockShared_def)
qed

theorem srw_exports_refine_steps_witness:
  "\<exists>l. W2KAcquireSRWLockExclusive (Some new_srw_state) = Returns (Some l) \<and> srw_runs 4 srw_start HoldX l"
  using srw_exports_refine_steps [of srw_start 4]
  by (simp add: srw_start_def W2KAcquireSRWLockExclusive_def new_srw_state_def announce_writer_def exclusive_round_def)

end
