(* ===== verification/Lazy_Slot.thy ===== *)
theory Lazy_Slot
  imports W2K_Prelude
begin

text \<open>
  The lazily created states of \<open>compat/w2k_sync.c\<close>. A lock or a
  condition variable of the caller is one pointer, the slot; \<open>get_srw_state\<close> and \<open>get_cv_state\<close>
  allocate the state behind it on first use, and threads race for the slot with
  \<open>InterlockedCompareExchange\<close>. \<open>slot_step\<close> interleaves any number of threads in these
  functions; every system call that can fail does so at will.
\<close>

section \<open>Getting the state of a slot\<close>

datatype slot_kind = Srw_Slot | Cv_Slot

record state_block =
  gate_ready :: bool
  read_handle :: bool
  write_handle :: bool

text \<open>
  The system's view beside the slot: allocated blocks, initialised critical sections (named by
  their block) and open event handles (the block, and whether it is \<open>can_write\<close>).
\<close>

record slot_world =
  slot :: "nat option"
  blocks :: "nat \<Rightarrow> state_block option"
  next_address :: nat
  gates :: "nat set"
  handles :: "(nat \<times> bool) set"

datatype slot_pc =
    GIdle | GRead | GAlloc | GGate nat | GReadEvent nat | GWriteEvent nat | GCheck nat
  | GSwap nat | GLost nat nat | GFailed nat | GDone "nat option"

text \<open>The two manual-reset events; the flag is whether \<open>CreateEventA\<close> succeeds.\<close>

definition create_event :: "bool \<Rightarrow> nat \<Rightarrow> bool \<Rightarrow> slot_world \<Rightarrow> slot_world" where
  "create_event is_write b ok w =
     (let bl = the (blocks w b);
          bl = (if is_write then bl\<lparr>write_handle := ok\<rparr> else bl\<lparr>read_handle := ok\<rparr>) in
        w\<lparr>blocks := (blocks w)(b := Some bl),
          handles := (if ok then insert (b, is_write) (handles w) else handles w)\<rparr>)"

text \<open>\<open>destroy_srw_state\<close>, and what \<open>get_cv_state\<close> does with a state it cannot use.\<close>

definition destroy_srw_state :: "nat \<Rightarrow> slot_world \<Rightarrow> slot_world" where
  "destroy_srw_state b w =
     (let bl = the (blocks w b);
          hs = (if read_handle bl then handles w - {(b, False)} else handles w);
          hs = (if write_handle bl then hs - {(b, True)} else hs) in
        w\<lparr>handles := hs, gates := gates w - {b}, blocks := (blocks w)(b := None)\<rparr>)"

definition destroy_cv_state :: "nat \<Rightarrow> slot_world \<Rightarrow> slot_world" where
  "destroy_cv_state b w = w\<lparr>gates := gates w - {b}, blocks := (blocks w)(b := None)\<rparr>"

definition destroy_state :: "slot_kind \<Rightarrow> nat \<Rightarrow> slot_world \<Rightarrow> slot_world" where
  "destroy_state k b = (case k of Srw_Slot \<Rightarrow> destroy_srw_state b | Cv_Slot \<Rightarrow> destroy_cv_state b)"

text \<open>One action of a thread in \<open>get_srw_state\<close> or \<open>get_cv_state\<close>.\<close>

fun slot_action :: "slot_kind \<Rightarrow> bool \<Rightarrow> slot_pc \<Rightarrow> slot_world \<Rightarrow> (slot_pc \<times> slot_world) option" where
  "slot_action k ok GIdle w = Some (GRead, w)"
| "slot_action k ok GRead w =
     Some (case slot w of Some b \<Rightarrow> GDone (Some b) | None \<Rightarrow> GAlloc, w)"
| "slot_action k ok GAlloc w =
     (if ok then
        let b = next_address w in
          Some (GGate b, w\<lparr>next_address := Suc b, blocks := (blocks w)(b :=
            Some \<lparr>gate_ready = False, read_handle = False, write_handle = False\<rparr>)\<rparr>)
      else Some (GDone None, w))"
| "slot_action k ok (GGate b) w =
     Some (case k of Srw_Slot \<Rightarrow> GReadEvent b | Cv_Slot \<Rightarrow> GSwap b,
       w\<lparr>gates := insert b (gates w),
         blocks := (blocks w)(b := Some ((the (blocks w b))\<lparr>gate_ready := True\<rparr>))\<rparr>)"
| "slot_action k ok (GReadEvent b) w = Some (GWriteEvent b, create_event False b ok w)"
| "slot_action k ok (GWriteEvent b) w = Some (GCheck b, create_event True b ok w)"
| "slot_action k ok (GCheck b) w =
     (let bl = the (blocks w b) in
        Some (if \<not> read_handle bl \<or> \<not> write_handle bl then GFailed b else GSwap b, w))"
| "slot_action k ok (GFailed b) w = Some (GDone None, destroy_state k b w)"
| "slot_action k ok (GSwap b) w =
     (case slot w of
        None \<Rightarrow> Some (GDone (Some b), w\<lparr>slot := Some b\<rparr>)
      | Some winner \<Rightarrow> Some (GLost b winner, w))"
| "slot_action k ok (GLost b winner) w = Some (GDone (Some winner), destroy_state k b w)"
| "slot_action k ok (GDone r) w = None"

record slot_sys =
  world :: slot_world
  gpcs :: "nat \<Rightarrow> slot_pc"

definition slot_start :: slot_sys where
  "slot_start = \<lparr>world = \<lparr>slot = None, blocks = \<lambda>_. None, next_address = 1, gates = {}, handles = {}\<rparr>,
     gpcs = \<lambda>_. GIdle\<rparr>"

inductive slot_step :: "slot_kind \<Rightarrow> slot_sys \<Rightarrow> slot_sys \<Rightarrow> bool" for k :: slot_kind and s :: slot_sys where
  act: "slot_action k ok (gpcs s t) (world s) = Some (p, w) \<Longrightarrow>
    slot_step k s \<lparr>world = w, gpcs = (gpcs s)(t := p)\<rparr>"
| return: "gpcs s t = GDone r \<Longrightarrow> slot_step k s (s\<lparr>gpcs := (gpcs s)(t := GIdle)\<rparr>)"

abbreviation slot_reachable :: "slot_kind \<Rightarrow> slot_sys \<Rightarrow> bool" where
  "slot_reachable k \<equiv> reach (\<lambda>s. s = slot_start) (slot_step k)"

section \<open>The invariant\<close>

fun owns :: "slot_pc \<Rightarrow> nat option" where
  "owns (GGate b) = Some b" | "owns (GReadEvent b) = Some b" | "owns (GWriteEvent b) = Some b"
| "owns (GCheck b) = Some b" | "owns (GSwap b) = Some b" | "owns (GLost b _) = Some b"
| "owns (GFailed b) = Some b" | "owns _ = None"

fun answer :: "slot_pc \<Rightarrow> nat option" where
  "answer (GDone r) = r" | "answer (GLost _ winner) = Some winner" | "answer _ = None"

definition complete :: "slot_kind \<Rightarrow> state_block \<Rightarrow> bool" where
  "complete k bl \<longleftrightarrow> gate_ready bl \<and> (read_handle bl \<longleftrightarrow> k = Srw_Slot) \<and> (write_handle bl \<longleftrightarrow> k = Srw_Slot)"

text \<open>What a thread knows of the block it is building.\<close>

fun stage :: "slot_kind \<Rightarrow> slot_pc \<Rightarrow> state_block \<Rightarrow> bool" where
  "stage k (GGate b) bl \<longleftrightarrow> \<not> gate_ready bl \<and> \<not> read_handle bl \<and> \<not> write_handle bl"
| "stage k (GReadEvent b) bl \<longleftrightarrow> k = Srw_Slot \<and> gate_ready bl \<and> \<not> read_handle bl \<and> \<not> write_handle bl"
| "stage k (GWriteEvent b) bl \<longleftrightarrow> k = Srw_Slot \<and> gate_ready bl \<and> \<not> write_handle bl"
| "stage k (GCheck b) bl \<longleftrightarrow> k = Srw_Slot \<and> gate_ready bl"
| "stage k (GFailed b) bl \<longleftrightarrow> k = Srw_Slot \<and> gate_ready bl"
| "stage k _ bl \<longleftrightarrow> complete k bl"

definition block_inv :: "slot_kind \<Rightarrow> slot_world \<Rightarrow> bool" where
  "block_inv k w \<longleftrightarrow>
     (\<forall>b. blocks w b \<noteq> None \<longrightarrow> b < next_address w) \<and>
     (\<forall>b. slot w = Some b \<longrightarrow> (\<exists>bl. blocks w b = Some bl \<and> complete k bl)) \<and>
     gates w = {b. \<exists>bl. blocks w b = Some bl \<and> gate_ready bl} \<and>
     handles w = {(b, wr). \<exists>bl. blocks w b = Some bl \<and> (if wr then write_handle bl else read_handle bl)}"

definition thread_inv :: "slot_kind \<Rightarrow> slot_world \<Rightarrow> (nat \<Rightarrow> slot_pc) \<Rightarrow> bool" where
  "thread_inv k w ps \<longleftrightarrow>
     (\<forall>t b. owns (ps t) = Some b \<longrightarrow>
        slot w \<noteq> Some b \<and> (\<exists>bl. blocks w b = Some bl \<and> stage k (ps t) bl)) \<and>
     (\<forall>t u b. owns (ps t) = Some b \<longrightarrow> owns (ps u) = Some b \<longrightarrow> t = u) \<and>
     (\<forall>b. blocks w b \<noteq> None \<longrightarrow> slot w = Some b \<or> (\<exists>t. owns (ps t) = Some b)) \<and>
     (\<forall>t b. answer (ps t) = Some b \<longrightarrow> slot w = Some b)"

definition slot_inv :: "slot_kind \<Rightarrow> slot_sys \<Rightarrow> bool" where
  "slot_inv k s \<longleftrightarrow> block_inv k (world s) \<and> thread_inv k (world s) (gpcs s)"

lemma slot_inv_start: "slot_inv k slot_start"
  by (simp add: slot_inv_def slot_start_def block_inv_def thread_inv_def)

lemma thread_invD:
  assumes "thread_inv k w ps"
  shows "owns (ps t) = Some b \<Longrightarrow> slot w \<noteq> Some b"
    and "owns (ps t) = Some b \<Longrightarrow> \<exists>bl. blocks w b = Some bl \<and> stage k (ps t) bl"
    and "owns (ps t) = Some b \<Longrightarrow> owns (ps u) = Some b \<Longrightarrow> t = u"
    and "blocks w b \<noteq> None \<Longrightarrow> slot w = Some b \<or> (\<exists>t. owns (ps t) = Some b)"
    and "answer (ps t) = Some b \<Longrightarrow> slot w = Some b"
  using assms by (simp_all only: thread_inv_def) metis+

lemma thread_inv_covered:
  assumes "thread_inv k w ps" "blocks w b \<noteq> None" "owns (ps t) \<noteq> Some b"
  shows "slot w = Some b \<or> (\<exists>u. u \<noteq> t \<and> owns (ps u) = Some b)"
  using thread_invD(4) [OF assms(1,2)] assms(3) by metis

text \<open>What a step of thread \<open>t\<close> has to show for the threads.\<close>

lemma thread_inv_upd:
  assumes inv: "thread_inv k w ps"
    and own: "\<And>b. owns p = Some b \<Longrightarrow> slot w' \<noteq> Some b \<and> (\<exists>bl. blocks w' b = Some bl \<and> stage k p bl)"
    and others: "\<And>u b. u \<noteq> t \<Longrightarrow> owns (ps u) = Some b \<Longrightarrow>
      slot w' \<noteq> Some b \<and> blocks w' b = blocks w b \<and> owns p \<noteq> Some b"
    and covered: "\<And>b. blocks w' b \<noteq> None \<Longrightarrow>
      slot w' = Some b \<or> owns p = Some b \<or> (\<exists>u. u \<noteq> t \<and> owns (ps u) = Some b)"
    and answers: "\<And>u b. answer ((ps(t := p)) u) = Some b \<Longrightarrow> slot w' = Some b"
  shows "thread_inv k w' (ps(t := p))"
  unfolding thread_inv_def
proof (intro conjI allI impI)
  fix u b assume o: "owns ((ps(t := p)) u) = Some b"
  show "slot w' \<noteq> Some b" using o own others by (cases "u = t") auto
  show "\<exists>bl. blocks w' b = Some bl \<and> stage k ((ps(t := p)) u) bl"
    using o own others [of u b] thread_invD(2) [OF inv, of u b] by (cases "u = t") auto
next
  fix u v b assume "owns ((ps(t := p)) u) = Some b" "owns ((ps(t := p)) v) = Some b"
  then show "u = v" using others [of u b] others [of v b] thread_invD(3) [OF inv, of u b v]
    by (cases "u = t"; cases "v = t") auto
next
  fix b assume "blocks w' b \<noteq> None"
  from covered [OF this] show "slot w' = Some b \<or> (\<exists>u. owns ((ps(t := p)) u) = Some b)"
  proof (elim disjE exE conjE)
    assume "owns p = Some b"
    then have "owns ((ps(t := p)) t) = Some b" by simp
    then show ?thesis by blast
  next
    fix u assume "u \<noteq> t" "owns (ps u) = Some b"
    then have "owns ((ps(t := p)) u) = Some b" by simp
    then show ?thesis by blast
  qed simp
qed (rule answers)

text \<open>A thread that moves on with the block it owns, or without one, and leaves the world alone.\<close>

lemma thread_inv_move:
  assumes inv: "thread_inv k w ps" and o: "owns p = owns (ps t)"
    and st: "\<And>b bl. owns p = Some b \<Longrightarrow> blocks w b = Some bl \<Longrightarrow> stage k (ps t) bl \<Longrightarrow> stage k p bl"
    and an: "\<And>b. answer p = Some b \<Longrightarrow> slot w = Some b"
  shows "thread_inv k w (ps(t := p))"
proof (rule thread_inv_upd [OF inv])
  show "slot w \<noteq> Some b \<and> (\<exists>bl. blocks w b = Some bl \<and> stage k p bl)" if "owns p = Some b" for b
    using that o thread_invD(1,2) [OF inv, of t b] st by auto
  show "slot w = Some b \<or> owns p = Some b \<or> (\<exists>u. u \<noteq> t \<and> owns (ps u) = Some b)"
    if "blocks w b \<noteq> None" for b
    using thread_invD(4) [OF inv that] o by auto
  show "slot w \<noteq> Some b \<and> blocks w b = blocks w b \<and> owns p \<noteq> Some b"
    if "u \<noteq> t" "owns (ps u) = Some b" for u b
    using that o thread_invD(1) [OF inv that(2)] thread_invD(3) [OF inv that(2), of t] by auto
  show "slot w = Some b" if "answer ((ps(t := p)) u) = Some b" for u b
    using that an thread_invD(5) [OF inv, of u b] by (cases "u = t") auto
qed

text \<open>A thread that changes the block it owns and nothing else.\<close>

lemma thread_inv_update:
  assumes inv: "thread_inv k w ps" and o: "owns (ps t) = Some b" "owns p = Some b" and "answer p = None"
    "stage k p bl" and w: "slot w' = slot w" "blocks w' = (blocks w)(b := Some bl)"
  shows "thread_inv k w' (ps(t := p))"
proof (rule thread_inv_upd [OF inv])
  show "slot w' \<noteq> Some c \<and> (\<exists>bl. blocks w' c = Some bl \<and> stage k p bl)" if "owns p = Some c" for c
    using that assms thread_invD(1) [OF inv o(1)] by auto
  show "slot w' = Some c \<or> owns p = Some c \<or> (\<exists>u. u \<noteq> t \<and> owns (ps u) = Some c)"
    if "blocks w' c \<noteq> None" for c
    using that thread_inv_covered [OF inv, of c t] o w by (cases "c = b") auto
  show "slot w' \<noteq> Some c \<and> blocks w' c = blocks w c \<and> owns p \<noteq> Some c"
    if "u \<noteq> t" "owns (ps u) = Some c" for u c
    using that o w thread_invD(1) [OF inv that(2)] thread_invD(3) [OF inv that(2), of t] by auto
  show "slot w' = Some c" if "answer ((ps(t := p)) u) = Some c" for u c
    using that assms(4) w thread_invD(5) [OF inv, of u c] by (cases "u = t") auto
qed

text \<open>A thread that gives its block back.\<close>

lemma thread_inv_destroy:
  assumes inv: "thread_inv k w ps" and o: "owns (ps t) = Some b" "owns p = None"
    and an: "answer p = answer (ps t)" and w: "slot w' = slot w" "blocks w' = (blocks w)(b := None)"
  shows "thread_inv k w' (ps(t := p))"
proof (rule thread_inv_upd [OF inv])
  show "slot w' = Some c \<or> owns p = Some c \<or> (\<exists>u. u \<noteq> t \<and> owns (ps u) = Some c)"
    if "blocks w' c \<noteq> None" for c
    using that thread_inv_covered [OF inv, of c t] o w by (cases "c = b") auto
  show "slot w' \<noteq> Some c \<and> blocks w' c = blocks w c \<and> owns p \<noteq> Some c"
    if "u \<noteq> t" "owns (ps u) = Some c" for u c
    using that o w thread_invD(1) [OF inv that(2)] thread_invD(3) [OF inv that(2), of t] by auto
  show "slot w' = Some c" if "answer ((ps(t := p)) u) = Some c" for u c
    using that an w thread_invD(5) [OF inv, of u c] thread_invD(5) [OF inv, of t c] by (cases "u = t") auto
qed (use o in simp)

section \<open>Every step keeps the invariant\<close>

lemma block_inv_update:
  assumes "block_inv k w" "blocks w b = Some bl0" "slot w \<noteq> Some b"
    "slot w' = slot w" "blocks w' = (blocks w)(b := Some bl)" "next_address w' = next_address w"
    "gates w' = (if gate_ready bl then insert b (gates w) else gates w - {b})"
    "handles w' = (handles w - {(b, False), (b, True)}) \<union>
       (if read_handle bl then {(b, False)} else {}) \<union> (if write_handle bl then {(b, True)} else {})"
  shows "block_inv k w'"
  using assms by (auto simp: block_inv_def)

lemma create_event_inv:
  assumes "block_inv k w" "blocks w b = Some bl" "slot w \<noteq> Some b" "gate_ready bl"
    "\<not> (if wr then write_handle bl else read_handle bl)"
  shows "block_inv k (create_event wr b ok w)"
proof (rule block_inv_update [OF assms(1-3)])
  show "blocks (create_event wr b ok w) =
      (blocks w)(b := Some (if wr then bl\<lparr>write_handle := ok\<rparr> else bl\<lparr>read_handle := ok\<rparr>))"
    using assms by (simp add: create_event_def)
  show "gates (create_event wr b ok w) =
      (if gate_ready (if wr then bl\<lparr>write_handle := ok\<rparr> else bl\<lparr>read_handle := ok\<rparr>)
       then insert b (gates w) else gates w - {b})"
    using assms by (auto simp: create_event_def block_inv_def)
  show "handles (create_event wr b ok w) = handles w - {(b, False), (b, True)} \<union>
      (if read_handle (if wr then bl\<lparr>write_handle := ok\<rparr> else bl\<lparr>read_handle := ok\<rparr>) then {(b, False)} else {}) \<union>
      (if write_handle (if wr then bl\<lparr>write_handle := ok\<rparr> else bl\<lparr>read_handle := ok\<rparr>) then {(b, True)} else {})"
    using assms by (auto simp: create_event_def block_inv_def)
qed (simp_all add: create_event_def Let_def)

lemma create_event_frame [simp]:
  "slot (create_event wr b ok w) = slot w"
  "blocks (create_event wr b ok w) = (blocks w)(b := Some
     (if wr then (the (blocks w b))\<lparr>write_handle := ok\<rparr> else (the (blocks w b))\<lparr>read_handle := ok\<rparr>))"
  by (simp_all add: create_event_def Let_def)

lemma destroy_frame [simp]:
  "slot (destroy_state k b w) = slot w"
  "blocks (destroy_state k b w) = (blocks w)(b := None)"
  by (simp_all add: destroy_state_def destroy_srw_state_def destroy_cv_state_def Let_def split: slot_kind.split)

lemma destroy_inv:
  assumes "block_inv k w" "blocks w b = Some bl" "slot w \<noteq> Some b"
    "k = Srw_Slot \<or> \<not> read_handle bl \<and> \<not> write_handle bl"
  shows "block_inv k (destroy_state k b w)"
proof -
  have "gates (destroy_state k b w) = gates w - {b}"
    by (simp add: destroy_state_def destroy_srw_state_def destroy_cv_state_def Let_def split: slot_kind.split)
  moreover have "handles (destroy_state k b w) = handles w - {(b, False), (b, True)}"
    using assms by (auto simp: destroy_state_def destroy_srw_state_def destroy_cv_state_def Let_def
        block_inv_def split: slot_kind.split if_splits)
  moreover have "next_address (destroy_state k b w) = next_address w"
    by (simp add: destroy_state_def destroy_srw_state_def destroy_cv_state_def Let_def split: slot_kind.split)
  ultimately show ?thesis using assms by (auto simp: block_inv_def)
qed

text \<open>
  The actions one by one: those that only move a thread, the allocation, those that change the state a
  thread owns, the exchange, and the destruction.
\<close>

lemma slot_move_inv:
  assumes b: "block_inv k w" and th: "thread_inv k w ps" and a: "slot_action k ok (ps t) w = Some (p, w')"
    and o: "owns (ps t) = None" "\<not> (ps t = GAlloc \<and> ok)"
  shows "block_inv k w' \<and> thread_inv k w' (ps(t := p))"
  using a b o thread_inv_move [OF th, of p t]
  by (cases "ps t") (auto split: option.splits)

lemma slot_alloc_inv:
  assumes b: "block_inv k w" and th: "thread_inv k w ps" and a: "slot_action k True GAlloc w = Some (p, w')"
    and t: "ps t = GAlloc"
  shows "block_inv k w' \<and> thread_inv k w' (ps(t := p))"
proof
  let ?b = "next_address w"
  have fresh: "blocks w ?b = None" "slot w \<noteq> Some ?b" using b by (fastforce simp: block_inv_def)+
  have p: "p = GGate ?b" and w': "slot w' = slot w" "blocks w' = (blocks w)(?b := Some
      \<lparr>gate_ready = False, read_handle = False, write_handle = False\<rparr>)"
    "gates w' = gates w" "handles w' = handles w" "next_address w' = Suc ?b"
    using a by (auto simp: Let_def)
  show "block_inv k w'" using b fresh by (auto simp: block_inv_def w' less_Suc_eq)
  show "thread_inv k w' (ps(t := p))"
  proof (rule thread_inv_upd [OF th])
    show "slot w' = Some c \<or> owns p = Some c \<or> (\<exists>u. u \<noteq> t \<and> owns (ps u) = Some c)"
      if "blocks w' c \<noteq> None" for c
      using that thread_inv_covered [OF th, of c t] t p w' by (cases "c = ?b") auto
    show "slot w' \<noteq> Some c \<and> blocks w' c = blocks w c \<and> owns p \<noteq> Some c"
      if "u \<noteq> t" "owns (ps u) = Some c" for u c
      using that thread_invD(1,2) [OF th that(2)] fresh p w' by auto
    show "slot w' = Some c" if "answer ((ps(t := p)) u) = Some c" for u c
      using that thread_invD(5) [OF th, of u c] p w' by (cases "u = t") auto
  qed (use fresh p w' in auto)
qed

lemma slot_build_inv:
  assumes b: "block_inv k w" and th: "thread_inv k w ps" and a: "slot_action k ok (ps t) w = Some (p, w')"
    and bl: "blocks w c = Some bl" "stage k (ps t) bl" "slot w \<noteq> Some c"
    and t: "ps t = GGate c \<or> ps t = GReadEvent c \<or> ps t = GWriteEvent c \<or> ps t = GCheck c"
  shows "block_inv k w' \<and> thread_inv k w' (ps(t := p))"
  using t
proof (elim disjE)
  assume t: "ps t = GGate c"
  have "block_inv k w'"
    by (rule block_inv_update [OF b bl(1,3)]) (use a bl t b in \<open>auto simp: block_inv_def split: if_splits\<close>)
  moreover have "thread_inv k w' (ps(t := p))"
    by (rule thread_inv_update [OF th, of t c p "bl\<lparr>gate_ready := True\<rparr>"])
      (use a bl t in \<open>auto simp: complete_def split: slot_kind.splits\<close>)
  ultimately show ?thesis ..
next
  assume t: "ps t = GReadEvent c"
  have "thread_inv k w' (ps(t := p))"
    by (rule thread_inv_update [OF th, of t c p "bl\<lparr>read_handle := ok\<rparr>"]) (use a bl t in auto)
  then show ?thesis using create_event_inv [OF b bl(1,3), of False ok] a bl t by auto
next
  assume t: "ps t = GWriteEvent c"
  have "thread_inv k w' (ps(t := p))"
    by (rule thread_inv_update [OF th, of t c p "bl\<lparr>write_handle := ok\<rparr>"]) (use a bl t in auto)
  then show ?thesis using create_event_inv [OF b bl(1,3), of True ok] a bl t by auto
next
  assume t: "ps t = GCheck c"
  have "w' = w" "p = (if \<not> read_handle bl \<or> \<not> write_handle bl then GFailed c else GSwap c)"
    using a bl(1) t by (auto simp: Let_def)
  moreover have "thread_inv k w (ps(t := p))"
    by (rule thread_inv_move [OF th]) (use calculation bl t in \<open>auto simp: complete_def split: if_splits\<close>)
  ultimately show ?thesis using b by simp
qed

lemma slot_swap_inv:
  assumes b: "block_inv k w" and th: "thread_inv k w ps" and a: "slot_action k ok (GSwap c) w = Some (p, w')"
    and bl: "blocks w c = Some bl" "stage k (ps t) bl" "slot w \<noteq> Some c" and t: "ps t = GSwap c"
  shows "block_inv k w' \<and> thread_inv k w' (ps(t := p))"
proof (cases "slot w")
  case (Some d)
  then show ?thesis using a b t thread_inv_move [OF th, of p t] by auto
next
  case None
  then have p: "p = GDone (Some c)" "w' = w\<lparr>slot := Some c\<rparr>" using a by auto
  have "block_inv k w'" using b bl p t by (auto simp: block_inv_def)
  moreover have "thread_inv k w' (ps(t := p))"
  proof (rule thread_inv_upd [OF th])
    show "slot w' = Some x \<or> owns p = Some x \<or> (\<exists>u. u \<noteq> t \<and> owns (ps u) = Some x)"
      if "blocks w' x \<noteq> None" for x
      using that thread_inv_covered [OF th, of x t] t p None by (cases "x = c") auto
    show "slot w' \<noteq> Some x \<and> blocks w' x = blocks w x \<and> owns p \<noteq> Some x"
      if "u \<noteq> t" "owns (ps u) = Some x" for u x
      using that thread_invD(3) [OF th that(2), of t] t p by auto
    show "slot w' = Some x" if "answer ((ps(t := p)) u) = Some x" for u x
      using that thread_invD(5) [OF th, of u x] p None by (cases "u = t") auto
  qed (use p in auto)
  ultimately show ?thesis ..
qed

lemma slot_destroy_inv:
  assumes b: "block_inv k w" and th: "thread_inv k w ps" and a: "slot_action k ok (ps t) w = Some (p, w')"
    and bl: "blocks w c = Some bl" "stage k (ps t) bl" "slot w \<noteq> Some c"
    and t: "ps t = GLost c d \<or> ps t = GFailed c"
  shows "block_inv k w' \<and> thread_inv k w' (ps(t := p))"
proof -
  have "w' = destroy_state k c w" using a t by auto
  moreover have "block_inv k (destroy_state k c w)"
    by (rule destroy_inv [OF b bl(1,3)]) (use bl(2) t in \<open>cases k; auto simp: complete_def\<close>)
  moreover have "thread_inv k w' (ps(t := p))"
    by (rule thread_inv_destroy [OF th, of t c]) (use a t in auto)
  ultimately show ?thesis by simp
qed

lemma slot_action_inv:
  assumes b: "block_inv k w" and th: "thread_inv k w ps" and a: "slot_action k ok (ps t) w = Some (p, w')"
  shows "block_inv k w' \<and> thread_inv k w' (ps(t := p))"
proof (cases "owns (ps t)")
  case None
  show ?thesis
  proof (cases "ps t = GAlloc \<and> ok")
    case True
    with a have "slot_action k True GAlloc w = Some (p, w')" by (simp del: slot_action.simps)
    with True show ?thesis by (intro slot_alloc_inv [OF b th]) simp_all
  qed (rule slot_move_inv [OF b th a None])
next
  case (Some c)
  then obtain bl where bl: "blocks w c = Some bl" "stage k (ps t) bl" "slot w \<noteq> Some c"
    using thread_invD(1,2) [OF th Some] by blast
  note build = slot_build_inv [OF b th a bl] and destroy = slot_destroy_inv [OF b th a bl]
  from Some show ?thesis
    using build destroy slot_swap_inv [OF b th _ bl, of ok p w'] a by (cases "ps t") auto
qed

lemma slot_step_inv: "slot_step k s s' \<Longrightarrow> slot_inv k s \<Longrightarrow> slot_inv k s'"
proof (erule slot_step.cases)
  fix ok t p w assume "s' = \<lparr>world = w, gpcs = (gpcs s)(t := p)\<rparr>"
    "slot_action k ok (gpcs s t) (world s) = Some (p, w)" "slot_inv k s"
  then show "slot_inv k s'" using slot_action_inv [of k "world s" "gpcs s" ok t p w] by (simp add: slot_inv_def)
next
  fix t r assume "s' = s\<lparr>gpcs := (gpcs s)(t := GIdle)\<rparr>" "gpcs s t = GDone r" "slot_inv k s"
  then show "slot_inv k s'"
    using thread_inv_move [of k "world s" "gpcs s" GIdle t] by (simp add: slot_inv_def)
qed

interpretation slots: inductive_invariant "\<lambda>s. s = slot_start" "slot_step k" "slot_inv k" for k
  by unfold_locales (auto simp: slot_inv_start intro: slot_step_inv)

section \<open>Properties\<close>

text \<open>Runs, for concrete executions: the threads in the order in which they act, with their luck.\<close>

fun slot_run :: "slot_kind \<Rightarrow> (nat \<times> bool) list \<Rightarrow> slot_sys \<Rightarrow> slot_sys option" where
  "slot_run k [] s = Some s"
| "slot_run k ((t, ok) # rest) s =
     (case slot_action k ok (gpcs s t) (world s) of
        None \<Rightarrow> None
      | Some (p, w) \<Rightarrow> slot_run k rest \<lparr>world = w, gpcs = (gpcs s)(t := p)\<rparr>)"

lemma slot_run_reachable:
  "slot_reachable k s \<Longrightarrow> slot_run k acts s = Some s' \<Longrightarrow> slot_reachable k s'"
proof (induction acts arbitrary: s)
  case (Cons a acts)
  obtain t ok where a: "a = (t, ok)" by (cases a)
  then obtain p w where step: "slot_action k ok (gpcs s t) (world s) = Some (p, w)"
    and rest: "slot_run k acts \<lparr>world = w, gpcs = (gpcs s)(t := p)\<rparr> = Some s'"
    using Cons.prems(2) by (auto split: option.splits)
  have "slot_reachable k \<lparr>world = w, gpcs = (gpcs s)(t := p)\<rparr>"
    by (rule reach_step [OF Cons.prems(1) slot_step.act]) (rule step)
  then show ?case by (rule Cons.IH) (rule rest)
qed simp

lemma slot_run_start: "slot_run k acts slot_start = Some s' \<Longrightarrow> slot_reachable k s'"
  by (rule slot_run_reachable [OF reach_init]) simp_all

text \<open>
  However the threads race, all that get a state get the same one, which is the one in the
  slot, and it is completely initialised: its critical section, and for a lock both its events.
\<close>

theorem slot_single_state:
  assumes "slot_reachable k s" "gpcs s t = GDone (Some a)" "gpcs s u = GDone (Some b)"
  shows "a = b \<and> slot (world s) = Some a \<and> (\<exists>bl. blocks (world s) a = Some bl \<and> complete k bl)"
proof -
  have i: "block_inv k (world s)" "thread_inv k (world s) (gpcs s)"
    using slots.reach_inv [OF assms(1)] by (simp_all add: slot_inv_def)
  have "slot (world s) = Some a" "slot (world s) = Some b"
    using thread_invD(5) [OF i(2), of t a] thread_invD(5) [OF i(2), of u b] assms(2,3) by simp_all
  then show ?thesis using i(1) by (simp add: block_inv_def)
qed

text \<open>Two threads that both find the slot empty; thread 2 wins it.\<close>

definition slot_race :: "(nat \<times> bool) list" where
  "slot_race = [(1, True), (2, True), (1, True), (2, True), (1, True), (2, True), (1, True), (2, True),
     (1, True), (2, True), (1, True), (2, True), (2, True), (1, True), (2, True), (1, True), (1, True)]"

lemmas slot_eval = slot_race_def slot_start_def create_event_def destroy_state_def
  destroy_srw_state_def destroy_cv_state_def complete_def Let_def

lemma slot_race_ends:
  "\<exists>s. slot_run Srw_Slot slot_race slot_start = Some s \<and> gpcs s 1 = GDone (Some 2) \<and>
     gpcs s 2 = GDone (Some 2) \<and> (\<forall>t. owns (gpcs s t) = None)"
  by (simp add: slot_eval)

theorem slot_single_state_witness:
  "\<exists>s. slot_run Srw_Slot slot_race slot_start = Some s \<and> slot (world s) = Some 2 \<and>
     (\<exists>bl. blocks (world s) 2 = Some bl \<and> complete Srw_Slot bl)"
proof -
  obtain s where s: "slot_run Srw_Slot slot_race slot_start = Some s" "gpcs s 1 = GDone (Some 2)"
    "gpcs s 2 = GDone (Some 2)"
    using slot_race_ends by blast
  from slot_single_state [OF slot_run_start [OF s(1)] s(2,3)] s(1) show ?thesis by blast
qed

text \<open>
  C11: When no thread is building a state, whatever calls failed or lost the race before, the only
  block, critical section and events in existence are those of the state in the slot: every
  state that was not installed has been given back with all it had acquired.
\<close>

theorem slot_no_leak:
  assumes "slot_reachable k s" "\<forall>t. owns (gpcs s t) = None"
  shows "{b. blocks (world s) b \<noteq> None} = set_option (slot (world s)) \<and>
         gates (world s) = set_option (slot (world s)) \<and>
         handles (world s) = (if k = Srw_Slot then set_option (slot (world s)) \<times> UNIV else {})"
proof -
  have i: "block_inv k (world s)" "thread_inv k (world s) (gpcs s)"
    using slots.reach_inv [OF assms(1)] by (simp_all add: slot_inv_def)
  have live: "blocks (world s) b \<noteq> None \<longleftrightarrow> slot (world s) = Some b" for b
    using thread_invD(4) [OF i(2), of b] assms(2) i(1) by (auto simp: block_inv_def)
  have block: "\<exists>bl. blocks (world s) b = Some bl \<and> complete k bl" if "slot (world s) = Some b" for b
    using i(1) that by (simp add: block_inv_def)
  have g: "b \<in> gates (world s) \<longleftrightarrow> slot (world s) = Some b" for b
    using live [of b] block [of b] i(1) by (auto simp: block_inv_def complete_def)
  have h: "(b, wr) \<in> handles (world s) \<longleftrightarrow> k = Srw_Slot \<and> slot (world s) = Some b" for b wr
    using live [of b] block [of b] i(1) by (cases wr) (auto simp: block_inv_def complete_def)
  show ?thesis using live g h by (auto simp: elem_set)
qed

theorem slot_no_leak_witness:
  "\<exists>s. slot_run Srw_Slot slot_race slot_start = Some s \<and>
     gates (world s) = set_option (slot (world s)) \<and>
     handles (world s) = set_option (slot (world s)) \<times> UNIV"
proof -
  obtain s where s: "slot_run Srw_Slot slot_race slot_start = Some s" "\<forall>t. owns (gpcs s t) = None"
    using slot_race_ends by blast
  from slot_no_leak [OF slot_run_start [OF s(1)] s(2)] s(1) show ?thesis by auto
qed

end
