(* ===== verification/Cond_Var.thy ===== *)
theory Cond_Var
  imports W2K_Prelude
begin

text \<open>
  The condition variable of \<open>compat/w2k_sync.c\<close>. Its state \<open>W2K_CV_STATE\<close> is a singly
  linked queue of waiters with a head and a tail; a waiter is a local variable of
  \<open>wait_cv_common\<close>, named here by its thread, with its link, its \<open>queued\<close> flag and its
  auto-reset event. The sections under the gate are functions on that state (nothing in them
  blocks), and \<open>cv_step\<close> interleaves waiting, timing out and waking.
\<close>

section \<open>The queue\<close>

record cv_queue =
  q_head :: "nat option"
  q_tail :: "nat option"
  q_next :: "nat \<Rightarrow> nat option"
  queued :: "nat \<Rightarrow> bool"
  event :: "nat \<Rightarrow> bool"

definition new_cv_queue :: cv_queue where
  "new_cv_queue = \<lparr>q_head = None, q_tail = None, q_next = \<lambda>_. None, queued = \<lambda>_. False,
     event = \<lambda>_. False\<rparr>"

text \<open>The start of \<open>wait_cv_common\<close>: the waiter is initialised and appended.\<close>

definition enqueue_waiter :: "nat \<Rightarrow> cv_queue \<Rightarrow> cv_queue" where
  "enqueue_waiter w q =
     (let q = q\<lparr>q_next := (q_next q)(w := None), queued := (queued q)(w := True),
                event := (event q)(w := False)\<rparr>;
          q = (case q_tail q of
                 Some t \<Rightarrow> q\<lparr>q_next := (q_next q)(t := Some w)\<rparr>
               | None \<Rightarrow> q\<lparr>q_head := Some w\<rparr>) in
        q\<lparr>q_tail := Some w\<rparr>)"

definition unlink_waiter :: "nat \<Rightarrow> nat option \<Rightarrow> cv_queue \<Rightarrow> cv_queue" where
  "unlink_waiter current previous q =
     (let q = (case previous of
                 Some p \<Rightarrow> q\<lparr>q_next := (q_next q)(p := q_next q current)\<rparr>
               | None \<Rightarrow> q\<lparr>q_head := q_next q current\<rparr>);
          q = (if q_tail q = Some current then q\<lparr>q_tail := previous\<rparr> else q) in
        q\<lparr>q_next := (q_next q)(current := None), queued := (queued q)(current := False)\<rparr>)"

text \<open>The loop of \<open>remove_waiter\<close>; \<open>None\<close> when it does not end.\<close>

partial_function (option) remove_loop ::
  "nat \<Rightarrow> cv_queue \<Rightarrow> nat option \<Rightarrow> nat option \<Rightarrow> cv_queue option" where
  "remove_loop waiter q current previous =
     (case current of
        None \<Rightarrow> Some q
      | Some c \<Rightarrow>
          if c = waiter then Some (unlink_waiter c previous q)
          else remove_loop waiter q (q_next q c) current)"

definition remove_waiter :: "nat \<Rightarrow> cv_queue \<Rightarrow> cv_queue option" where
  "remove_waiter waiter q = remove_loop waiter q (q_head q) None"

definition set_event :: "nat \<Rightarrow> cv_queue \<Rightarrow> cv_queue" where
  "set_event w q = q\<lparr>event := (event q)(w := True)\<rparr>"

text \<open>\<open>W2KWakeConditionVariable\<close>: the state and the waiter it woke.\<close>

definition wake_one :: "cv_queue \<Rightarrow> (cv_queue \<times> nat option) option" where
  "wake_one q =
     (case q_head q of
        None \<Rightarrow> Some (q, None)
      | Some w \<Rightarrow> map_option (\<lambda>q. (set_event w q, Some w)) (remove_waiter w q))"

text \<open>\<open>W2KWakeAllConditionVariable\<close>: the loop over the detached list, with those it woke.\<close>

partial_function (option) wake_loop ::
  "cv_queue \<Rightarrow> nat option \<Rightarrow> nat list \<Rightarrow> (cv_queue \<times> nat list) option" where
  "wake_loop q waiter woken =
     (case waiter of
        None \<Rightarrow> Some (q, woken)
      | Some w \<Rightarrow>
          (let after = q_next q w;
               q = q\<lparr>q_next := (q_next q)(w := None), queued := (queued q)(w := False)\<rparr> in
             wake_loop (set_event w q) after (woken @ [w])))"

definition wake_all :: "cv_queue \<Rightarrow> (cv_queue \<times> nat list) option" where
  "wake_all q =
     (let waiter = q_head q; q = q\<lparr>q_head := None, q_tail := None\<rparr> in wake_loop q waiter [])"

text \<open>The end of \<open>wait_cv_common\<close>, after the wait: the queue and \<open>signaled\<close>.\<close>

definition leave_wait :: "nat \<Rightarrow> bool \<Rightarrow> cv_queue \<Rightarrow> (cv_queue \<times> bool) option" where
  "leave_wait w got_event q =
     (if queued q w then map_option (\<lambda>q. (q, got_event)) (remove_waiter w q)
      else Some (q, True))"

section \<open>The list that the queue stands for\<close>

fun path :: "(nat \<Rightarrow> nat option) \<Rightarrow> nat option \<Rightarrow> nat list \<Rightarrow> nat option \<Rightarrow> bool" where
  "path n p [] r \<longleftrightarrow> p = r"
| "path n p (x # xs) r \<longleftrightarrow> p = Some x \<and> path n (n x) xs r"

definition waiting :: "cv_queue \<Rightarrow> nat list \<Rightarrow> bool" where
  "waiting q ws \<longleftrightarrow>
     distinct ws \<and> path (q_next q) (q_head q) ws None \<and>
     q_tail q = (if ws = [] then None else Some (last ws)) \<and>
     (\<forall>w. queued q w \<longleftrightarrow> w \<in> set ws)"

lemma path_append: "path n p (xs @ ys) r \<longleftrightarrow> (\<exists>m. path n p xs m \<and> path n m ys r)"
  by (induction xs arbitrary: p) auto

lemma path_cong:
  "(\<And>x. x \<in> set xs \<Longrightarrow> n' x = n x) \<Longrightarrow> path n' p xs r = path n p xs r"
  by (induction xs arbitrary: p) auto

text \<open>Redirecting the last link of a path.\<close>

lemma path_redirect:
  assumes "path n p (xs @ [x]) m" and "x \<notin> set xs"
  shows "path (n(x := r)) p (xs @ [x]) r"
proof -
  have "path n p xs (Some x)" using assms(1) by (auto simp: path_append)
  then have "path (n(x := r)) p xs (Some x)" using assms(2) by (subst path_cong [of xs _ n]) auto
  then show ?thesis by (simp add: path_append)
qed

lemma waiting_new: "waiting new_cv_queue []"
  by (simp add: waiting_def new_cv_queue_def)

lemma waiting_enqueue:
  assumes "waiting q ws" and "w \<notin> set ws"
  shows "waiting (enqueue_waiter w q) (ws @ [w])"
proof (cases ws rule: rev_cases)
  case Nil
  then show ?thesis using assms by (auto simp: waiting_def enqueue_waiter_def)
next
  case (snoc xs x)
  let ?n = "(q_next q)(w := None)"
  have "path ?n (q_head q) (xs @ [x]) None"
    using assms by (subst path_cong [of _ _ "q_next q"]) (auto simp: waiting_def snoc)
  moreover have "x \<notin> set xs" using assms(1) by (simp add: waiting_def snoc)
  ultimately have "path (?n(x := Some w)) (q_head q) (xs @ [x]) (Some w)" by (rule path_redirect)
  moreover have "w \<noteq> x" using assms(2) by (simp add: snoc)
  ultimately have "path (?n(x := Some w)) (q_head q) ((xs @ [x]) @ [w]) None"
    unfolding path_append by (intro exI [of _ "Some w"]) simp
  moreover have "q_tail q = Some x" using assms(1) by (simp add: waiting_def snoc)
  ultimately show ?thesis using assms
    by (auto simp: waiting_def enqueue_waiter_def snoc Let_def)
qed

lemma remove_loop_finds:
  assumes "path (q_next q) cur (xs @ w # ys) None" and "w \<notin> set xs"
  shows "remove_loop w q cur prev =
    Some (unlink_waiter w (if xs = [] then prev else Some (last xs)) q)"
  using assms
proof (induction xs arbitrary: cur prev)
  case Nil
  then show ?case by (simp add: remove_loop.simps)
next
  case (Cons x xs)
  then have "cur = Some x" "x \<noteq> w" "path (q_next q) (q_next q x) (xs @ w # ys) None" "w \<notin> set xs"
    by auto
  with Cons.IH [of "q_next q x" "Some x"] show ?case by (subst remove_loop.simps) simp
qed

lemma waiting_unlink:
  assumes "waiting q (xs @ w # ys)"
  shows "waiting (unlink_waiter w (if xs = [] then None else Some (last xs)) q) (xs @ ys)"
proof -
  have d: "distinct (xs @ w # ys)" and t: "q_tail q = Some (last (w # ys))"
    and f: "\<And>v. queued q v \<longleftrightarrow> v \<in> set (xs @ w # ys)"
    using assms by (auto simp: waiting_def)
  from assms have p: "path (q_next q) (q_head q) xs (Some w)" "path (q_next q) (q_next q w) ys None"
    by (auto simp: waiting_def path_append)
  have tail: "Some (last (w # ys)) = Some w \<longleftrightarrow> ys = []" using d by auto
  show ?thesis
  proof (cases xs rule: rev_cases)
    case Nil
    have "path ((q_next q)(w := None)) (q_next q w) ys None"
      using p(2) d by (subst path_cong [of _ _ "q_next q"]) auto
    then show ?thesis using d f t tail
      by (auto simp: waiting_def unlink_waiter_def Let_def Nil)
  next
    case (snoc zs z)
    let ?n = "(q_next q)(z := q_next q w, w := None)"
    have zw: "z \<noteq> w" "z \<notin> set zs" "z \<notin> set ys" using d by (auto simp: snoc)
    have "path ((q_next q)(z := q_next q w)) (q_head q) (zs @ [z]) (q_next q w)"
      using p(1) zw unfolding snoc by (intro path_redirect [of _ _ _ _ "Some w"])
    then have "path ?n (q_head q) (zs @ [z]) (q_next q w)"
      using d by (subst path_cong [of _ _ "(q_next q)(z := q_next q w)"]) (auto simp: snoc)
    moreover have "path ?n (q_next q w) ys None"
      using p(2) d zw by (subst path_cong [of _ _ "q_next q"]) auto
    ultimately have "path ?n (q_head q) (xs @ ys) None" unfolding snoc path_append by blast
    then show ?thesis using d f t tail
      by (auto simp: waiting_def unlink_waiter_def Let_def snoc)
  qed
qed

lemma unlink_event [simp]: "event (unlink_waiter w prev q) = event q"
  by (simp add: unlink_waiter_def Let_def split: option.split)

lemma waiting_remove:
  assumes "waiting q ws" and "w \<in> set ws"
  shows "\<exists>q'. remove_waiter w q = Some q' \<and> waiting q' (remove1 w ws) \<and> event q' = event q"
proof -
  obtain xs ys where ws: "ws = xs @ w # ys" and w: "w \<notin> set xs"
    using assms(2) by (meson split_list_first)
  have "path (q_next q) (q_head q) (xs @ w # ys) None" using assms(1) by (simp add: waiting_def ws)
  from remove_loop_finds [OF this w, of None] waiting_unlink [OF assms(1) [unfolded ws]]
  show ?thesis using w by (simp add: remove_waiter_def ws remove1_append)
qed

lemma waiting_head: "waiting q ws \<Longrightarrow> q_head q = (case ws of [] \<Rightarrow> None | w # _ \<Rightarrow> Some w)"
  by (cases ws) (auto simp: waiting_def)

lemma waiting_event: "waiting q ws \<Longrightarrow> waiting (set_event w q) ws"
  by (simp add: waiting_def set_event_def)

text \<open>
  The interface of a queue of waiters: what stands for which list, its head, appending, and
  removing from anywhere.
\<close>

locale wait_queue =
  fixes rep :: "'q \<Rightarrow> nat list \<Rightarrow> bool"
    and front :: "'q \<Rightarrow> nat option"
    and append_w :: "nat \<Rightarrow> 'q \<Rightarrow> 'q"
    and remove_w :: "nat \<Rightarrow> 'q \<Rightarrow> 'q option"
  assumes rep_front: "rep q ws \<Longrightarrow> front q = (case ws of [] \<Rightarrow> None | w # _ \<Rightarrow> Some w)"
    and rep_append: "rep q ws \<Longrightarrow> w \<notin> set ws \<Longrightarrow> rep (append_w w q) (ws @ [w])"
    and rep_remove: "rep q ws \<Longrightarrow> w \<in> set ws \<Longrightarrow> \<exists>q'. remove_w w q = Some q' \<and> rep q' (remove1 w ws)"
begin

text \<open>Taking the front is first in, first out.\<close>

lemma take_front:
  assumes "rep q (w # ws)"
  obtains q' where "front q = Some w" "remove_w w q = Some q'" "rep q' ws"
  using rep_front [OF assms] rep_remove [OF assms, of w] by auto

lemma drain:
  assumes "rep q ws"
  shows "\<exists>q'. foldl (\<lambda>qo w. Option.bind qo (remove_w w)) (Some q) ws = Some q' \<and> rep q' []"
  using assms
proof (induction ws arbitrary: q)
  case (Cons w ws)
  obtain q1 where q1: "remove_w w q = Some q1" "rep q1 ws" using take_front [OF Cons.prems] by blast
  with Cons.IH [OF q1(2)] show ?case by simp
qed auto

end

interpretation cv: wait_queue waiting q_head enqueue_waiter remove_waiter
  by unfold_locales (use waiting_head waiting_enqueue waiting_remove in blast)+

lemma waiting_wake_one:
  assumes "waiting q ws"
  shows "case ws of
      [] \<Rightarrow> wake_one q = Some (q, None)
    | w # rest \<Rightarrow> \<exists>q'. wake_one q = Some (q', Some w) \<and> waiting q' rest \<and>
        event q' = (event q)(w := True)"
proof (cases ws)
  case Nil
  then show ?thesis using cv.rep_front [OF assms] by (simp add: wake_one_def)
next
  case (Cons w rest)
  obtain q' where "remove_waiter w q = Some q'" "waiting q' rest" "event q' = event q"
    using waiting_remove [OF assms, of w] Cons by auto
  then show ?thesis using cv.rep_front [OF assms] Cons
    by (simp add: wake_one_def waiting_event) (simp add: set_event_def)
qed

lemma wake_loop_all:
  assumes "path (q_next q) p ws None" and "distinct ws"
  shows "\<exists>q'. wake_loop q p woken = Some (q', woken @ ws) \<and> q_head q' = q_head q \<and>
    q_tail q' = q_tail q \<and> queued q' = (\<lambda>w. queued q w \<and> w \<notin> set ws) \<and>
    event q' = (\<lambda>w. event q w \<or> w \<in> set ws)"
  using assms
proof (induction ws arbitrary: q p woken)
  case Nil
  then show ?case by (simp add: wake_loop.simps)
next
  case (Cons w ws)
  let ?q = "set_event w (q\<lparr>q_next := (q_next q)(w := None), queued := (queued q)(w := False)\<rparr>)"
  have "path (q_next ?q) (q_next q w) ws None"
    using Cons.prems by (subst path_cong [of _ _ "q_next q"]) (auto simp: set_event_def)
  from Cons.IH [OF this, of "woken @ [w]"] Cons.prems show ?case
    by (subst wake_loop.simps) (auto simp: Let_def set_event_def fun_eq_iff)
qed

lemma waiting_wake_all:
  assumes "waiting q ws"
  shows "\<exists>q'. wake_all q = Some (q', ws) \<and> waiting q' [] \<and>
    event q' = (\<lambda>w. event q w \<or> w \<in> set ws)"
proof -
  have "path (q_next q) (q_head q) ws None" "distinct ws" using assms by (auto simp: waiting_def)
  with wake_loop_all [of "q\<lparr>q_head := None, q_tail := None\<rparr>" "q_head q" ws "[]"]
  show ?thesis using assms by (fastforce simp: wake_all_def Let_def waiting_def)
qed

section \<open>Any sequence of queue operations\<close>

datatype cv_op = Enqueue nat | Remove nat | Wake | WakeAll

text \<open>The operation on the pointers, with the waiters it wakes, and on the list.\<close>

fun cv_apply :: "cv_op \<Rightarrow> cv_queue \<Rightarrow> (cv_queue \<times> nat list) option" where
  "cv_apply (Enqueue w) q = Some (enqueue_waiter w q, [])"
| "cv_apply (Remove w) q = map_option (\<lambda>q. (q, [])) (remove_waiter w q)"
| "cv_apply Wake q =
     map_option (\<lambda>(q, w). (q, case w of None \<Rightarrow> [] | Some w \<Rightarrow> [w])) (wake_one q)"
| "cv_apply WakeAll q = wake_all q"

fun cv_spec :: "cv_op \<Rightarrow> nat list \<Rightarrow> (nat list \<times> nat list) option" where
  "cv_spec (Enqueue w) ws = (if w \<in> set ws then None else Some (ws @ [w], []))"
| "cv_spec (Remove w) ws = (if w \<in> set ws then Some (remove1 w ws, []) else None)"
| "cv_spec Wake ws = Some (tl ws, take 1 ws)"
| "cv_spec WakeAll ws = Some ([], ws)"

fun cv_applies :: "cv_op list \<Rightarrow> cv_queue \<Rightarrow> (cv_queue \<times> nat list) option" where
  "cv_applies [] q = Some (q, [])"
| "cv_applies (op # ops) q =
     (case cv_apply op q of
        None \<Rightarrow> None
      | Some (q, woken) \<Rightarrow> map_option (\<lambda>(q, more). (q, woken @ more)) (cv_applies ops q))"

fun cv_specs :: "cv_op list \<Rightarrow> nat list \<Rightarrow> (nat list \<times> nat list) option" where
  "cv_specs [] ws = Some (ws, [])"
| "cv_specs (op # ops) ws =
     (case cv_spec op ws of
        None \<Rightarrow> None
      | Some (ws, woken) \<Rightarrow> map_option (\<lambda>(ws, more). (ws, woken @ more)) (cv_specs ops ws))"

lemma cv_apply_spec:
  assumes "waiting q ws" and "cv_spec op ws = Some (ws', woken)"
  shows "\<exists>q'. cv_apply op q = Some (q', woken) \<and> waiting q' ws'"
proof (cases op)
  case (Enqueue w)
  then show ?thesis using assms cv.rep_append [OF assms(1), of w] by (auto split: if_splits)
next
  case (Remove w)
  then show ?thesis using assms waiting_remove [OF assms(1), of w] by (auto split: if_splits)
next
  case Wake
  then show ?thesis using assms waiting_wake_one [OF assms(1)] by (cases ws) auto
next
  case WakeAll
  then show ?thesis using assms waiting_wake_all [OF assms(1)] by auto
qed

lemma cv_applies_spec:
  assumes "waiting q ws" and "cv_specs ops ws = Some (ws', woken)"
  shows "\<exists>q'. cv_applies ops q = Some (q', woken) \<and> waiting q' ws'"
  using assms
proof (induction ops arbitrary: q ws woken)
  case (Cons op ops)
  then obtain ws1 w1 w2 where s: "cv_spec op ws = Some (ws1, w1)" "cv_specs ops ws1 = Some (ws', w2)"
      "woken = w1 @ w2" by (auto split: option.splits)
  obtain q1 where q1: "cv_apply op q = Some (q1, w1)" "waiting q1 ws1"
    using cv_apply_spec [OF Cons.prems(1) s(1)] by blast
  from Cons.IH [OF q1(2) s(2)] q1(1) s(3) show ?case by auto
qed simp

text \<open>
  The linked queue is a first-in, first-out queue of threads. After any sequence of
  appending new waiters, removing present ones, waking one and waking all, every loop over the
  links has ended, the waiters woken are those a plain list gives, in the same order, and the
  \<open>queued\<close> flags say exactly who is left.
\<close>

theorem cv_queue_is_fifo:
  assumes "cv_specs ops [] = Some (ws, woken)"
  shows "\<exists>q. cv_applies ops new_cv_queue = Some (q, woken) \<and>
    (\<forall>w. queued q w \<longleftrightarrow> w \<in> set ws) \<and>
    q_head q = (case ws of [] \<Rightarrow> None | w # _ \<Rightarrow> Some w) \<and> wake_all q \<noteq> None"
proof -
  obtain q where q: "cv_applies ops new_cv_queue = Some (q, woken)" "waiting q ws"
    using cv_applies_spec [OF waiting_new assms] by blast
  then show ?thesis using cv.rep_front [OF q(2)] waiting_wake_all [OF q(2)]
    by (auto simp: waiting_def)
qed

theorem cv_queue_is_fifo_witness:
  "\<exists>q. cv_applies [Enqueue 1, Enqueue 2, Enqueue 3, Remove 2, Wake, Enqueue 4, WakeAll] new_cv_queue =
     Some (q, [1, 3, 4]) \<and> q_head q = None"
  using cv_queue_is_fifo [of "[Enqueue 1, Enqueue 2, Enqueue 3, Remove 2, Wake, Enqueue 4, WakeAll]"
      "[]" "[1, 3, 4]"] by (auto simp del: cv_applies.simps)

section \<open>Threads\<close>

text \<open>
  Outside; in \<open>WaitForSingleObject\<close>; past it, with whether the event was obtained (otherwise
  the wait timed out or failed).
\<close>

datatype cv_pc = COut | CWait | CDone bool

text \<open>
  Two counters record what happened: the waiters that wake calls have dequeued, and the waits
  that returned TRUE.
\<close>

record cv_sys =
  cvq :: cv_queue
  cpcs :: "nat \<Rightarrow> cv_pc"
  dequeued :: int
  returned :: int

definition cv_start :: cv_sys where
  "cv_start = \<lparr>cvq = new_cv_queue, cpcs = (\<lambda>_. COut), dequeued = 0, returned = 0\<rparr>"

inductive cv_step :: "cv_sys \<Rightarrow> cv_sys \<Rightarrow> bool" for s :: cv_sys where
  wait: "cpcs s t = COut \<Longrightarrow>
    cv_step s (s\<lparr>cvq := enqueue_waiter t (cvq s), cpcs := (cpcs s)(t := CWait)\<rparr>)"
| granted: "cpcs s t = CWait \<Longrightarrow> event (cvq s) t \<Longrightarrow>
    cv_step s (s\<lparr>cvq := (cvq s)\<lparr>event := (event (cvq s))(t := False)\<rparr>,
      cpcs := (cpcs s)(t := CDone True)\<rparr>)"
| timeout: "cpcs s t = CWait \<Longrightarrow> cv_step s (s\<lparr>cpcs := (cpcs s)(t := CDone False)\<rparr>)"
| return: "cpcs s t = CDone g \<Longrightarrow> leave_wait t g (cvq s) = Some (q, signaled) \<Longrightarrow>
    cv_step s (s\<lparr>cvq := q, cpcs := (cpcs s)(t := COut),
      returned := returned s + (if signaled then 1 else 0)\<rparr>)"
| wake: "wake_one (cvq s) = Some (q, w) \<Longrightarrow>
    cv_step s (s\<lparr>cvq := q, dequeued := dequeued s + (if w = None then 0 else 1)\<rparr>)"
| wake_everyone: "wake_all (cvq s) = Some (q, ws) \<Longrightarrow>
    cv_step s (s\<lparr>cvq := q, dequeued := dequeued s + int (length ws)\<rparr>)"

abbreviation cv_reachable :: "cv_sys \<Rightarrow> bool" where
  "cv_reachable \<equiv> reach (\<lambda>s. s = cv_start) cv_step"

text \<open>
  What holds throughout: queued waiters have not been signalled; a waiter that is not queued
  any more has its event set until its wait takes it; and every dequeued waiter is either
  still inside or has returned TRUE.
\<close>

definition cv_thread :: "nat list \<Rightarrow> bool \<Rightarrow> nat \<Rightarrow> cv_pc \<Rightarrow> bool" where
  "cv_thread ws ev t p \<longleftrightarrow>
     (case p of
        COut \<Rightarrow> t \<notin> set ws
      | CWait \<Rightarrow> (t \<in> set ws \<longleftrightarrow> \<not> ev)
      | CDone g \<Rightarrow> (if g then t \<notin> set ws else (t \<in> set ws \<longleftrightarrow> \<not> ev)))"

definition cv_inv :: "cv_sys \<Rightarrow> bool" where
  "cv_inv s \<longleftrightarrow> finite {t. cpcs s t \<noteq> COut} \<and>
     (\<exists>ws. waiting (cvq s) ws \<and> (\<forall>t. cv_thread ws (event (cvq s) t) t (cpcs s t)) \<and>
        dequeued s = returned s + cnt (\<lambda>p. p \<noteq> COut) (cpcs s) - int (length ws))"

lemma cv_inv_start: "cv_inv cv_start"
  using waiting_new by (auto simp: cv_inv_def cv_start_def cv_thread_def cnt_def)

lemma enqueue_event: "event (enqueue_waiter t q) = (event q)(t := False)"
  by (simp add: enqueue_waiter_def Let_def split: option.split)

text \<open>What every operation on the queue does to a queue that fits the positions of the threads.\<close>

definition cv_fits :: "cv_queue \<Rightarrow> (nat \<Rightarrow> cv_pc) \<Rightarrow> nat list \<Rightarrow> bool" where
  "cv_fits q ps ws \<longleftrightarrow> waiting q ws \<and> (\<forall>t. cv_thread ws (event q t) t (ps t))"

lemma cv_fits_enqueue:
  assumes "cv_fits q ps ws" "ps t = COut"
  shows "cv_fits (enqueue_waiter t q) (ps(t := CWait)) (ws @ [t])"
proof -
  have t: "t \<notin> set ws" using assms by (metis cv_fits_def cv_thread_def cv_pc.simps(8))
  then have "waiting (enqueue_waiter t q) (ws @ [t])" using assms(1) cv.rep_append by (auto simp: cv_fits_def)
  then show ?thesis using assms(1)
    by (auto simp: cv_fits_def cv_thread_def enqueue_event split: cv_pc.splits)
qed

lemma cv_fits_granted:
  assumes "cv_fits q ps ws" "ps t = CWait" "event q t"
  shows "cv_fits (q\<lparr>event := (event q)(t := False)\<rparr>) (ps(t := CDone True)) ws"
proof -
  have "cv_thread ws (event q t) t (ps t)" using assms(1) by (simp add: cv_fits_def)
  then have "t \<notin> set ws" using assms(2,3) by (simp add: cv_thread_def)
  then show ?thesis using assms(1) by (auto simp: cv_fits_def cv_thread_def waiting_def)
qed

lemma cv_fits_timeout:
  assumes "cv_fits q ps ws" "ps t = CWait"
  shows "cv_fits q (ps(t := CDone False)) ws"
proof -
  have "cv_thread ws (event q t) t (ps t)" using assms(1) by (simp add: cv_fits_def)
  then show ?thesis using assms by (auto simp: cv_fits_def cv_thread_def)
qed

lemma cv_fits_leave:
  assumes "cv_fits q ps ws" "ps t = CDone g" "leave_wait t g q = Some (q', signaled)"
  obtains ws' where "cv_fits q' (ps(t := COut)) ws'"
    "int (length ws') = int (length ws) - (if signaled then 0 else 1)"
proof (cases "t \<in> set ws")
  case False
  then have "q' = q" "signaled" using assms(1,3) by (simp_all add: leave_wait_def cv_fits_def waiting_def)
  then show ?thesis using that [of ws] assms(1) False by (simp add: cv_fits_def cv_thread_def)
next
  case True
  have wt: "waiting q ws" and th: "cv_thread ws (event q t) t (ps t)" using assms(1) by (simp_all add: cv_fits_def)
  have g: "\<not> g" using th True assms(2) by (auto simp: cv_thread_def)
  obtain q1 where q1: "remove_waiter t q = Some q1" "waiting q1 (remove1 t ws)" "event q1 = event q"
    using waiting_remove [OF wt True] by blast
  then have "q' = q1" "\<not> signaled" using assms(3) True wt g by (auto simp: leave_wait_def waiting_def)
  moreover have "distinct ws" using wt by (simp add: waiting_def)
  moreover have "int (length (remove1 t ws)) = int (length ws) - 1"
    using True length_pos_if_in_set [OF True] by (simp add: length_remove1 of_nat_diff Suc_le_eq)
  ultimately show ?thesis using that [of "remove1 t ws"] q1 assms(1)
    by (auto simp: cv_fits_def cv_thread_def split: cv_pc.splits)
qed

lemma cv_fits_wake_one:
  assumes "cv_fits q ps ws" "wake_one q = Some (q', w)"
  obtains ws' where "cv_fits q' ps ws'" "int (length ws) - (if w = None then 0 else 1) = int (length ws')"
proof (cases ws)
  case Nil
  then have "q' = q" "w = None" using waiting_wake_one [of q ws] assms by (simp_all add: cv_fits_def)
  then show ?thesis using that assms(1) by auto
next
  case (Cons x rest)
  then have r: "waiting q' rest" "w = Some x" "event q' = (event q)(x := True)" "x \<notin> set rest"
    using waiting_wake_one [of q ws] assms by (auto simp: cv_fits_def waiting_def)
  have "cv_thread rest (event q' t) t (ps t)" for t
  proof -
    have "cv_thread ws (event q t) t (ps t)" using assms(1) by (simp add: cv_fits_def)
    then show ?thesis using r(3,4) Cons by (auto simp: cv_thread_def split: cv_pc.splits)
  qed
  then show ?thesis using that [of rest] r Cons by (simp add: cv_fits_def)
qed

lemma cv_fits_wake_all:
  assumes "cv_fits q ps ws" "wake_all q = Some (q', vs)"
  shows "cv_fits q' ps [] \<and> vs = ws"
proof -
  have "vs = ws" "waiting q' []" "event q' = (\<lambda>w. event q w \<or> w \<in> set ws)"
    using waiting_wake_all [of q ws] assms by (auto simp: cv_fits_def)
  then show ?thesis using assms(1) by (auto simp: cv_fits_def cv_thread_def split: cv_pc.splits)
qed

text \<open>The invariant adds the count of the wakeups.\<close>

lemma cv_inv_fits:
  "cv_inv s \<longleftrightarrow> finite {t. cpcs s t \<noteq> COut} \<and> (\<exists>ws. cv_fits (cvq s) (cpcs s) ws \<and>
     dequeued s = returned s + cnt (\<lambda>p. p \<noteq> COut) (cpcs s) - int (length ws))"
  by (simp add: cv_inv_def cv_fits_def)

lemma cv_inv_step:
  assumes "cv_step s s'" and "cv_inv s"
  shows "cv_inv s'"
proof -
  obtain ws where fin: "finite {t. cpcs s t \<noteq> COut}" and fit: "cv_fits (cvq s) (cpcs s) ws"
    and dq: "dequeued s = returned s + cnt (\<lambda>p. p \<noteq> COut) (cpcs s) - int (length ws)"
    using assms(2) unfolding cv_inv_fits by blast
  have fin': "finite {u. ((cpcs s)(t := p)) u \<noteq> COut}" for t p using fin by (rule finite_pcs_upd)
  note n = cnt_upd [of "\<lambda>p. p \<noteq> COut" "cpcs s", OF fin]
  show ?thesis using assms(1)
  proof (cases rule: cv_step.cases)
    case (wait t)
    then show ?thesis using cv_fits_enqueue [OF fit, of t] fin' dq
      by (auto simp: cv_inv_fits n intro!: exI [of _ "ws @ [t]"] simp del: fun_upd_apply)
  next
    case (granted t)
    then show ?thesis using cv_fits_granted [OF fit, of t] fin' dq
      by (auto simp: cv_inv_fits n simp del: fun_upd_apply)
  next
    case (timeout t)
    then show ?thesis using cv_fits_timeout [OF fit, of t] fin' dq
      by (auto simp: cv_inv_fits n simp del: fun_upd_apply)
  next
    case (return t g q signaled)
    obtain ws' where "cv_fits q ((cpcs s)(t := COut)) ws'"
      "int (length ws') = int (length ws) - (if signaled then 0 else 1)"
      by (rule cv_fits_leave [OF fit return(2,3)])
    then show ?thesis using return fin' dq
      by (auto simp: cv_inv_fits n simp del: fun_upd_apply intro!: exI [of _ ws'])
  next
    case (wake q w)
    obtain ws' where "cv_fits q (cpcs s) ws'" "int (length ws) - (if w = None then 0 else 1) = int (length ws')"
      by (rule cv_fits_wake_one [OF fit wake(2)])
    then show ?thesis using wake fin dq by (auto simp: cv_inv_fits intro!: exI [of _ ws'])
  next
    case (wake_everyone q vs)
    then show ?thesis using cv_fits_wake_all [OF fit, of q vs] fin dq by (auto simp: cv_inv_fits)
  qed
qed

interpretation cv_sys: inductive_invariant "\<lambda>s. s = cv_start" cv_step cv_inv
  by unfold_locales (auto simp: cv_inv_start intro: cv_inv_step)

lemma cv_reach_facts:
  assumes "cv_reachable s"
  obtains ws where "finite {t. cpcs s t \<noteq> COut}" "waiting (cvq s) ws"
    "\<forall>t. cv_thread ws (event (cvq s) t) t (cpcs s t)"
    "dequeued s = returned s + cnt (\<lambda>p. p \<noteq> COut) (cpcs s) - int (length ws)"
  using cv_sys.reach_inv [OF assms] unfolding cv_inv_def by blast

lemma cv_reach_step: "cv_reachable s \<Longrightarrow> cv_step s s' \<Longrightarrow> cv_reachable s'"
  by (rule reach_step)

lemma cv_start_reachable: "cv_reachable cv_start"
  by (rule reach_init) simp

lemma cv_one_waiter:
  "cv_reachable (cv_start\<lparr>cvq := enqueue_waiter 4 new_cv_queue, cpcs := (\<lambda>_. COut)(4 := CWait)\<rparr>)"
proof -
  have "cv_step cv_start (cv_start\<lparr>cvq := enqueue_waiter 4 (cvq cv_start),
      cpcs := (cpcs cv_start)(4 := CWait)\<rparr>)" by (rule cv_step.wait) (simp add: cv_start_def)
  from cv_reach_step [OF cv_start_reachable this] show ?thesis by (simp add: cv_start_def)
qed

lemma cv_waiter_facts:
  assumes "cv_reachable s"
  shows "(cpcs s t = CWait \<longrightarrow> queued (cvq s) t \<noteq> event (cvq s) t) \<and>
    (cpcs s t = CDone g \<longrightarrow>
      (\<exists>q. leave_wait t g (cvq s) = Some (q, \<not> queued (cvq s) t) \<and> \<not> queued q t)) \<and>
    (cpcs s t = COut \<longrightarrow> \<not> queued (cvq s) t) \<and>
    wake_one (cvq s) \<noteq> None \<and> wake_all (cvq s) \<noteq> None"
proof -
  obtain ws where "finite {t. cpcs s t \<noteq> COut}" and wt: "waiting (cvq s) ws"
    and all: "\<forall>t. cv_thread ws (event (cvq s) t) t (cpcs s t)"
    and "dequeued s = returned s + cnt (\<lambda>p. p \<noteq> COut) (cpcs s) - int (length ws)"
    using cv_reach_facts [OF assms] by blast
  have th: "cv_thread ws (event (cvq s) t) t (cpcs s t)" for t using all by blast
  have qd: "queued (cvq s) u \<longleftrightarrow> u \<in> set ws" for u using wt by (simp add: waiting_def)
  have d: "distinct ws" using wt by (simp add: waiting_def)
  have "\<exists>q. leave_wait t g (cvq s) = Some (q, \<not> queued (cvq s) t) \<and> \<not> queued q t"
    if "cpcs s t = CDone g"
  proof (cases "t \<in> set ws")
    case True
    then have "\<not> g" using th [of t] that by (auto simp: cv_thread_def)
    obtain q' where "remove_waiter t (cvq s) = Some q'" "waiting q' (remove1 t ws)"
      using cv.rep_remove [OF wt True] by blast
    moreover from this d have "\<not> queued q' t" by (simp add: waiting_def)
    ultimately show ?thesis using True qd \<open>\<not> g\<close> by (auto simp: leave_wait_def)
  next
    case False
    then show ?thesis using qd by (simp add: leave_wait_def)
  qed
  moreover have "wake_one (cvq s) \<noteq> None" using waiting_wake_one [OF wt] by (cases ws) auto
  moreover have "wake_all (cvq s) \<noteq> None" using waiting_wake_all [OF wt] by auto
  moreover have "cpcs s t = CWait \<longrightarrow> queued (cvq s) t \<noteq> event (cvq s) t"
    and "cpcs s t = COut \<longrightarrow> \<not> queued (cvq s) t"
    using th [of t] qd by (auto simp: cv_thread_def)
  ultimately show ?thesis by blast
qed

text \<open>
  No wakeup is lost and none is invented. In every reachable state a thread whose wait has
  ended, or still blocks, while it is no longer queued has been dequeued by a wake call: if it
  still blocks, its event is set, so its wait ends, and it returns TRUE however its wait ended,
  a timeout included. A thread that is still queued when its wait ended got no event, leaves
  the queue and returns FALSE. The gate sections never fail, and no returned thread is queued.
\<close>

theorem cv_no_lost_wakeup:
  assumes "cv_reachable s"
  shows "(cpcs s t = CWait \<longrightarrow> queued (cvq s) t \<noteq> event (cvq s) t) \<and>
    (cpcs s t = CDone g \<longrightarrow>
      (\<exists>q. leave_wait t g (cvq s) = Some (q, \<not> queued (cvq s) t) \<and> \<not> queued q t)) \<and>
    (cpcs s t = COut \<longrightarrow> \<not> queued (cvq s) t) \<and>
    wake_one (cvq s) \<noteq> None \<and> wake_all (cvq s) \<noteq> None"
  using assms by (rule cv_waiter_facts)

theorem cv_no_lost_wakeup_witness:
  "\<exists>s. cv_reachable s \<and> cpcs s 4 = CWait \<and> queued (cvq s) 4 \<and> \<not> event (cvq s) 4"
proof -
  have "queued (enqueue_waiter 4 new_cv_queue) 4"
    by (simp add: enqueue_waiter_def new_cv_queue_def Let_def)
  with cv_no_lost_wakeup [OF cv_one_waiter, of 4] cv_one_waiter show ?thesis
    by (intro exI [of _ "cv_start\<lparr>cvq := enqueue_waiter 4 new_cv_queue,
      cpcs := (\<lambda>_. COut)(4 := CWait)\<rparr>"]) simp
qed

text \<open>
  Wakeups are conserved. Counting over the whole run, the waiters that wake calls dequeued
  are those whose wait returned TRUE and those still on their way out; when no thread is
  inside, the queue is empty and the two counts agree.
\<close>

theorem cv_wakeups_conserved:
  assumes "cv_reachable s"
  shows "returned s \<le> dequeued s \<and>
    dequeued s - returned s = cnt (\<lambda>p. p \<noteq> COut) (cpcs s) - int (card {t. queued (cvq s) t}) \<and>
    ((\<forall>t. cpcs s t = COut) \<longrightarrow> dequeued s = returned s \<and> q_head (cvq s) = None)"
proof -
  obtain ws where fin: "finite {t. cpcs s t \<noteq> COut}" and wt: "waiting (cvq s) ws"
    and all: "\<forall>t. cv_thread ws (event (cvq s) t) t (cpcs s t)"
    and dq: "dequeued s = returned s + cnt (\<lambda>p. p \<noteq> COut) (cpcs s) - int (length ws)"
    using cv_reach_facts [OF assms] by blast
  have th: "cv_thread ws (event (cvq s) t) t (cpcs s t)" for t using all by blast
  have "{t. queued (cvq s) t} = set ws" and "distinct ws" using wt by (auto simp: waiting_def)
  then have card: "card {t. queued (cvq s) t} = length ws" and "distinct ws"
    by (simp_all add: distinct_card)
  have "set ws \<subseteq> {t. cpcs s t \<noteq> COut}"
  proof
    fix t assume "t \<in> set ws"
    then show "t \<in> {t. cpcs s t \<noteq> COut}" using th [of t] by (auto simp: cv_thread_def)
  qed
  then have "length ws \<le> card {t. cpcs s t \<noteq> COut}"
    using card_mono [OF fin, of "set ws"] distinct_card [OF \<open>distinct ws\<close>] by simp
  moreover have "ws = []" if "\<forall>t. cpcs s t = COut"
  proof (cases ws)
    case (Cons w vs)
    then show ?thesis using th [of w] that by (simp add: cv_thread_def)
  qed simp
  ultimately have le: "int (length ws) \<le> cnt (\<lambda>p. p \<noteq> COut) (cpcs s)"
    and out: "\<forall>t. cpcs s t = COut \<Longrightarrow> ws = []" by (simp_all add: cnt_def)
  have "cnt (\<lambda>p. p \<noteq> COut) (cpcs s) = 0" if "\<forall>t. cpcs s t = COut"
    using that by (simp add: cnt_def)
  with le out dq card cv.rep_front [OF wt] show ?thesis by simp
qed

theorem cv_wakeups_conserved_witness:
  "\<exists>s. cv_reachable s \<and> cpcs s 4 = CWait \<and> returned s \<le> dequeued s"
proof -
  let ?s = "cv_start\<lparr>cvq := enqueue_waiter 4 new_cv_queue, cpcs := (\<lambda>_. COut)(4 := CWait)\<rparr>"
  have "cpcs ?s 4 = CWait" by simp
  with cv_one_waiter conjunct1 [OF cv_wakeups_conserved [OF cv_one_waiter]] show ?thesis by blast
qed

end
