(* ===== verification/Cond_Wait.thy ===== *)
theory Cond_Wait
  imports Cond_Var
begin

text \<open>
  Waiting on a condition variable of \<open>compat/w2k_sync.c\<close>: the argument checks of the exports, the
  whole of \<open>wait_cv_common\<close> as \<open>W2KSleepConditionVariableCS\<close> runs it, and its error report. \<open>mon_step\<close>
  is the monitor that callers build from it: any number of threads enter and leave a critical
  section, sleep with it, time out and wake each other. The queue of the monitor is simulated by
  the condition variable of the previous theory. The wake exports stand at the end.
\<close>

abbreviation (input) "ERROR_SUCCESS \<equiv> (0 :: u32)"
abbreviation (input) "ERROR_NOT_ENOUGH_MEMORY \<equiv> (8 :: u32)"
abbreviation (input) "ERROR_GEN_FAILURE \<equiv> (31 :: u32)"
abbreviation (input) "ERROR_INVALID_PARAMETER \<equiv> (87 :: u32)"
abbreviation (input) "ERROR_TIMEOUT \<equiv> (1460 :: u32)"

section \<open>Entering and leaving the wait\<close>

text \<open>
  The exports up to the call of \<open>wait_cv_common\<close>: whether the pointers are given, the flags, and the
  answers of \<open>get_cv_state\<close> and \<open>get_srw_state\<close>; the result is the error or the states to wait with
  and the mode.
\<close>

definition W2KSleepConditionVariableSRW ::
    "bool \<Rightarrow> bool \<Rightarrow> u32 \<Rightarrow> 'cv option \<Rightarrow> 'srw option \<Rightarrow> u32 + 'cv \<times> 'srw \<times> bool" where
  "W2KSleepConditionVariableSRW cv_slot srw_slot flags cv srw =
     (if \<not> cv_slot \<or> \<not> srw_slot \<or> flags AND NOT 1 \<noteq> 0 then Inl ERROR_INVALID_PARAMETER
      else case (cv, srw) of
        (Some cv, Some srw) \<Rightarrow> Inr (cv, srw, flags AND 1 \<noteq> 0)
      | _ \<Rightarrow> Inl ERROR_NOT_ENOUGH_MEMORY)"

definition W2KSleepConditionVariableCS :: "bool \<Rightarrow> bool \<Rightarrow> 'cv option \<Rightarrow> u32 + 'cv" where
  "W2KSleepConditionVariableCS cv_slot critical_section cv =
     (if \<not> cv_slot \<or> \<not> critical_section then Inl ERROR_INVALID_PARAMETER
      else case cv of None \<Rightarrow> Inl ERROR_NOT_ENOUGH_MEMORY | Some cv \<Rightarrow> Inr cv)"

text \<open>
  The end of \<open>wait_cv_common\<close>: the result and the error it sets, from \<open>signaled\<close>, whether the wait
  ended with \<open>WAIT_TIMEOUT\<close>, and the last error.
\<close>

definition finish_wait :: "bool \<Rightarrow> bool \<Rightarrow> u32 \<Rightarrow> bool \<times> u32 option" where
  "finish_wait signaled timed_out last_error =
     (if signaled then (True, None)
      else
        let error = (if timed_out then ERROR_TIMEOUT else last_error);
            error = (if error = ERROR_SUCCESS then ERROR_GEN_FAILURE else error) in
          (False, Some error))"

section \<open>The monitor\<close>

text \<open>
  Outside; in \<open>EnterCriticalSection\<close>; inside; in \<open>wait_cv_common\<close> before the waiter is queued, queued
  but still inside, waiting, past the wait (whether the event was obtained, and whether it timed
  out), and on the way back into the critical section.
\<close>

datatype mon_pc =
    MFree | MWant | MHold | MCreate | MQueued | MWait | MDone bool bool | MBack bool bool

record mon_sys =
  cs :: "nat option"
  mq :: cv_queue
  mpcs :: "nat \<Rightarrow> mon_pc"
  results :: "nat \<Rightarrow> (bool \<times> u32 option) option"

definition mon_start :: mon_sys where
  "mon_start = \<lparr>cs = None, mq = new_cv_queue, mpcs = \<lambda>_. MFree, results = \<lambda>_. None\<rparr>"

inductive mon_step :: "mon_sys \<Rightarrow> mon_sys \<Rightarrow> bool" for s :: mon_sys where
  want: "mpcs s t = MFree \<Longrightarrow> mon_step s (s\<lparr>mpcs := (mpcs s)(t := MWant)\<rparr>)"
| enter_cs: "mpcs s t = MWant \<Longrightarrow> cs s = None \<Longrightarrow>
    mon_step s (s\<lparr>cs := Some t, mpcs := (mpcs s)(t := MHold)\<rparr>)"
| leave_cs: "mpcs s t = MHold \<Longrightarrow> mon_step s (s\<lparr>cs := None, mpcs := (mpcs s)(t := MFree)\<rparr>)"
| sleep: "mpcs s t = MHold \<Longrightarrow> mon_step s (s\<lparr>mpcs := (mpcs s)(t := MCreate)\<rparr>)"
| no_event: "mpcs s t = MCreate \<Longrightarrow>
    mon_step s (s\<lparr>mpcs := (mpcs s)(t := MHold), results := (results s)(t := Some (False, None))\<rparr>)"
| queue_up: "mpcs s t = MCreate \<Longrightarrow>
    mon_step s (s\<lparr>mq := enqueue_waiter t (mq s), mpcs := (mpcs s)(t := MQueued)\<rparr>)"
| release_cs: "mpcs s t = MQueued \<Longrightarrow> mon_step s (s\<lparr>cs := None, mpcs := (mpcs s)(t := MWait)\<rparr>)"
| woken: "mpcs s t = MWait \<Longrightarrow> event (mq s) t \<Longrightarrow>
    mon_step s (s\<lparr>mq := (mq s)\<lparr>event := (event (mq s))(t := False)\<rparr>,
      mpcs := (mpcs s)(t := MDone True False)\<rparr>)"
| not_woken: "mpcs s t = MWait \<Longrightarrow> mon_step s (s\<lparr>mpcs := (mpcs s)(t := MDone False timed_out)\<rparr>)"
| dequeue: "mpcs s t = MDone g timed_out \<Longrightarrow> leave_wait t g (mq s) = Some (q, signaled) \<Longrightarrow>
    mon_step s (s\<lparr>mq := q, mpcs := (mpcs s)(t := MBack signaled timed_out)\<rparr>)"
| come_back: "mpcs s t = MBack signaled timed_out \<Longrightarrow> cs s = None \<Longrightarrow>
    mon_step s (s\<lparr>cs := Some t, mpcs := (mpcs s)(t := MHold),
      results := (results s)(t := Some (finish_wait signaled timed_out last_error))\<rparr>)"
| wake: "wake_one (mq s) = Some (q, w) \<Longrightarrow> mon_step s (s\<lparr>mq := q\<rparr>)"
| wake_everyone: "wake_all (mq s) = Some (q, ws) \<Longrightarrow> mon_step s (s\<lparr>mq := q\<rparr>)"

abbreviation mon_reachable :: "mon_sys \<Rightarrow> bool" where
  "mon_reachable \<equiv> reach (\<lambda>s. s = mon_start) mon_step"

section \<open>Who is inside\<close>

fun in_section :: "mon_pc \<Rightarrow> bool" where
  "in_section MHold = True" | "in_section MCreate = True" | "in_section MQueued = True" | "in_section _ = False"

definition mon_inv :: "mon_sys \<Rightarrow> bool" where
  "mon_inv s \<longleftrightarrow> (\<forall>t. in_section (mpcs s t) \<longleftrightarrow> cs s = Some t) \<and>
     (\<forall>t r e. results s t = Some (r, Some e) \<longrightarrow> \<not> r \<and> e \<noteq> ERROR_SUCCESS)"

lemma finish_wait_error: "finish_wait sg tm e = (r, Some x) \<Longrightarrow> \<not> r \<and> x \<noteq> ERROR_SUCCESS"
  by (auto simp: finish_wait_def Let_def split: if_splits)

lemma mon_inv_upd:
  assumes "mon_inv s" "mpcs s' = (mpcs s)(t := p)" "results s' = (results s)(t := x)"
    "in_section p \<longleftrightarrow> cs s' = Some t" "\<And>u. u \<noteq> t \<Longrightarrow> cs s' = Some u \<longleftrightarrow> cs s = Some u"
    "x = results s t \<or> (\<forall>r e. x = Some (r, Some e) \<longrightarrow> \<not> r \<and> e \<noteq> ERROR_SUCCESS)"
  shows "mon_inv s'"
proof -
  have "in_section (mpcs s' u) \<longleftrightarrow> cs s' = Some u" for u
    using assms by (cases "u = t") (simp_all add: mon_inv_def)
  moreover have "\<not> r \<and> e \<noteq> ERROR_SUCCESS" if "results s' u = Some (r, Some e)" for u r e
    using that assms(1,3,6) unfolding mon_inv_def by (metis fun_upd_apply)
  ultimately show ?thesis unfolding mon_inv_def by blast
qed

lemma mon_inv_step:
  assumes "mon_step s s'" "mon_inv s"
  shows "mon_inv s'"
proof -
  have i: "in_section (mpcs s u) \<longleftrightarrow> cs s = Some u" for u using assms(2) by (simp add: mon_inv_def)
  show ?thesis using assms(1)
  proof (cases rule: mon_step.cases)
    case (want t)
    then show ?thesis using i [of t] by (intro mon_inv_upd [OF assms(2), of _ t MWant "results s t"]) auto
  next
    case (enter_cs t)
    then show ?thesis by (intro mon_inv_upd [OF assms(2), of _ t MHold "results s t"]) auto
  next
    case (leave_cs t)
    then show ?thesis using i [of t] by (intro mon_inv_upd [OF assms(2), of _ t MFree "results s t"]) auto
  next
    case (sleep t)
    then show ?thesis using i [of t] by (intro mon_inv_upd [OF assms(2), of _ t MCreate "results s t"]) auto
  next
    case (no_event t)
    then show ?thesis using i [of t]
      by (intro mon_inv_upd [OF assms(2), of _ t MHold "Some (False, None)"]) auto
  next
    case (queue_up t)
    then show ?thesis using i [of t] by (intro mon_inv_upd [OF assms(2), of _ t MQueued "results s t"]) auto
  next
    case (release_cs t)
    then show ?thesis using i [of t] by (intro mon_inv_upd [OF assms(2), of _ t MWait "results s t"]) auto
  next
    case (woken t)
    then show ?thesis using i [of t]
      by (intro mon_inv_upd [OF assms(2), of _ t "MDone True False" "results s t"]) auto
  next
    case (not_woken t tm)
    then show ?thesis using i [of t]
      by (intro mon_inv_upd [OF assms(2), of _ t "MDone False tm" "results s t"]) auto
  next
    case (dequeue t g tm q sg)
    then show ?thesis using i [of t]
      by (intro mon_inv_upd [OF assms(2), of _ t "MBack sg tm" "results s t"]) auto
  next
    case (come_back t sg tm e)
    then show ?thesis
      by (intro mon_inv_upd [OF assms(2), of _ t MHold "Some (finish_wait sg tm e)"])
        (auto dest: finish_wait_error)
  qed (use assms(2) in \<open>auto simp: mon_inv_def\<close>)
qed

interpretation monitor: inductive_invariant "\<lambda>s. s = mon_start" mon_step mon_inv
proof unfold_locales
  show "mon_inv s" if "s = mon_start" for s using that by (simp add: mon_inv_def mon_start_def)
qed (rule mon_inv_step)

section \<open>The simulation\<close>

fun cv_view :: "mon_pc \<Rightarrow> cv_pc" where
  "cv_view MQueued = CWait" | "cv_view MWait = CWait" | "cv_view (MDone g _) = CDone g"
| "cv_view _ = COut"

definition simulates :: "cv_sys \<Rightarrow> mon_sys \<Rightarrow> bool" where
  "simulates c s \<longleftrightarrow> cvq c = mq s \<and> cpcs c = (\<lambda>t. cv_view (mpcs s t))"

lemma mon_step_simulated:
  assumes "mon_step s s'" "simulates c s"
  shows "\<exists>c'. simulates c' s' \<and> (c' = c \<or> cv_step c c')"
proof -
  have q: "cvq c = mq s" and p: "\<And>t. cpcs c t = cv_view (mpcs s t)"
    using assms(2) by (simp_all add: simulates_def)
  have stay: ?thesis if "simulates c s'" using that by blast
  have go: ?thesis if "cv_step c c'" "simulates c' s'" for c' using that by blast
  show ?thesis using assms(1)
  proof (cases rule: mon_step.cases)
    case (queue_up t)
    show ?thesis by (rule go [OF cv_step.wait [of c t]])
        (use queue_up p [of t] assms(2) in \<open>auto simp: simulates_def fun_eq_iff\<close>)
  next
    case (woken t)
    show ?thesis by (rule go [OF cv_step.granted [of c t]])
        (use woken p [of t] assms(2) in \<open>auto simp: simulates_def fun_eq_iff\<close>)
  next
    case (not_woken t tm)
    show ?thesis by (rule go [OF cv_step.timeout [of c t]])
        (use not_woken p [of t] assms(2) in \<open>auto simp: simulates_def fun_eq_iff\<close>)
  next
    case (dequeue t g tm q' sg)
    show ?thesis by (rule go [OF cv_step.return [of c t g q' sg]])
        (use dequeue p [of t] assms(2) in \<open>auto simp: simulates_def fun_eq_iff\<close>)
  next
    case (wake q' w)
    show ?thesis by (rule go [OF cv_step.wake [of c q' w]])
        (use wake assms(2) in \<open>auto simp: simulates_def\<close>)
  next
    case (wake_everyone q' ws)
    show ?thesis by (rule go [OF cv_step.wake_everyone [of c q' ws]])
        (use wake_everyone assms(2) in \<open>auto simp: simulates_def\<close>)
  qed (rule stay, use assms(2) in \<open>auto simp: simulates_def fun_eq_iff\<close>)+
qed

text \<open>
  The contract of a system that waits with the condition variable: it is simulated by the threads of the
  previous theory. What holds of the queue in every state they reach then holds in every state the
  system reaches.
\<close>

locale cv_client =
  fixes init :: "'s \<Rightarrow> bool"
    and step :: "'s \<Rightarrow> 's \<Rightarrow> bool"
    and queue_of :: "'s \<Rightarrow> cv_queue"
    and view_of :: "'s \<Rightarrow> nat \<Rightarrow> cv_pc"
  assumes init_view: "init s \<Longrightarrow> queue_of s = new_cv_queue \<and> view_of s = (\<lambda>_. COut)"
    and step_view: "step s s' \<Longrightarrow> cvq c = queue_of s \<Longrightarrow> cpcs c = view_of s \<Longrightarrow>
      \<exists>c'. cvq c' = queue_of s' \<and> cpcs c' = view_of s' \<and> (c' = c \<or> cv_step c c')"
begin

lemma simulated: "reach init step s \<Longrightarrow> \<exists>c. cv_reachable c \<and> cvq c = queue_of s \<and> cpcs c = view_of s"
proof (induction rule: reach.induct)
  case (reach_init s)
  then have "cvq cv_start = queue_of s" "cpcs cv_start = view_of s"
    using init_view by (simp_all add: cv_start_def)
  then show ?case using cv_start_reachable by blast
next
  case (reach_step s s')
  then obtain c c' where "cv_reachable c" "cvq c' = queue_of s'" "cpcs c' = view_of s'" "c' = c \<or> cv_step c c'"
    using step_view by metis
  then show ?case using cv_reach_step by blast
qed

lemma reach_waiting:
  assumes "reach init step s"
  obtains ws where "waiting (queue_of s) ws" "\<And>t. cv_thread ws (event (queue_of s) t) t (view_of s t)"
proof -
  obtain c where c: "cv_reachable c" "cvq c = queue_of s" "cpcs c = view_of s" using simulated [OF assms] by blast
  from cv_reach_facts [OF c(1)] obtain ws where
    "waiting (cvq c) ws" "\<forall>t. cv_thread ws (event (cvq c) t) t (cpcs c t)" by blast
  with c that show ?thesis by simp
qed

text \<open>No wake call passes over a thread that waits without its event.\<close>

lemma wake_reaches:
  assumes "reach init step s" and "view_of s t = CWait" and "\<not> event (queue_of s) t"
  shows "(\<exists>q ws. wake_all (queue_of s) = Some (q, ws) \<and> t \<in> set ws \<and> event q t) \<and>
         (\<exists>q w. wake_one (queue_of s) = Some (q, Some w) \<and> event q w \<and> \<not> queued q w)"
proof -
  obtain ws where w: "waiting (queue_of s) ws" and
      th: "\<And>t. cv_thread ws (event (queue_of s) t) t (view_of s t)"
    using reach_waiting [OF assms(1)] by blast
  have t: "t \<in> set ws" using th [of t] assms(2,3) by (simp add: cv_thread_def)
  obtain q where "wake_all (queue_of s) = Some (q, ws)" "event q = (\<lambda>w. event (queue_of s) w \<or> w \<in> set ws)"
    using waiting_wake_all [OF w] by blast
  moreover obtain x xs where "ws = x # xs" using t by (cases ws) auto
  moreover from this obtain q' where "wake_one (queue_of s) = Some (q', Some x)" "waiting q' xs"
    "event q' = (event (queue_of s))(x := True)"
    using waiting_wake_one [OF w] by auto
  moreover have "distinct ws" using w by (simp add: waiting_def)
  ultimately show ?thesis using t by (auto simp: waiting_def)
qed

end

interpretation mon: cv_client "\<lambda>s. s = mon_start" mon_step mq "\<lambda>s t. cv_view (mpcs s t)"
proof unfold_locales
  show "mq s = new_cv_queue \<and> (\<lambda>t. cv_view (mpcs s t)) = (\<lambda>_. COut)" if "s = mon_start" for s
    using that by (simp add: mon_start_def)
  show "\<exists>c'. cvq c' = mq s' \<and> cpcs c' = (\<lambda>t. cv_view (mpcs s' t)) \<and> (c' = c \<or> cv_step c c')"
    if "mon_step s s'" "cvq c = mq s" "cpcs c = (\<lambda>t. cv_view (mpcs s t))" for s s' c
    using mon_step_simulated [OF that(1), of c] that(2,3) unfolding simulates_def by blast
qed

section \<open>Properties\<close>

text \<open>
  C7: Sleeping gives up the critical section and starts to wait in one go, as far as wakers can see:
  from before the critical section is released, a sleeping thread either has its event already or is among
  those the next wake-all call signals, and a wake-one call signals a thread that sleeps as long as there
  is one without its event. No wake call between the release and the wait is missed.
\<close>

theorem monitor_misses_no_wake:
  assumes "mon_reachable s" "mpcs s t = MQueued \<or> mpcs s t = MWait" "\<not> event (mq s) t"
  shows "(\<exists>q ws. wake_all (mq s) = Some (q, ws) \<and> t \<in> set ws \<and> event q t) \<and>
         (\<exists>q w. wake_one (mq s) = Some (q, Some w) \<and> event q w \<and> \<not> queued q w)"
  using mon.wake_reaches [OF assms(1) _ assms(3)] assms(2) by (elim disjE) simp_all

text \<open>A thread that sleeps, with its waiter queued and the critical section released.\<close>

lemma mon_sleeper:
  "mon_reachable (mon_start\<lparr>mq := enqueue_waiter 4 new_cv_queue, mpcs := (\<lambda>_. MFree)(4 := MWait)\<rparr>)"
proof -
  let ?s1 = "mon_start\<lparr>mpcs := (mpcs mon_start)(4 := MWant)\<rparr>"
  let ?s2 = "?s1\<lparr>cs := Some 4, mpcs := (mpcs ?s1)(4 := MHold)\<rparr>"
  let ?s3 = "?s2\<lparr>mpcs := (mpcs ?s2)(4 := MCreate)\<rparr>"
  let ?s4 = "?s3\<lparr>mq := enqueue_waiter 4 (mq ?s3), mpcs := (mpcs ?s3)(4 := MQueued)\<rparr>"
  let ?s5 = "?s4\<lparr>cs := None, mpcs := (mpcs ?s4)(4 := MWait)\<rparr>"
  have r0: "mon_reachable mon_start" by (rule reach_init) simp
  have r1: "mon_reachable ?s1" by (rule reach_step [OF r0 want]) (simp add: mon_start_def)
  have r2: "mon_reachable ?s2" by (rule reach_step [OF r1 enter_cs]) (simp_all add: mon_start_def)
  have r3: "mon_reachable ?s3" by (rule reach_step [OF r2 sleep]) simp
  have r4: "mon_reachable ?s4" by (rule reach_step [OF r3 queue_up]) simp
  have "mon_reachable ?s5" by (rule reach_step [OF r4 release_cs]) simp
  then show ?thesis by (simp add: mon_start_def)
qed

lemma new_waiter_no_event: "\<not> event (enqueue_waiter 4 new_cv_queue) 4"
  by (simp add: enqueue_event)

theorem monitor_misses_no_wake_witness:
  "\<exists>q ws. wake_all (enqueue_waiter 4 new_cv_queue) = Some (q, ws) \<and> 4 \<in> set ws \<and> event q 4"
  using monitor_misses_no_wake [OF mon_sleeper, of 4] new_waiter_no_event by simp

text \<open>
  At any time at most one thread is inside the critical section, the ones that have come back
  from a sleep included; the queue never refers to the waiter of a call that has left its wait, whose
  stack frame may be gone; a result TRUE comes without an error, and the error reported with FALSE is
  never \<open>ERROR_SUCCESS\<close>.
\<close>

theorem monitor_safe:
  assumes "mon_reachable s"
  shows "(in_section (mpcs s t) \<longleftrightarrow> cs s = Some t) \<and>
         (queued (mq s) t \<longrightarrow> mpcs s t = MQueued \<or> mpcs s t = MWait \<or> (\<exists>tm. mpcs s t = MDone False tm)) \<and>
         (\<forall>r e. results s t = Some (r, Some e) \<longrightarrow> \<not> r \<and> e \<noteq> ERROR_SUCCESS)"
proof -
  obtain ws where w: "waiting (mq s) ws" and th: "\<And>t. cv_thread ws (event (mq s) t) t (cv_view (mpcs s t))"
    using mon.reach_waiting [OF assms] by blast
  have "queued (mq s) t \<longrightarrow> mpcs s t = MQueued \<or> mpcs s t = MWait \<or> (\<exists>tm. mpcs s t = MDone False tm)"
    using th [of t] w by (cases "mpcs s t") (auto simp: cv_thread_def waiting_def split: if_splits)
  then show ?thesis using monitor.reach_inv [OF assms] unfolding mon_inv_def by blast
qed

theorem monitor_safe_witness:
  "\<exists>s. mon_reachable s \<and> cs s = None \<and> \<not> in_section (mpcs s 4) \<and> queued (mq s) 4"
proof -
  let ?s = "mon_start\<lparr>mq := enqueue_waiter 4 new_cv_queue, mpcs := (\<lambda>_. MFree)(4 := MWait)\<rparr>"
  have "queued (mq ?s) 4" by (simp add: enqueue_waiter_def new_cv_queue_def Let_def)
  moreover have "in_section (mpcs ?s 4) \<longleftrightarrow> cs ?s = Some 4" using monitor_safe [OF mon_sleeper, of 4] by blast
  ultimately show ?thesis using mon_sleeper by (intro exI [of _ ?s]) (simp add: mon_start_def)
qed

section \<open>The wake exports\<close>

text \<open>
  \<open>W2KWakeConditionVariable\<close> and \<open>W2KWakeAllConditionVariable\<close> with their guards: whether a slot is
  given, and the queue of the state that \<open>get_cv_state\<close> finds or makes there. The result is the queue,
  when there is one, and who was woken; \<open>None\<close> is a pointer to a waiter that is not queued.
\<close>

definition W2KWakeConditionVariable ::
    "bool \<Rightarrow> cv_queue option \<Rightarrow> (cv_queue option \<times> nat list) option" where
  "W2KWakeConditionVariable cv_slot state =
     (if \<not> cv_slot then Some (state, [])
      else case state of
        None \<Rightarrow> Some (None, [])
      | Some q \<Rightarrow> map_option (\<lambda>(q, w). (Some q, case w of None \<Rightarrow> [] | Some w \<Rightarrow> [w])) (wake_one q))"

definition W2KWakeAllConditionVariable ::
    "bool \<Rightarrow> cv_queue option \<Rightarrow> (cv_queue option \<times> nat list) option" where
  "W2KWakeAllConditionVariable cv_slot state =
     (if \<not> cv_slot then Some (state, [])
      else case state of
        None \<Rightarrow> Some (None, [])
      | Some q \<Rightarrow> map_option (\<lambda>(q, ws). (Some q, ws)) (wake_all q))"

text \<open>
  With a slot and a queue that is well linked, waking one wakes the thread that has waited longest, waking all
  wakes every thread in the order of waiting, and both leave a well-linked queue of those that go on waiting.
  Without a slot, or without memory for the state, nothing happens.
\<close>

theorem wake_exports:
  assumes "waiting q ws"
  shows "\<exists>q1 q2. W2KWakeConditionVariable True (Some q) = Some (Some q1, take 1 ws) \<and> waiting q1 (tl ws) \<and>
      W2KWakeAllConditionVariable True (Some q) = Some (Some q2, ws) \<and> waiting q2 [] \<and>
      W2KWakeConditionVariable False st = Some (st, []) \<and> W2KWakeAllConditionVariable False st = Some (st, []) \<and>
      W2KWakeConditionVariable True None = Some (None, []) \<and> W2KWakeAllConditionVariable True None = Some (None, [])"
proof -
  have "\<exists>q1. W2KWakeConditionVariable True (Some q) = Some (Some q1, take 1 ws) \<and> waiting q1 (tl ws)"
    using waiting_wake_one [OF assms] assms by (cases ws) (auto simp: W2KWakeConditionVariable_def)
  moreover have "\<exists>q2. W2KWakeAllConditionVariable True (Some q) = Some (Some q2, ws) \<and> waiting q2 []"
    using waiting_wake_all [OF assms] by (auto simp: W2KWakeAllConditionVariable_def)
  ultimately show ?thesis by (simp add: W2KWakeConditionVariable_def W2KWakeAllConditionVariable_def)
qed

end
