(* ===== verification/Cond_Srw.thy ===== *)
theory Cond_Srw
  imports Cond_Wait Srw_Lock
begin

text \<open>
  Sleeping on a condition variable with a slim lock (\<open>W2KSleepConditionVariableSRW\<close> in
  \<open>compat/w2k_sync.c\<close>): \<open>wait_cv_common\<close> with its calls of the lock's release and acquire routines,
  composed of the interleaved lock of \<open>Srw_Lock\<close> and the queue of \<open>Cond_Var\<close>. While the caller
  is outside \<open>wait_cv_common\<close> it uses the lock as it likes; inside, the routine that runs on the lock
  is the one that the code calls, in the mode of the sleep.
\<close>

section \<open>The composed system\<close>

text \<open>
  Outside; in \<open>CreateEventA\<close>; queued and releasing the lock; waiting; past the wait (whether the event
  was obtained, and whether it timed out); and acquiring the lock again (whether it was signalled,
  and whether it timed out). The first flag is the mode: shared or not.
\<close>

datatype sleep_pc =
    WOut | WCreate bool | WRelease bool | WSleep bool | WPast bool bool bool | WAcquire bool bool bool

record sleep_sys =
  lock :: srw_sys
  sq :: cv_queue
  spcs :: "nat \<Rightarrow> sleep_pc"
  outcome :: "nat \<Rightarrow> (bool \<times> u32 option) option"

definition held :: "bool \<Rightarrow> srw_pc" where
  "held shared = (if shared then HoldS else HoldX)"

definition acquiring :: "bool \<Rightarrow> srw_pc" where
  "acquiring shared = (if shared then SEnter else XEnter)"

definition sleep_init :: "sleep_sys \<Rightarrow> bool" where
  "sleep_init s \<longleftrightarrow> srw_init (lock s) \<and> sq s = new_cv_queue \<and> spcs s = (\<lambda>_. WOut) \<and> outcome s = (\<lambda>_. None)"

inductive sleep_step :: "sleep_sys \<Rightarrow> sleep_sys \<Rightarrow> bool" for s :: sleep_sys where
  use_lock: "spcs s t = WOut \<Longrightarrow> srw_step t (lock s) l \<Longrightarrow> sleep_step s (s\<lparr>lock := l\<rparr>)"
| sleep: "spcs s t = WOut \<Longrightarrow> pcs (lock s) t = held shared \<Longrightarrow>
    sleep_step s (s\<lparr>spcs := (spcs s)(t := WCreate shared)\<rparr>)"
| no_event: "spcs s t = WCreate shared \<Longrightarrow>
    sleep_step s (s\<lparr>spcs := (spcs s)(t := WOut), outcome := (outcome s)(t := Some (False, None))\<rparr>)"
| queue_up: "spcs s t = WCreate shared \<Longrightarrow>
    sleep_step s (s\<lparr>sq := enqueue_waiter t (sq s), spcs := (spcs s)(t := WRelease shared)\<rparr>)"
| releasing: "spcs s t = WRelease shared \<Longrightarrow> pcs (lock s) t \<noteq> Idle \<Longrightarrow> srw_step t (lock s) l \<Longrightarrow>
    sleep_step s (s\<lparr>lock := l\<rparr>)"
| released: "spcs s t = WRelease shared \<Longrightarrow> pcs (lock s) t = Idle \<Longrightarrow>
    sleep_step s (s\<lparr>spcs := (spcs s)(t := WSleep shared)\<rparr>)"
| woken: "spcs s t = WSleep shared \<Longrightarrow> event (sq s) t \<Longrightarrow>
    sleep_step s (s\<lparr>sq := (sq s)\<lparr>event := (event (sq s))(t := False)\<rparr>,
      spcs := (spcs s)(t := WPast shared True False)\<rparr>)"
| not_woken: "spcs s t = WSleep shared \<Longrightarrow>
    sleep_step s (s\<lparr>spcs := (spcs s)(t := WPast shared False timed_out)\<rparr>)"
| dequeue: "spcs s t = WPast shared g timed_out \<Longrightarrow> leave_wait t g (sq s) = Some (q, signaled) \<Longrightarrow>
    sleep_step s (s\<lparr>sq := q, spcs := (spcs s)(t := WAcquire shared signaled timed_out)\<rparr>)"
| reacquire: "spcs s t = WAcquire shared signaled timed_out \<Longrightarrow> pcs (lock s) t = Idle \<Longrightarrow>
    sleep_step s (s\<lparr>lock := (lock s)\<lparr>pcs := (pcs (lock s))(t := acquiring shared)\<rparr>\<rparr>)"
| reacquiring: "spcs s t = WAcquire shared signaled timed_out \<Longrightarrow> pcs (lock s) t \<notin> {Idle, held shared} \<Longrightarrow>
    srw_step t (lock s) l \<Longrightarrow> sleep_step s (s\<lparr>lock := l\<rparr>)"
| come_back: "spcs s t = WAcquire shared signaled timed_out \<Longrightarrow> pcs (lock s) t = held shared \<Longrightarrow>
    sleep_step s (s\<lparr>spcs := (spcs s)(t := WOut),
      outcome := (outcome s)(t := Some (finish_wait signaled timed_out last_error))\<rparr>)"
| wake: "wake_one (sq s) = Some (q, w) \<Longrightarrow> sleep_step s (s\<lparr>sq := q\<rparr>)"
| wake_everyone: "wake_all (sq s) = Some (q, ws) \<Longrightarrow> sleep_step s (s\<lparr>sq := q\<rparr>)"

abbreviation sleep_reachable :: "sleep_sys \<Rightarrow> bool" where
  "sleep_reachable \<equiv> reach sleep_init sleep_step"

section \<open>The two parts\<close>

text \<open>The lock goes through states of the lock alone.\<close>

lemma acquire_call: "pcs l t = Idle \<Longrightarrow> srw_step t l (l\<lparr>pcs := (pcs l)(t := acquiring shared)\<rparr>)"
  by (rule srw_step.call) (simp add: acquiring_def)

lemma sleep_step_lock:
  assumes "sleep_step s s'"
  shows "lock s' = lock s \<or> srw_any_step (lock s) (lock s')"
  using assms acquire_call by (cases rule: sleep_step.cases) (auto simp: srw_any_step_def)

lemma sleep_lock_reachable: "sleep_reachable s \<Longrightarrow> srw_reachable (lock s)"
proof (induction rule: reach.induct)
  case (reach_init s)
  then show ?case by (intro reach.reach_init) (simp add: sleep_init_def)
next
  case (reach_step s s')
  then show ?case using sleep_step_lock [of s s'] by (auto intro: reach.reach_step)
qed

text \<open>The queue goes through states of the condition variable alone.\<close>

fun sleep_view :: "sleep_pc \<Rightarrow> cv_pc" where
  "sleep_view (WRelease _) = CWait" | "sleep_view (WSleep _) = CWait"
| "sleep_view (WPast _ g _) = CDone g" | "sleep_view _ = COut"

lemma sleep_step_queue:
  assumes "sleep_step s s'" and q: "cvq c = sq s" and v: "cpcs c = (\<lambda>t. sleep_view (spcs s t))"
  shows "\<exists>c'. cvq c' = sq s' \<and> cpcs c' = (\<lambda>t. sleep_view (spcs s' t)) \<and> (c' = c \<or> cv_step c c')"
proof -
  have stay: ?thesis if "sq s' = sq s" "(\<lambda>t. sleep_view (spcs s' t)) = (\<lambda>t. sleep_view (spcs s t))"
    using that q v by auto
  have go: ?thesis if "cv_step c c'" "cvq c' = sq s'" "cpcs c' = (\<lambda>t. sleep_view (spcs s' t))" for c'
    using that by blast
  show ?thesis using assms(1)
  proof (cases rule: sleep_step.cases)
    case (queue_up t sh)
    show ?thesis by (rule go [OF cv_step.wait [of c t]]) (use queue_up q v in \<open>auto simp: fun_eq_iff\<close>)
  next
    case (woken t sh)
    show ?thesis by (rule go [OF cv_step.granted [of c t]]) (use woken q v in \<open>auto simp: fun_eq_iff\<close>)
  next
    case (not_woken t sh tm)
    show ?thesis by (rule go [OF cv_step.timeout [of c t]]) (use not_woken q v in \<open>auto simp: fun_eq_iff\<close>)
  next
    case (dequeue t sh g tm q' sg)
    show ?thesis by (rule go [OF cv_step.return [of c t g q' sg]]) (use dequeue q v in \<open>auto simp: fun_eq_iff\<close>)
  next
    case (wake q' w)
    show ?thesis by (rule go [OF cv_step.wake [of c q' w]]) (use wake q v in auto)
  next
    case (wake_everyone q' ws)
    show ?thesis by (rule go [OF cv_step.wake_everyone [of c q' ws]]) (use wake_everyone q v in auto)
  qed ((rule stay; simp add: fun_eq_iff)+)
qed

interpretation sleeper: cv_client sleep_init sleep_step sq "\<lambda>s t. sleep_view (spcs s t)"
  by unfold_locales (auto simp: sleep_init_def intro: sleep_step_queue)

section \<open>Where a sleeping thread is in the lock\<close>

fun releasing_pc :: "bool \<Rightarrow> srw_pc \<Rightarrow> bool" where
  "releasing_pc shared HoldX = (\<not> shared)" | "releasing_pc shared RXEnter = (\<not> shared)"
| "releasing_pc shared RXBody = (\<not> shared)" | "releasing_pc shared RXLeave = (\<not> shared)"
| "releasing_pc shared HoldS = shared" | "releasing_pc shared RSEnter = shared"
| "releasing_pc shared RSBody = shared" | "releasing_pc shared RSLeave = shared"
| "releasing_pc shared Idle = True" | "releasing_pc shared _ = False"

fun acquiring_pc :: "bool \<Rightarrow> srw_pc \<Rightarrow> bool" where
  "acquiring_pc shared HoldX = (\<not> shared)" | "acquiring_pc shared XEnter = (\<not> shared)"
| "acquiring_pc shared XAnnounce = (\<not> shared)" | "acquiring_pc shared XTest = (\<not> shared)"
| "acquiring_pc shared XUnlock = (\<not> shared)" | "acquiring_pc shared XWait = (\<not> shared)"
| "acquiring_pc shared XReenter = (\<not> shared)" | "acquiring_pc shared XLeave = (\<not> shared)"
| "acquiring_pc shared HoldS = shared" | "acquiring_pc shared SEnter = shared"
| "acquiring_pc shared STest = shared" | "acquiring_pc shared SUnlock = shared"
| "acquiring_pc shared SWait = shared" | "acquiring_pc shared SReenter = shared"
| "acquiring_pc shared SLeave = shared"
| "acquiring_pc shared Idle = True" | "acquiring_pc shared _ = False"

fun placed :: "sleep_pc \<Rightarrow> srw_pc \<Rightarrow> bool" where
  "placed WOut p = True"
| "placed (WCreate shared) p = (p = held shared)"
| "placed (WRelease shared) p = releasing_pc shared p"
| "placed (WSleep _) p = (p = Idle)"
| "placed (WPast _ _ _) p = (p = Idle)"
| "placed (WAcquire shared _ _) p = acquiring_pc shared p"

definition sleep_inv :: "sleep_sys \<Rightarrow> bool" where
  "sleep_inv s \<longleftrightarrow> (\<forall>t. placed (spcs s t) (pcs (lock s) t))"

text \<open>A step of the lock moves one thread, along the routine it is in.\<close>

lemma srw_step_other: "srw_step t l l' \<Longrightarrow> u \<noteq> t \<Longrightarrow> pcs l' u = pcs l u"
  by (cases rule: srw_step.cases) auto

lemma srw_step_routine:
  assumes "srw_step t l l'"
  shows "releasing_pc sh (pcs l t) \<Longrightarrow> pcs l t \<noteq> Idle \<Longrightarrow> releasing_pc sh (pcs l' t)"
    and "acquiring_pc sh (pcs l t) \<Longrightarrow> pcs l t \<notin> {Idle, held sh} \<Longrightarrow> acquiring_pc sh (pcs l' t)"
  using assms
  by (cases rule: srw_step.cases; cases "pcs l t"; force simp: held_def split: if_splits prod.splits)+

lemma sleep_inv_move:
  assumes "sleep_inv s" and "\<And>u. u \<noteq> t \<Longrightarrow> spcs s' u = spcs s u"
    and "\<And>u. u \<noteq> t \<Longrightarrow> pcs (lock s') u = pcs (lock s) u"
    and "placed (spcs s' t) (pcs (lock s') t)"
  shows "sleep_inv s'"
  using assms unfolding sleep_inv_def by metis

lemma sleep_inv_step:
  assumes "sleep_step s s'" and inv: "sleep_inv s"
  shows "sleep_inv s'"
proof -
  have p: "placed (spcs s t) (pcs (lock s) t)" for t using inv by (simp add: sleep_inv_def)
  show ?thesis using assms(1)
  proof (cases rule: sleep_step.cases)
    case (use_lock t l)
    then show ?thesis by (intro sleep_inv_move [OF inv, of t]) (simp_all add: srw_step_other)
  next
    case (sleep t sh)
    then show ?thesis by (intro sleep_inv_move [OF inv, of t]) simp_all
  next
    case (no_event t sh)
    then show ?thesis by (intro sleep_inv_move [OF inv, of t]) simp_all
  next
    case (queue_up t sh)
    then show ?thesis using p [of t] by (intro sleep_inv_move [OF inv, of t]) (simp_all add: held_def)
  next
    case (releasing t sh l)
    then show ?thesis using p [of t]
      by (intro sleep_inv_move [OF inv, of t]) (simp_all add: srw_step_other srw_step_routine)
  next
    case (released t sh)
    then show ?thesis by (intro sleep_inv_move [OF inv, of t]) simp_all
  next
    case (woken t sh)
    then show ?thesis using p [of t] by (intro sleep_inv_move [OF inv, of t]) simp_all
  next
    case (not_woken t sh tm)
    then show ?thesis using p [of t] by (intro sleep_inv_move [OF inv, of t]) simp_all
  next
    case (dequeue t sh g tm q sg)
    then show ?thesis using p [of t] by (intro sleep_inv_move [OF inv, of t]) simp_all
  next
    case (reacquire t sh sg tm)
    then show ?thesis by (intro sleep_inv_move [OF inv, of t]) (simp_all add: acquiring_def)
  next
    case (reacquiring t sh sg tm l)
    then show ?thesis using p [of t]
      by (intro sleep_inv_move [OF inv, of t]) (simp_all add: srw_step_other srw_step_routine)
  next
    case (come_back t sh sg tm e)
    then show ?thesis by (intro sleep_inv_move [OF inv, of t]) simp_all
  qed (use inv in \<open>simp_all add: sleep_inv_def\<close>)
qed

interpretation sleep_sys: inductive_invariant sleep_init sleep_step sleep_inv
proof unfold_locales
  show "sleep_inv s" if "sleep_init s" for s using that by (simp add: sleep_inv_def sleep_init_def)
qed (rule sleep_inv_step)

section \<open>Properties\<close>

lemma returns_holding:
  assumes "sleep_step s s'" and "spcs s t \<noteq> WOut" and "spcs s' t = WOut" and "sleep_inv s"
  shows "\<exists>shared. (spcs s t = WCreate shared \<or> (\<exists>sg tm. spcs s t = WAcquire shared sg tm)) \<and>
    pcs (lock s') t = held shared"
proof -
  have p: "placed (spcs s t) (pcs (lock s) t)" using assms(4) by (simp add: sleep_inv_def)
  show ?thesis using assms(1-3) p
    by (cases rule: sleep_step.cases) (auto split: if_splits)
qed

text \<open>Runs of the lock alone, and a thread that takes the lock and goes to sleep.\<close>

lemma lock_alone:
  "srw_reachable l \<Longrightarrow>
     sleep_reachable \<lparr>lock = l, sq = new_cv_queue, spcs = \<lambda>_. WOut, outcome = \<lambda>_. None\<rparr>"
proof (induction rule: reach.induct)
  case (reach_init l)
  then show ?case by (intro reach.reach_init) (simp add: sleep_init_def)
next
  case (reach_step l l')
  then obtain t where "srw_step t l l'" by (auto simp: srw_any_step_def)
  then show ?case
    using sleep_step.use_lock [of "\<lparr>lock = l, sq = new_cv_queue, spcs = \<lambda>_. WOut, outcome = \<lambda>_. None\<rparr>" t l']
      reach.reach_step [OF reach_step.IH] by simp
qed

definition sleeper_at :: "sleep_pc \<Rightarrow> cv_queue \<Rightarrow> srw_sys \<Rightarrow> sleep_sys" where
  "sleeper_at p q l = \<lparr>lock = l, sq = q, spcs = (\<lambda>_. WOut)(4 := p), outcome = \<lambda>_. None\<rparr>"

lemma sample_sleeper:
  obtains l where "pcs l 4 = HoldX" "sleep_reachable (sleeper_at (WCreate False) new_cv_queue l)"
    "sleep_reachable (sleeper_at (WRelease False) (enqueue_waiter 4 new_cv_queue) l)"
proof -
  obtain l where l: "srw_run [(4, Some TXEnter), (4, None), (4, None), (4, None)] srw_start = Some l"
      "pcs l 4 = HoldX"
    by (simp add: srw_eval)
  let ?s = "\<lparr>lock = l, sq = new_cv_queue, spcs = \<lambda>_. WOut, outcome = \<lambda>_. None\<rparr>"
  let ?c = "sleeper_at (WCreate False) new_cv_queue l"
  have "sleep_step ?s ?c"
    using sleep_step.sleep [of ?s 4 False] l(2) by (simp add: sleeper_at_def held_def)
  then have c: "sleep_reachable ?c" by (rule reach.reach_step [OF lock_alone [OF srw_run_start [OF l(1)]]])
  have "sleep_step ?c (sleeper_at (WRelease False) (enqueue_waiter 4 new_cv_queue) l)"
    using sleep_step.queue_up [of ?c 4 False] by (simp add: sleeper_at_def)
  from that [OF l(2) c reach.reach_step [OF c this]] show ?thesis .
qed

text \<open>
  Sleeping with a slim lock gives the lock up and starts to wait in one go, as far as wakers can see,
  although the release runs interleaved with other threads: from before the release begins, a sleeping
  thread either has its event already or is among those the next wake-all call signals, and a
  wake-one call signals a thread that sleeps as long as there is one without its event.
\<close>

theorem srw_sleep_misses_no_wake:
  assumes "sleep_reachable s" and "spcs s t = WRelease shared \<or> spcs s t = WSleep shared"
    and "\<not> event (sq s) t"
  shows "(\<exists>q ws. wake_all (sq s) = Some (q, ws) \<and> t \<in> set ws \<and> event q t) \<and>
         (\<exists>q w. wake_one (sq s) = Some (q, Some w) \<and> event q w \<and> \<not> queued q w)"
  using sleeper.wake_reaches [OF assms(1) _ assms(3)] assms(2) by (elim disjE) simp_all

theorem srw_sleep_misses_no_wake_witness:
  "\<exists>q ws. wake_all (enqueue_waiter 4 new_cv_queue) = Some (q, ws) \<and> 4 \<in> set ws \<and> event q 4"
proof -
  obtain l where r: "sleep_reachable (sleeper_at (WRelease False) (enqueue_waiter 4 new_cv_queue) l)"
    by (rule sample_sleeper)
  show ?thesis using srw_sleep_misses_no_wake [OF r, where t = 4 and shared = False] new_waiter_no_event
    by (simp add: sleeper_at_def)
qed



end
