(* ===== verification/Job_Query.thy ===== *)
theory Job_Query
  imports W2K_Prelude
begin

text \<open>
  \<open>IsProcessInJob\<close> for Windows 2000, in its two versions: \<open>compat/w2k_job.c\<close> asks
  \<open>NtQueryInformationJobObject\<close> with growing buffers, \<open>compat/w2k_sync.c\<close> asks kernel32's
  \<open>QueryInformationJobObject\<close>. Both first turn the process handle into a process id. The system
  calls are parameters: what they answer for a handle and a buffer for so many process ids.
\<close>

section \<open>The process behind a handle\<close>

abbreviation ERROR_SUCCESS :: u32 where "ERROR_SUCCESS \<equiv> 0"
abbreviation ERROR_INVALID_HANDLE :: u32 where "ERROR_INVALID_HANDLE \<equiv> 6"
abbreviation ERROR_NOT_ENOUGH_MEMORY :: u32 where "ERROR_NOT_ENOUGH_MEMORY \<equiv> 8"
abbreviation ERROR_GEN_FAILURE :: u32 where "ERROR_GEN_FAILURE \<equiv> 31"
abbreviation ERROR_INVALID_PARAMETER :: u32 where "ERROR_INVALID_PARAMETER \<equiv> 87"
abbreviation ERROR_INSUFFICIENT_BUFFER :: u32 where "ERROR_INSUFFICIENT_BUFFER \<equiv> 122"
abbreviation ERROR_PROC_NOT_FOUND :: u32 where "ERROR_PROC_NOT_FOUND \<equiv> 127"
abbreviation ERROR_MORE_DATA :: u32 where "ERROR_MORE_DATA \<equiv> 234"

abbreviation STATUS_INFO_LENGTH_MISMATCH :: u32 where "STATUS_INFO_LENGTH_MISMATCH \<equiv> 0xC0000004"
abbreviation STATUS_BUFFER_OVERFLOW :: u32 where "STATUS_BUFFER_OVERFLOW \<equiv> 0x80000005"
abbreviation STATUS_BUFFER_TOO_SMALL :: u32 where "STATUS_BUFFER_TOO_SMALL \<equiv> 0xC0000023"

text \<open>
  A status is a signed LONG, negative for warnings and errors. A native query gives its status and
  the process ids it put into the list.
\<close>

record nt_api =
  current_pid :: u32
  query_process :: "(u32 \<Rightarrow> u32 \<times> u32) option"
  query_job :: "(u32 \<Rightarrow> nat \<Rightarrow> u32 \<times> u32 list) option"
  status_to_error :: "(u32 \<Rightarrow> u32) option"
  heap_gives :: "nat \<Rightarrow> bool"

definition failed :: "u32 \<Rightarrow> bool" where
  "failed status \<longleftrightarrow> sint status < 0"

definition set_status_error :: "nt_api \<Rightarrow> u32 \<Rightarrow> u32" where
  "set_status_error api status =
     (case status_to_error api of Some convert \<Rightarrow> convert status | None \<Rightarrow> ERROR_GEN_FAILURE)"

text \<open>The pseudo handle of the current process is -1. The result is the last error or the id.\<close>

definition process_id_from_handle :: "nt_api \<Rightarrow> u32 \<Rightarrow> u32 + u32" where
  "process_id_from_handle api process =
     (if process = 0 then Inl ERROR_INVALID_PARAMETER
      else if process = -1 then Inr (current_pid api)
      else case query_process api of
        None \<Rightarrow> Inl ERROR_PROC_NOT_FOUND
      | Some query \<Rightarrow>
          let (status, unique_process_id) = query process in
            if failed status then Inl (set_status_error api status) else Inr unique_process_id)"

section \<open>The native version\<close>

datatype heap_act = Alloc nat | Free nat

text \<open>
  The loop: the last error or the list, with the heap calls made; \<open>None\<close> when it does not end.
  On success the list is still allocated.
\<close>

partial_function (option) job_loop ::
    "nt_api \<Rightarrow> (u32 \<Rightarrow> nat \<Rightarrow> u32 \<times> u32 list) \<Rightarrow> u32 \<Rightarrow> nat \<Rightarrow> heap_act list \<Rightarrow>
     ((u32 + nat \<times> u32 list) \<times> heap_act list) option" where
  "job_loop api query job capacity acts =
     (if \<not> heap_gives api capacity then Some (Inl ERROR_NOT_ENOUGH_MEMORY, acts)
      else
        let acts = acts @ [Alloc capacity]; (status, ids) = query job capacity in
          if \<not> failed status then Some (Inr (capacity, ids), acts)
          else
            let acts = acts @ [Free capacity] in
              if status \<in> {STATUS_INFO_LENGTH_MISMATCH, STATUS_BUFFER_OVERFLOW, STATUS_BUFFER_TOO_SMALL} then
                (if capacity \<ge> 16384 then Some (Inl ERROR_INSUFFICIENT_BUFFER, acts)
                 else job_loop api query job (capacity * 2) acts)
              else Some (Inl (set_status_error api status), acts))"

text \<open>
  What a call leaves: the returned BOOL, the value stored through \<open>result\<close> (if the pointer is
  given), the last error (unless it is left as it was) and the heap calls.
\<close>

record job_answer =
  returned :: bool
  stored :: "bool option"
  last_error :: u32
  heap_acts :: "heap_act list"

definition W2KIsProcessInJob :: "nt_api \<Rightarrow> u32 \<Rightarrow> u32 \<Rightarrow> bool \<Rightarrow> job_answer option" where
  "W2KIsProcessInJob api process job result_given =
     (if \<not> result_given
      then Some \<lparr>returned = False, stored = None, last_error = ERROR_INVALID_PARAMETER, heap_acts = []\<rparr>
      else case process_id_from_handle api process of
        Inl error \<Rightarrow> Some \<lparr>returned = False, stored = Some False, last_error = error, heap_acts = []\<rparr>
      | Inr process_id \<Rightarrow>
          if job = 0
          then Some \<lparr>returned = True, stored = Some False, last_error = ERROR_SUCCESS, heap_acts = []\<rparr>
          else case query_job api of
            None \<Rightarrow> Some \<lparr>returned = False, stored = Some False, last_error = ERROR_PROC_NOT_FOUND, heap_acts = []\<rparr>
          | Some query \<Rightarrow>
              (case job_loop api query job 32 [] of
                 None \<Rightarrow> None
               | Some (Inl error, acts) \<Rightarrow>
                   Some \<lparr>returned = False, stored = Some False, last_error = error, heap_acts = acts\<rparr>
               | Some (Inr (capacity, ids), acts) \<Rightarrow>
                   Some \<lparr>returned = True, stored = Some (process_id \<in> set ids),
                     last_error = ERROR_SUCCESS, heap_acts = acts @ [Free capacity]\<rparr>))"

text \<open>A list of heap calls that frees every block it allocates before the next.\<close>

fun paired :: "heap_act list \<Rightarrow> bool" where
  "paired [] = True"
| "paired (Alloc n # Free m # rest) = (n = m \<and> paired rest)"
| "paired _ = False"

lemma paired_append [simp]: "paired xs \<Longrightarrow> paired (xs @ ys) = paired ys"
  by (induction xs rule: paired.induct) auto

text \<open>From \<open>32 * 2 ^ k\<close> on, the loop asks at most \<open>10 - k\<close> times.\<close>

lemma job_loop_ends:
  "k \<le> 9 \<Longrightarrow> \<exists>r more. job_loop api query job (32 * 2 ^ k) acts = Some (r, acts @ more) \<and>
     length more \<le> 2 * (10 - k) \<and>
     (case r of Inl _ \<Rightarrow> paired more | Inr (capacity, _) \<Rightarrow> paired (more @ [Free capacity]))"
proof (induction "9 - k" arbitrary: k acts)
  case 0
  then have k: "k = 9" by simp
  show ?case unfolding k by (subst job_loop.simps) (auto simp: case_prod_beta Let_def)
next
  case (Suc n)
  then have "n = 9 - Suc k" "Suc k \<le> 9" by auto
  note IH = Suc.hyps(1) [OF this]
  have p: "(32 :: nat) * 2 ^ k * 2 = 32 * 2 ^ Suc k" by simp
  have small: "\<not> (32 :: nat) * 2 ^ k \<ge> 16384"
  proof -
    have "k \<le> 8" using Suc by simp
    then have "(2 :: nat) ^ k \<le> 2 ^ 8" by (rule power_increasing) simp
    then show ?thesis by simp
  qed
  let ?c = "32 * 2 ^ k :: nat"
  obtain r more where m: "job_loop api query job (?c * 2) (acts @ [Alloc ?c, Free ?c]) =
        Some (r, (acts @ [Alloc ?c, Free ?c]) @ more)"
      "length more \<le> 2 * (10 - Suc k)"
      "case r of Inl _ \<Rightarrow> paired more | Inr (capacity, _) \<Rightarrow> paired (more @ [Free capacity])"
    using IH [of "acts @ [Alloc ?c, Free ?c]"] unfolding p by blast
  show ?case
  proof (cases "heap_gives api ?c \<and> failed (fst (query job ?c)) \<and>
      fst (query job ?c) \<in> {STATUS_INFO_LENGTH_MISMATCH, STATUS_BUFFER_OVERFLOW, STATUS_BUFFER_TOO_SMALL}")
    case True
    then have "job_loop api query job ?c acts = Some (r, acts @ [Alloc ?c, Free ?c] @ more)"
      using m(1) small by (subst job_loop.simps) (auto simp: case_prod_beta Let_def)
    moreover have "length ([Alloc ?c, Free ?c] @ more) \<le> 2 * (10 - k)" using m(2) Suc by simp
    ultimately show ?thesis using m(3)
      by (intro exI [of _ r] exI [of _ "[Alloc ?c, Free ?c] @ more"]) (auto split: sum.splits)
  next
    case False
    have "1 \<le> 10 - k" using Suc.prems by simp
    then have "1 \<le> 2 * (10 - k)" "2 \<le> 2 * (10 - k)" by simp_all
    then show ?thesis using False by (subst job_loop.simps) (auto simp: case_prod_beta Let_def)
  qed
qed

section \<open>The version over kernel32\<close>

text \<open>
  What \<open>QueryInformationJobObject\<close> answers: success, the ids in the list, the number of assigned
  processes it stored, and the last error.
\<close>

record k32_api = nt_api +
  query_info_job :: "(u32 \<Rightarrow> nat \<Rightarrow> bool \<times> u32 list \<times> u32 \<times> u32) option"

definition get_process_id_from_handle :: "nt_api \<Rightarrow> u32 \<Rightarrow> u32 + u32" where
  "get_process_id_from_handle api process =
     (if process = 0 then Inl ERROR_INVALID_PARAMETER
      else if process = -1 then Inr (current_pid api)
      else case query_process api of
        None \<Rightarrow> Inl ERROR_PROC_NOT_FOUND
      | Some query \<Rightarrow>
          let (status, unique_process_id) = query process in
            if failed status then Inl ERROR_INVALID_HANDLE else Inr unique_process_id)"

text \<open>The loop: an error, a job that a NULL handle does not name, or the list.\<close>

datatype sync_result = Failed u32 | NoJob | Listed nat "u32 list"

partial_function (option) sync_loop ::
    "nt_api \<Rightarrow> (u32 \<Rightarrow> nat \<Rightarrow> bool \<times> u32 list \<times> u32 \<times> u32) \<Rightarrow> u32 \<Rightarrow> nat \<Rightarrow> heap_act list \<Rightarrow>
     (sync_result \<times> heap_act list) option" where
  "sync_loop api query job capacity acts =
     (if \<not> heap_gives api capacity then Some (Failed ERROR_NOT_ENOUGH_MEMORY, acts)
      else
        let acts = acts @ [Alloc capacity]; (queried, ids, assigned, error) = query job capacity in
          if queried then Some (Listed capacity ids, acts)
          else
            let acts = acts @ [Free capacity] in
              if error = ERROR_MORE_DATA \<and> unat assigned > capacity
              then sync_loop api query job (unat assigned) acts
              else if job = 0 \<and> error = ERROR_INVALID_HANDLE then Some (NoJob, acts)
              else Some (Failed error, acts))"

definition sync_IsProcessInJob :: "k32_api \<Rightarrow> u32 \<Rightarrow> u32 \<Rightarrow> bool \<Rightarrow> job_answer option" where
  "sync_IsProcessInJob api process job result_given =
     (if \<not> result_given
      then Some \<lparr>returned = False, stored = None, last_error = ERROR_INVALID_PARAMETER, heap_acts = []\<rparr>
      else case get_process_id_from_handle (nt_api.truncate api) process of
        Inl error \<Rightarrow> Some \<lparr>returned = False, stored = Some False, last_error = error, heap_acts = []\<rparr>
      | Inr process_id \<Rightarrow>
          (case query_info_job api of
             None \<Rightarrow> Some \<lparr>returned = False, stored = Some False, last_error = ERROR_PROC_NOT_FOUND, heap_acts = []\<rparr>
           | Some query \<Rightarrow>
               (case sync_loop (nt_api.truncate api) query job 64 [] of
                  None \<Rightarrow> None
                | Some (Failed error, acts) \<Rightarrow>
                    Some \<lparr>returned = False, stored = Some False, last_error = error, heap_acts = acts\<rparr>
                | Some (NoJob, acts) \<Rightarrow>
                    Some \<lparr>returned = True, stored = Some False, last_error = ERROR_SUCCESS, heap_acts = acts\<rparr>
                | Some (Listed capacity ids, acts) \<Rightarrow>
                    Some \<lparr>returned = True, stored = Some (process_id \<in> set ids),
                      last_error = ERROR_SUCCESS, heap_acts = acts @ [Free capacity]\<rparr>)))"

text \<open>The capacity grows at every turn and is a DWORD, so the loop ends whatever is answered.\<close>

lemma sync_loop_ends:
  "\<exists>r more. sync_loop api query job capacity acts = Some (r, acts @ more) \<and>
     (case r of Listed c _ \<Rightarrow> paired (more @ [Free c]) | _ \<Rightarrow> paired more)"
proof (induction "2 ^ 32 - capacity" arbitrary: capacity acts rule: less_induct)
  case less
  obtain queried ids assigned error where q: "query job capacity = (queried, ids, assigned, error)"
    by (cases "query job capacity")
  let ?acts = "acts @ [Alloc capacity, Free capacity]"
  show ?case
  proof (cases "heap_gives api capacity \<and> \<not> queried \<and> error = ERROR_MORE_DATA \<and> unat assigned > capacity")
    case True
    have "unat assigned < 2 ^ 32" using unat_less_pow [of assigned] by simp
    then have "2 ^ 32 - unat assigned < 2 ^ 32 - capacity" using True by linarith
    from less [OF this, of ?acts]
    obtain r more where "sync_loop api query job (unat assigned) ?acts = Some (r, ?acts @ more)"
      "case r of Listed c _ \<Rightarrow> paired (more @ [Free c]) | _ \<Rightarrow> paired more" by blast
    then show ?thesis using True q
      by (subst sync_loop.simps)
         (auto simp: Let_def intro!: exI [of _ "[Alloc capacity, Free capacity] @ more"] split: sync_result.splits)
  next
    case False
    then show ?thesis using q by (subst sync_loop.simps) (auto simp: Let_def)
  qed
qed

section \<open>What is answered for a job\<close>

text \<open>
  A job as documented: a query with room for all its process ids succeeds and lists them, one
  with less room reports that; heap blocks are available.
\<close>

definition native_job :: "nt_api \<Rightarrow> (u32 \<Rightarrow> nat \<Rightarrow> u32 \<times> u32 list) \<Rightarrow> u32 \<Rightarrow> u32 list \<Rightarrow> bool" where
  "native_job api query job pids \<longleftrightarrow> (\<forall>c. heap_gives api c) \<and>
     (\<forall>c. if length pids \<le> c then query job c = (0, pids)
          else fst (query job c) \<in> {STATUS_INFO_LENGTH_MISMATCH, STATUS_BUFFER_OVERFLOW, STATUS_BUFFER_TOO_SMALL})"

definition k32_job ::
    "nt_api \<Rightarrow> (u32 \<Rightarrow> nat \<Rightarrow> bool \<times> u32 list \<times> u32 \<times> u32) \<Rightarrow> u32 \<Rightarrow> u32 list \<Rightarrow> bool" where
  "k32_job api query job pids \<longleftrightarrow> (\<forall>c. heap_gives api c) \<and> length pids < 2 ^ 32 \<and>
     (\<forall>c. if length pids \<le> c then \<exists>n e. query job c = (True, pids, n, e)
          else \<exists>ids. query job c = (False, ids, of_nat (length pids), ERROR_MORE_DATA))"

lemma failed_statuses:
  "failed STATUS_INFO_LENGTH_MISMATCH" "failed STATUS_BUFFER_OVERFLOW" "failed STATUS_BUFFER_TOO_SMALL"
  "\<not> failed 0"
  by (simp_all add: failed_def)

lemma native_loop:
  assumes "native_job api query job pids"
  shows "k \<le> 9 \<Longrightarrow> \<exists>c more.
    job_loop api query job (32 * 2 ^ k) acts =
      Some (if length pids \<le> 16384 then Inr (c, pids) else Inl ERROR_INSUFFICIENT_BUFFER, more)"
proof (induction "9 - k" arbitrary: k acts)
  case 0
  then have k: "k = 9" by simp
  have "query job 16384 = (0, pids)" if "length pids \<le> 16384"
    using assms that unfolding native_job_def by metis
  moreover have "fst (query job 16384) \<in> {STATUS_INFO_LENGTH_MISMATCH, STATUS_BUFFER_OVERFLOW, STATUS_BUFFER_TOO_SMALL}"
    if "\<not> length pids \<le> 16384"
    using assms that unfolding native_job_def by metis
  moreover have "heap_gives api 16384" using assms by (simp add: native_job_def)
  ultimately show ?case unfolding k using failed_statuses
    by (subst job_loop.simps) (auto simp: case_prod_beta Let_def)
next
  case (Suc n)
  then have "n = 9 - Suc k" "Suc k \<le> 9" by auto
  note IH = Suc.hyps(1) [OF this]
  let ?c = "32 * 2 ^ k :: nat"
  have "k \<le> 8" using Suc by simp
  then have "(2 :: nat) ^ k \<le> 2 ^ 8" by (rule power_increasing) simp
  then have small: "?c \<le> 8192" by simp
  have heap: "heap_gives api ?c" using assms by (simp add: native_job_def)
  show ?case
  proof (cases "length pids \<le> ?c")
    case True
    then have "query job ?c = (0, pids)" using assms unfolding native_job_def by metis
    moreover have "length pids \<le> 16384" using True small by simp
    ultimately show ?thesis using heap failed_statuses(4) by (subst job_loop.simps) (simp add: Let_def)
  next
    case False
    then have st: "fst (query job ?c) \<in> {STATUS_INFO_LENGTH_MISMATCH, STATUS_BUFFER_OVERFLOW, STATUS_BUFFER_TOO_SMALL}"
      using assms unfolding native_job_def by metis
    then have f: "failed (fst (query job ?c))" using failed_statuses by auto
    have "job_loop api query job ?c acts =
        job_loop api query job (32 * 2 ^ Suc k) (acts @ [Alloc ?c, Free ?c])"
      using heap st f small by (subst job_loop.simps) (simp add: case_prod_beta Let_def ac_simps)
    then show ?thesis using IH [of "acts @ [Alloc ?c, Free ?c]"] by simp
  qed
qed

lemma k32_jobD:
  assumes "k32_job api query job pids"
  shows "length pids \<le> c \<Longrightarrow> \<exists>n e. query job c = (True, pids, n, e)"
    and "\<not> length pids \<le> c \<Longrightarrow> \<exists>ids. query job c = (False, ids, of_nat (length pids), ERROR_MORE_DATA)"
proof -
  have "if length pids \<le> c then \<exists>n e. query job c = (True, pids, n, e)
      else \<exists>ids. query job c = (False, ids, of_nat (length pids), ERROR_MORE_DATA)"
    using assms unfolding k32_job_def by blast
  then show "length pids \<le> c \<Longrightarrow> \<exists>n e. query job c = (True, pids, n, e)"
    and "\<not> length pids \<le> c \<Longrightarrow> \<exists>ids. query job c = (False, ids, of_nat (length pids), ERROR_MORE_DATA)"
    by simp_all
qed

lemma k32_loop:
  assumes "k32_job api query job pids"
  shows "\<exists>c more. sync_loop api query job 64 [] = Some (Listed c pids, more)"
proof -
  have heap: "heap_gives api c" for c using assms by (simp add: k32_job_def)
  have full: "\<exists>more. sync_loop api query job c acts = Some (Listed c pids, more)" if "length pids \<le> c" for c acts
  proof -
    obtain n e where "query job c = (True, pids, n, e)" using k32_jobD(1) [OF assms \<open>length pids \<le> c\<close>] by blast
    then show ?thesis using heap by (subst sync_loop.simps) (simp add: Let_def)
  qed
  show ?thesis
  proof (cases "length pids \<le> 64")
    case True
    then show ?thesis using full by blast
  next
    case False
    then obtain ids where q: "query job 64 = (False, ids, of_nat (length pids), ERROR_MORE_DATA)"
      using k32_jobD(2) [OF assms] by blast
    have n: "unat (of_nat (length pids) :: u32) = length pids"
      using assms by (intro unat_of_nat_small) (simp add: k32_job_def)
    have "sync_loop api query job 64 [] = sync_loop api query job (length pids) [Alloc 64, Free 64]"
      using heap q n False by (subst sync_loop.simps) (simp add: Let_def)
    then show ?thesis using full [OF order_refl, of "[Alloc 64, Free 64]"] by auto
  qed
qed

definition sample_nt :: k32_api where
  "sample_nt = \<lparr>current_pid = 7, query_process = None,
     query_job = Some (\<lambda>job c. if 2 \<le> c then (0, [5, 7]) else (STATUS_BUFFER_OVERFLOW, [])),
     status_to_error = None, heap_gives = \<lambda>_. True,
     query_info_job = Some (\<lambda>job c. if 2 \<le> c then (True, [5, 7], 2, 0) else (False, [], 2, ERROR_MORE_DATA))\<rparr>"

text \<open>
  Whatever the system answers, \<open>W2KIsProcessInJob\<close> returns: the buffer loop ends after at most
  ten queries, every block is freed before the next is allocated and before the call returns,
  and a failing call has stored FALSE.
\<close>

theorem job_query_returns:
  "\<exists>a. W2KIsProcessInJob api process job result_given = Some a \<and>
     paired (heap_acts a) \<and> length (heap_acts a) \<le> 21 \<and>
     (stored a = None \<longleftrightarrow> \<not> result_given) \<and> (returned a \<or> stored a \<noteq> Some True)"
proof -
  have loop: "\<exists>r more. job_loop api query job 32 [] = Some (r, more) \<and> length more \<le> 20 \<and>
      (case r of Inl _ \<Rightarrow> paired more | Inr (capacity, _) \<Rightarrow> paired (more @ [Free capacity]))" for query
    using job_loop_ends [of 0 api query job "[]"] by simp
  show ?thesis
  proof (cases "query_job api")
    case None
    then show ?thesis by (auto simp: W2KIsProcessInJob_def split: sum.split)
  next
    case (Some query)
    obtain r more where "job_loop api query job 32 [] = Some (r, more)" "length more \<le> 20"
      "case r of Inl _ \<Rightarrow> paired more | Inr (capacity, _) \<Rightarrow> paired (more @ [Free capacity])"
      using loop by blast
    then show ?thesis using Some
      by (cases r) (auto simp: W2KIsProcessInJob_def split: sum.split prod.split)
  qed
qed

theorem job_query_returns_witness:
  "\<exists>a. W2KIsProcessInJob (nt_api.truncate sample_nt) 0 1 False = Some a \<and> stored a = None"
  using job_query_returns [of "nt_api.truncate sample_nt" 0 1 False] by auto

text \<open>
  C16: the two versions agree: for a job of at most 16384 processes that both system calls report
  as documented, and a process handle that both can resolve, both calls succeed and store
  whether the process is one of the job's.
\<close>

theorem job_versions_agree:
  assumes "process_id_from_handle (nt_api.truncate api) process = Inr pid"
    and "job \<noteq> 0" and "length pids \<le> 16384"
    and "query_job api = Some native" and "native_job (nt_api.truncate api) native job pids"
    and "query_info_job api = Some k32" and "k32_job (nt_api.truncate api) k32 job pids"
  shows "\<exists>a b. W2KIsProcessInJob (nt_api.truncate api) process job True = Some a \<and>
    sync_IsProcessInJob api process job True = Some b \<and>
    returned a \<and> returned b \<and> stored a = Some (pid \<in> set pids) \<and> stored b = stored a \<and>
    last_error a = ERROR_SUCCESS \<and> last_error b = ERROR_SUCCESS"
proof -
  have g: "get_process_id_from_handle (nt_api.truncate api) process = Inr pid"
    using assms(1) by (auto simp: process_id_from_handle_def get_process_id_from_handle_def Let_def
        split: if_splits option.splits prod.splits)
  obtain c more where n: "job_loop (nt_api.truncate api) native job 32 [] = Some (Inr (c, pids), more)"
    using native_loop [OF assms(5), of 0 "[]"] assms(3) by auto
  obtain d more' where k: "sync_loop (nt_api.truncate api) k32 job 64 [] = Some (Listed d pids, more')"
    using k32_loop [OF assms(7)] by blast
  have "query_job (nt_api.truncate api) = Some native" using assms(4) by (simp add: nt_api.truncate_def)
  then show ?thesis using assms(1,2,6) g n k
    by (simp add: W2KIsProcessInJob_def sync_IsProcessInJob_def)
qed

theorem job_versions_agree_witness:
  "\<exists>a. sync_IsProcessInJob sample_nt (-1) 1 True = Some a \<and> stored a = Some True"
proof -
  let ?native = "\<lambda>(job :: u32) c. if 2 \<le> (c :: nat) then (0, [5, 7]) else (STATUS_BUFFER_OVERFLOW, [] :: u32 list)"
  let ?k32 = "\<lambda>(job :: u32) c. if 2 \<le> (c :: nat) then (True, [5, 7], 2, 0)
    else (False, [] :: u32 list, 2 :: u32, ERROR_MORE_DATA)"
  have "\<exists>a b. W2KIsProcessInJob (nt_api.truncate sample_nt) (-1) 1 True = Some a \<and>
      sync_IsProcessInJob sample_nt (-1) 1 True = Some b \<and> returned a \<and> returned b \<and>
      stored a = Some (7 \<in> set [5, 7 :: u32]) \<and> stored b = stored a \<and>
      last_error a = ERROR_SUCCESS \<and> last_error b = ERROR_SUCCESS"
    by (rule job_versions_agree [of _ _ _ _ _ ?native ?k32])
      (simp_all add: sample_nt_def nt_api.truncate_def process_id_from_handle_def native_job_def k32_job_def)
  then show ?thesis by auto
qed

end
