(* ===== verification/Veh_List.thy ===== *)
theory Veh_List
  imports W2K_Prelude
begin

text \<open>
  The doubly linked list of \<open>compat/w2k_veh.c\<close>: \<open>LIST_ENTRY\<close> nodes in a ring around a
  head, with \<open>remove_list_entry\<close>, \<open>insert_list_head\<close> and \<open>insert_list_tail\<close> as the
  sequences of pointer stores of the source. The interface \<open>handler_ring\<close> says what the
  handler code relies on: a ring stands for a list, and the three operations delete from it,
  prepend to it and append to it.
\<close>

section \<open>The stores\<close>

record list_links =
  Flink :: "nat \<Rightarrow> nat"
  Blink :: "nat \<Rightarrow> nat"

definition set_flink :: "nat \<Rightarrow> nat \<Rightarrow> list_links \<Rightarrow> list_links" where
  "set_flink a b h = h\<lparr>Flink := (Flink h)(a := b)\<rparr>"

definition set_blink :: "nat \<Rightarrow> nat \<Rightarrow> list_links \<Rightarrow> list_links" where
  "set_blink a b h = h\<lparr>Blink := (Blink h)(a := b)\<rparr>"

definition remove_list_entry :: "nat \<Rightarrow> list_links \<Rightarrow> list_links" where
  "remove_list_entry entry h =
     (let h = set_flink (Blink h entry) (Flink h entry) h in
        set_blink (Flink h entry) (Blink h entry) h)"

definition insert_list_head :: "nat \<Rightarrow> nat \<Rightarrow> list_links \<Rightarrow> list_links" where
  "insert_list_head head entry h =
     (let h = set_flink entry (Flink h head) h;
          h = set_blink entry head h;
          h = set_blink (Flink h head) entry h in
        set_flink head entry h)"

definition insert_list_tail :: "nat \<Rightarrow> nat \<Rightarrow> list_links \<Rightarrow> list_links" where
  "insert_list_tail head entry h =
     (let h = set_flink entry head h;
          h = set_blink entry (Blink h head) h;
          h = set_flink (Blink h head) entry h in
        set_blink head entry h)"

lemmas link_defs = set_flink_def set_blink_def remove_list_entry_def insert_list_head_def
  insert_list_tail_def Let_def

section \<open>The list that a ring stands for\<close>

text \<open>A doubly linked stretch from \<open>a\<close> over \<open>xs\<close> to \<open>b\<close>.\<close>

fun stretch :: "list_links \<Rightarrow> nat \<Rightarrow> nat list \<Rightarrow> nat \<Rightarrow> bool" where
  "stretch h a [] b \<longleftrightarrow> Flink h a = b \<and> Blink h b = a"
| "stretch h a (x # xs) b \<longleftrightarrow> Flink h a = x \<and> Blink h x = a \<and> stretch h x xs b"

definition ring :: "nat \<Rightarrow> list_links \<Rightarrow> nat list \<Rightarrow> bool" where
  "ring head h xs \<longleftrightarrow> distinct (head # xs) \<and> stretch h head xs head"

lemma stretch_append:
  "stretch h a (xs @ y # ys) b \<longleftrightarrow> stretch h a xs y \<and> stretch h y ys b"
  by (induction xs arbitrary: a) auto

text \<open>Stores outside a stretch do not change it.\<close>

lemma stretch_cong:
  assumes "stretch h a xs b"
    and "\<And>x. x \<in> set (a # xs) \<Longrightarrow> Flink h' x = Flink h x"
    and "\<And>x. x \<in> set (xs @ [b]) \<Longrightarrow> Blink h' x = Blink h x"
  shows "stretch h' a xs b"
  using assms
proof (induction xs arbitrary: a)
  case (Cons x xs)
  have "stretch h' x xs b" by (rule Cons.IH) (use Cons.prems in auto)
  then show ?case using Cons.prems by simp
qed simp

lemma ring_next:
  assumes "ring head h xs" and "c \<in> set (head # xs)"
  shows "Flink h c \<in> set (head # xs)"
proof -
  have succ: "stretch h a ys b \<Longrightarrow> c \<in> set (a # ys) \<Longrightarrow> Flink h c \<in> set (ys @ [b])" for a ys b
    by (induction ys arbitrary: a) auto
  show ?thesis using assms succ [of head xs head] by (auto simp: ring_def)
qed

lemma stretch_ends:
  "stretch h a xs b \<Longrightarrow> Blink h b = last (a # xs) \<and> Flink h a = hd (xs @ [b])"
  by (induction xs arbitrary: a) auto

lemma hd_in: "hd (zs @ [b]) \<in> set zs \<union> {b}"
  by (cases zs) auto

lemma stretch_remove:
  assumes "stretch h a (ys @ e # zs) b" and "distinct (a # ys @ e # zs)" and "b \<notin> set (ys @ e # zs)"
    and f: "Flink h' = (Flink h)(last (a # ys) := hd (zs @ [b]))"
    and g: "Blink h' = (Blink h)(hd (zs @ [b]) := last (a # ys))"
  shows "stretch h' a (ys @ zs) b"
  using assms
proof (induction ys arbitrary: a)
  case Nil
  show ?case
  proof (cases zs)
    case (Cons z zs')
    have "stretch h' z zs' b"
      by (rule stretch_cong [of h z zs' b]) (use Nil Cons in auto)
    then show ?thesis using Nil.prems(4,5) by (simp add: Cons)
  qed (use Nil in simp)
next
  case (Cons y ys)
  have "stretch h' y (ys @ zs) b"
    by (rule Cons.IH) (use Cons.prems in simp_all)
  moreover have "a \<noteq> last (y # ys)"
    using Cons.prems(2) last_in_set [of "y # ys"] by auto
  moreover have "y \<noteq> hd (zs @ [b])"
    using Cons.prems(2,3) hd_in [of zs b] by auto
  ultimately show ?case using Cons.prems(1,4,5) by simp
qed

lemma ring_remove:
  assumes "ring head h xs" and "e \<in> set xs"
  shows "ring head (remove_list_entry e h) (remove1 e xs)"
proof -
  obtain ys zs where xs: "xs = ys @ e # zs" using assms(2) by (meson split_list)
  have d: "distinct (head # ys @ e # zs)" and s: "stretch h head (ys @ e # zs) head"
    using assms(1) unfolding ring_def xs by blast+
  then have "stretch h head ys e" "stretch h e zs head" by (simp_all add: stretch_append)
  then have ends: "Blink h e = last (head # ys)" "Flink h e = hd (zs @ [head])"
    using stretch_ends by blast+
  have "last (head # ys) \<noteq> e" using d last_in_set [of "head # ys"] by auto
  then have "stretch (remove_list_entry e h) head (ys @ zs) head"
    using d ends by (intro stretch_remove [OF s])
      (simp_all add: remove_list_entry_def set_flink_def set_blink_def Let_def)
  moreover have "remove1 e xs = ys @ zs" using d by (simp add: xs remove1_append)
  ultimately show ?thesis using d by (simp add: ring_def)
qed

text \<open>Inserting between two neighbours, the place that both insertions use.\<close>

lemma stretch_insert:
  assumes "stretch h a (ys @ zs) b" and "distinct (a # ys @ zs)" and "b \<notin> set (ys @ zs)"
    and "e \<notin> set (a # b # ys @ zs)"
    and f: "Flink h' = (Flink h)(last (a # ys) := e, e := hd (zs @ [b]))"
    and g: "Blink h' = (Blink h)(hd (zs @ [b]) := e, e := last (a # ys))"
  shows "stretch h' a (ys @ e # zs) b"
  using assms
proof (induction ys arbitrary: a)
  case Nil
  show ?case
  proof (cases zs)
    case (Cons z zs')
    have "stretch h' z zs' b"
      by (rule stretch_cong [of h z zs' b]) (use Nil Cons in auto)
    then show ?thesis using Nil.prems(4-6) by (simp add: Cons)
  qed (use Nil in auto)
next
  case (Cons y ys)
  have "stretch h' y (ys @ e # zs) b"
    by (rule Cons.IH) (use Cons.prems in simp_all)
  moreover have "a \<noteq> last (y # ys)"
    using Cons.prems(2) last_in_set [of "y # ys"] by auto
  moreover have "y \<noteq> hd (zs @ [b])"
    using Cons.prems(2,3) hd_in [of zs b] by auto
  moreover have "a \<noteq> e" "y \<noteq> e" using Cons.prems(4) by auto
  ultimately show ?case using Cons.prems(1,5,6) by simp
qed

lemma ring_insert_head:
  assumes "ring head h xs" and "e \<notin> set (head # xs)"
  shows "ring head (insert_list_head head e h) (e # xs)"
proof -
  have s: "stretch h head ([] @ xs) head" and d: "distinct (head # xs)"
    using assms(1) by (simp_all add: ring_def)
  have hd: "Flink h head = hd (xs @ [head])" using stretch_ends s by (metis append_Nil)
  have ne: "head \<noteq> e" "hd (xs @ [head]) \<noteq> e" using assms(2) hd_in [of xs head] by auto
  have "stretch (insert_list_head head e h) head ([] @ e # xs) head"
    using d assms(2) ne hd by (intro stretch_insert [OF s])
      (auto simp: insert_list_head_def set_flink_def set_blink_def Let_def fun_upd_twist)
  then show ?thesis using d assms(2) by (simp add: ring_def)
qed

lemma ring_insert_tail:
  assumes "ring head h xs" and "e \<notin> set (head # xs)"
  shows "ring head (insert_list_tail head e h) (xs @ [e])"
proof -
  have s: "stretch h head (xs @ []) head" and d: "distinct (head # xs)"
    using assms(1) by (simp_all add: ring_def)
  have la: "Blink h head = last (head # xs)" using stretch_ends s by (metis append_Nil2)
  have ne: "head \<noteq> e" "last (head # xs) \<noteq> e" using assms(2) last_in_set [of "head # xs"] by auto
  have "stretch (insert_list_tail head e h) head (xs @ e # []) head"
    using d assms(2) ne la by (intro stretch_insert [OF s])
      (auto simp: insert_list_tail_def set_flink_def set_blink_def Let_def fun_upd_twist)
  then show ?thesis using d assms(2) by (simp add: ring_def)
qed

section \<open>The interface\<close>

text \<open>
  What the code that walks, grows and shrinks the ring may assume: \<open>rep\<close> relates the links
  to a list, the successor of a node is the next of the list and the head after the last, and
  the three operations delete, prepend and append.
\<close>

locale handler_ring =
  fixes head :: nat
    and rep :: "'h \<Rightarrow> nat list \<Rightarrow> bool"
    and succ :: "'h \<Rightarrow> nat \<Rightarrow> nat"
    and unlink :: "nat \<Rightarrow> 'h \<Rightarrow> 'h"
    and link_first :: "nat \<Rightarrow> 'h \<Rightarrow> 'h"
    and link_last :: "nat \<Rightarrow> 'h \<Rightarrow> 'h"
  assumes rep_distinct: "rep h xs \<Longrightarrow> distinct (head # xs)"
    and rep_succ: "rep h xs \<Longrightarrow> head # xs = ys @ c # zs \<Longrightarrow> succ h c = hd (zs @ [head])"
    and rep_unlink: "rep h xs \<Longrightarrow> e \<in> set xs \<Longrightarrow> rep (unlink e h) (remove1 e xs)"
    and rep_first: "rep h xs \<Longrightarrow> e \<notin> set (head # xs) \<Longrightarrow> rep (link_first e h) (e # xs)"
    and rep_last: "rep h xs \<Longrightarrow> e \<notin> set (head # xs) \<Longrightarrow> rep (link_last e h) (xs @ [e])"
begin

lemma succ_closed: "rep h xs \<Longrightarrow> c \<in> set (head # xs) \<Longrightarrow> succ h c \<in> set (head # xs)"
proof -
  assume r: "rep h xs" and "c \<in> set (head # xs)"
  then obtain ys zs where s: "head # xs = ys @ c # zs" by (meson split_list)
  have "hd (zs @ [head]) \<in> set (head # xs)"
  proof (cases zs)
    case (Cons z zs')
    then have "z \<in> set (ys @ c # zs)" by simp
    then show ?thesis unfolding s [symmetric] by (simp add: Cons)
  qed simp
  then show ?thesis using rep_succ [OF r s] by simp
qed

text \<open>The nodes met from \<open>c\<close> on, until the head; \<open>n\<close> bounds the walk.\<close>

lemma walk_from:
  assumes "rep h xs" and "head # xs = ys @ zs" and "ys \<noteq> []"
  shows "map (\<lambda>i. (succ h ^^ i) (hd (zs @ [head]))) [0..<length zs] = zs \<and>
    (succ h ^^ length zs) (hd (zs @ [head])) = head"
  using assms(2,3)
proof (induction zs arbitrary: ys)
  case (Cons z zs)
  have "succ h z = hd (zs @ [head])" using rep_succ [OF assms(1) Cons.prems(1)] .
  moreover have "map (\<lambda>i. (succ h ^^ i) (hd (zs @ [head]))) [0..<length zs] = zs \<and>
      (succ h ^^ length zs) (hd (zs @ [head])) = head"
    using Cons.prems by (intro Cons.IH [of "ys @ [z]"]) auto
  ultimately show ?case
    by (simp add: map_upt_Suc funpow_swap1 del: funpow.simps(2) upt_Suc)
      (simp add: funpow_swap1)
qed simp

lemma walk_all:
  assumes "rep h xs"
  shows "map (\<lambda>i. (succ h ^^ Suc i) head) [0..<length xs] = xs \<and>
    (succ h ^^ Suc (length xs)) head = head"
proof -
  have "succ h head = hd (xs @ [head])" using rep_succ [OF assms, of "[]" head xs] by simp
  then show ?thesis using walk_from [OF assms, of "[head]" xs]
    by (simp add: funpow_swap1)
qed

end

lemma ring_succ:
  assumes "ring head h xs" and "head # xs = ys @ c # zs"
  shows "Flink h c = hd (zs @ [head])"
proof (cases ys)
  case Nil
  then show ?thesis using assms stretch_ends [of h head xs head] by (auto simp: ring_def)
next
  case (Cons y ys')
  then have "xs = ys' @ c # zs" using assms(2) by simp
  then have "stretch h c zs head" using assms(1) by (simp add: ring_def stretch_append)
  then show ?thesis using stretch_ends by blast
qed

lemma ring_distinct: "ring head h xs \<Longrightarrow> distinct (head # xs)"
  by (simp add: ring_def)

interpretation veh: handler_ring head "ring head" Flink remove_list_entry
  "insert_list_head head" "insert_list_tail head" for head
proof
  fix h xs ys c zs assume "ring head h xs" and "head # xs = ys @ c # zs"
  then show "Flink h c = hd (zs @ [head])" by (rule ring_succ)
qed (rule ring_distinct ring_remove ring_insert_head ring_insert_tail; assumption)+

section \<open>Any sequence of operations\<close>

datatype ring_op = LinkFirst nat | LinkLast nat | Unlink nat

fun ring_store :: "nat \<Rightarrow> ring_op \<Rightarrow> list_links \<Rightarrow> list_links" where
  "ring_store head (LinkFirst e) h = insert_list_head head e h"
| "ring_store head (LinkLast e) h = insert_list_tail head e h"
| "ring_store head (Unlink e) h = remove_list_entry e h"

text \<open>The list the operations build; \<open>None\<close> when one is applied where the code never does.\<close>

fun ring_spec :: "nat \<Rightarrow> ring_op list \<Rightarrow> nat list \<Rightarrow> nat list option" where
  "ring_spec head [] xs = Some xs"
| "ring_spec head (LinkFirst e # ops) xs =
     (if e \<in> set (head # xs) then None else ring_spec head ops (e # xs))"
| "ring_spec head (LinkLast e # ops) xs =
     (if e \<in> set (head # xs) then None else ring_spec head ops (xs @ [e]))"
| "ring_spec head (Unlink e # ops) xs =
     (if e \<notin> set xs then None else ring_spec head ops (remove1 e xs))"

definition empty_ring :: "nat \<Rightarrow> list_links" where
  "empty_ring head = set_blink head head (set_flink head head \<lparr>Flink = \<lambda>_. 0, Blink = \<lambda>_. 0\<rparr>)"

lemma ring_empty: "ring head (empty_ring head) []"
  by (simp add: ring_def empty_ring_def set_flink_def set_blink_def)

lemma ring_stores:
  assumes "ring head h xs" and "ring_spec head ops xs = Some ys"
  shows "ring head (fold (ring_store head) ops h) ys"
  using assms
proof (induction ops arbitrary: h xs)
  case (Cons op ops)
  then show ?case
  proof (cases op)
    case (LinkFirst e)
    with Cons.prems have "e \<notin> set (head # xs)" "ring_spec head ops (e # xs) = Some ys"
      by (simp_all split: if_splits)
    from Cons.IH [OF veh.rep_first [OF Cons.prems(1) this(1)] this(2)] show ?thesis by (simp add: LinkFirst)
  next
    case (LinkLast e)
    with Cons.prems have "e \<notin> set (head # xs)" "ring_spec head ops (xs @ [e]) = Some ys"
      by (simp_all split: if_splits)
    from Cons.IH [OF veh.rep_last [OF Cons.prems(1) this(1)] this(2)] show ?thesis by (simp add: LinkLast)
  next
    case (Unlink e)
    with Cons.prems have "e \<in> set xs" "ring_spec head ops (remove1 e xs) = Some ys"
      by (simp_all split: if_splits)
    from Cons.IH [OF veh.rep_unlink [OF Cons.prems(1) this(1)] this(2)] show ?thesis by (simp add: Unlink)
  qed
qed simp

text \<open>
  The ring implements a list. After any sequence of insertions of new entries at the head
  or the tail and removals of present ones, following \<open>Flink\<close> from the head meets exactly
  the entries of the list so built, in its order, and is then back at the head; the two
  neighbours of every entry point at it.
\<close>

theorem ring_refines_list:
  assumes "ring_spec head ops [] = Some xs"
  defines "h \<equiv> fold (ring_store head) ops (empty_ring head)"
  shows "map (\<lambda>i. (Flink h ^^ Suc i) head) [0..<length xs] = xs \<and>
    (Flink h ^^ Suc (length xs)) head = head \<and>
    (\<forall>e \<in> set (head # xs). Flink h (Blink h e) = e \<and> Blink h (Flink h e) = e)"
proof -
  have r: "ring head h xs" unfolding h_def using ring_stores [OF ring_empty assms(1)] .
  have "stretch h a ys b \<Longrightarrow> (\<forall>e \<in> set (a # ys). Blink h (Flink h e) = e) \<and>
      (\<forall>e \<in> set (ys @ [b]). Flink h (Blink h e) = e)" for a ys b
    by (induction ys arbitrary: a) auto
  then have "\<forall>e \<in> set (head # xs). Flink h (Blink h e) = e \<and> Blink h (Flink h e) = e"
    using r unfolding ring_def by fastforce
  with veh.walk_all [OF r] show ?thesis by blast
qed

theorem ring_refines_list_witness:
  "map (\<lambda>i. (Flink (fold (ring_store 0) [LinkLast 5, LinkFirst 3, LinkLast 9, Unlink 5] (empty_ring 0)) ^^ Suc i) 0)
     [0..<2] = [3, 9]"
proof -
  have spec: "ring_spec 0 [LinkLast 5, LinkFirst 3, LinkLast 9, Unlink 5] [] = Some [3, 9]" by simp
  have n: "length [3, 9 :: nat] = 2" by simp
  from conjunct1 [OF ring_refines_list [OF spec]] show ?thesis unfolding n .
qed

end
