(* ===== verification/Veh_Handlers.thy ===== *)
theory Veh_Handlers
  imports Veh_List
begin

text \<open>
  Vectored exception handlers (\<open>compat/w2k_veh.c\<close>): \<open>W2KAddVectoredExceptionHandler\<close>,
  \<open>W2KRemoveVectoredExceptionHandler\<close> and the dispatcher \<open>call_vectored_handlers\<close>, as
  activations that interleave at the points where they take or leave the lock \<open>g_lock\<close>. A
  handler runs without the lock, so it may itself add, remove or raise: a nested call is an
  activation of its own. Entries are heap blocks named by their address; an address is not used
  twice, so that a pointer to a freed block stays recognisable, and following one is a crash.
\<close>

section \<open>Memory\<close>

text \<open>\<open>W2K_VEH_ENTRY\<close> without its links; address 0 is the list head \<open>g_handlers\<close>.\<close>

record veh_entry =
  Handler :: nat
  References :: int
  Deleted :: bool

record veh_mem =
  links :: list_links
  entries :: "nat \<Rightarrow> veh_entry option"
  hook_installed :: bool

definition set_entry :: "nat \<Rightarrow> veh_entry option \<Rightarrow> veh_mem \<Rightarrow> veh_mem" where
  "set_entry e en m = m\<lparr>entries := (entries m)(e := en)\<rparr>"

section \<open>The code under the lock\<close>

text \<open>
  Adding, once the entry is allocated: the dispatch hook is installed on first use, which may
  fail; then the entry is linked.
\<close>

definition add_locked :: "bool \<Rightarrow> bool \<Rightarrow> nat \<Rightarrow> veh_mem \<Rightarrow> bool \<times> veh_mem" where
  "add_locked hook_succeeds first_handler e m =
     (if \<not> hook_installed m \<and> \<not> hook_succeeds then (False, m)
      else
        let m = m\<lparr>hook_installed := True\<rparr> in
          (True, if first_handler then m\<lparr>links := insert_list_head 0 e (links m)\<rparr>
                 else m\<lparr>links := insert_list_tail 0 e (links m)\<rparr>))"

text \<open>The search of the removal; \<open>None\<close> when it would follow a pointer to a freed entry.\<close>

partial_function (option) find_handler :: "veh_mem \<Rightarrow> nat \<Rightarrow> nat \<Rightarrow> bool option" where
  "find_handler m handle current =
     (if current = 0 then Some False
      else case entries m current of
        None \<Rightarrow> None
      | Some en \<Rightarrow>
          if current = handle \<and> \<not> Deleted en then Some True
          else find_handler m handle (Flink (links m) current))"

text \<open>
  The removal: whether it found the handle, and the entry to free, if its last reference is
  gone.
\<close>

definition remove_locked :: "nat \<Rightarrow> veh_mem \<Rightarrow> (bool \<times> nat option \<times> veh_mem) option" where
  "remove_locked handle m =
     (case find_handler m handle (Flink (links m) 0) of
        None \<Rightarrow> None
      | Some False \<Rightarrow> Some (False, None, m)
      | Some True \<Rightarrow>
          (case entries m handle of
             None \<Rightarrow> None
           | Some en \<Rightarrow>
               let en = en\<lparr>Deleted := True, References := References en - 1\<rparr>;
                   m = set_entry handle (Some en) m in
                 if References en = 0
                 then Some (True, Some handle, m\<lparr>links := remove_list_entry handle (links m)\<rparr>)
                 else Some (True, None, m)))"

section \<open>Activations\<close>

text \<open>
  The program counters. \<open>A\<close>: adding; \<open>R\<close>: removing; \<open>D\<close>: dispatching, where the
  boolean is whether the handler answered \<open>EXCEPTION_CONTINUE_EXECUTION\<close> and the second
  address is the saved \<open>current\<close>.
\<close>

datatype veh_pc =
    VIdle
  | AEnter nat bool | ABody nat bool | ALeave | AFail nat | AFree nat
  | REnter nat | RBody nat | RLeave "nat option" | RFree nat
  | DEnter | DStart | DLoop nat | DCallLeave nat | DCall nat | DBack nat bool | DAfter nat bool
  | DFreeLeave nat nat bool | DFree nat nat bool | DReenter nat | DDone bool

text \<open>One round of the dispatcher's loop, up to the release of the lock for the handler.\<close>

definition dispatch_round :: "nat \<Rightarrow> veh_mem \<Rightarrow> (veh_pc \<times> veh_mem) option" where
  "dispatch_round current m =
     (if current = 0 then Some (DDone False, m)
      else case entries m current of
        None \<Rightarrow> None
      | Some en \<Rightarrow>
          if Deleted en then Some (DLoop (Flink (links m) current), m)
          else Some (DCallLeave current,
            set_entry current (Some (en\<lparr>References := References en + 1\<rparr>)) m))"

text \<open>The rest of the round, when the handler is back and the lock is taken again.\<close>

definition dispatch_after :: "nat \<Rightarrow> bool \<Rightarrow> veh_mem \<Rightarrow> (veh_pc \<times> veh_mem) option" where
  "dispatch_after e continue m =
     (case entries m e of
        None \<Rightarrow> None
      | Some en \<Rightarrow>
          let en = en\<lparr>References := References en - 1\<rparr>;
              m = set_entry e (Some en) m in
            if References en = 0
            then Some (DFreeLeave e (Flink (links m) e) continue,
              m\<lparr>links := remove_list_entry e (links m)\<rparr>)
            else if continue then Some (DDone True, m)
            else Some (DLoop (Flink (links m) e), m))"

fun veh_enter :: "veh_pc \<Rightarrow> veh_pc option" where
  "veh_enter (AEnter e first) = Some (ABody e first)"
| "veh_enter (REnter h) = Some (RBody h)"
| "veh_enter DEnter = Some DStart"
| "veh_enter (DBack e c) = Some (DAfter e c)"
| "veh_enter (DReenter c) = Some (DLoop c)"
| "veh_enter _ = None"

text \<open>
  The code under the lock; the inner \<open>None\<close> is a crash. The argument says whether an
  installation of the hook succeeds.
\<close>

fun veh_body :: "bool \<Rightarrow> veh_pc \<Rightarrow> veh_mem \<Rightarrow> (veh_pc \<times> veh_mem) option option" where
  "veh_body ok (ABody e first) m =
     (case add_locked ok first e m of
        (True, m) \<Rightarrow> Some (Some (ALeave, m))
      | (False, m) \<Rightarrow> Some (Some (AFail e, m)))"
| "veh_body ok (RBody h) m =
     Some (map_option (\<lambda>(found, victim, m). (RLeave victim, m)) (remove_locked h m))"
| "veh_body ok DStart m = Some (Some (DLoop (Flink (links m) 0), m))"
| "veh_body ok (DLoop c) m = Some (dispatch_round c m)"
| "veh_body ok (DAfter e c) m = Some (dispatch_after e c m)"
| "veh_body ok _ m = None"

fun veh_leave :: "veh_pc \<Rightarrow> veh_pc option" where
  "veh_leave ALeave = Some VIdle"
| "veh_leave (AFail e) = Some (AFree e)"
| "veh_leave (RLeave None) = Some VIdle"
| "veh_leave (RLeave (Some e)) = Some (RFree e)"
| "veh_leave (DCallLeave e) = Some (DCall e)"
| "veh_leave (DFreeLeave e cur c) = Some (DFree e cur c)"
| "veh_leave (DDone _) = Some VIdle"
| "veh_leave _ = None"

text \<open>\<open>HeapFree\<close>: the block and where the activation goes on.\<close>

fun veh_free :: "veh_pc \<Rightarrow> (nat \<times> veh_pc) option" where
  "veh_free (AFree e) = Some (e, VIdle)"
| "veh_free (RFree e) = Some (e, VIdle)"
| "veh_free (DFree e cur c) = Some (e, if c then VIdle else DReenter cur)"
| "veh_free _ = None"

record veh_sys =
  g_lock :: "nat option"
  mem :: veh_mem
  next_block :: nat
  crashed :: bool
  vpcs :: "nat \<Rightarrow> veh_pc"

definition veh_start :: veh_sys where
  "veh_start = \<lparr>g_lock = None,
     mem = \<lparr>links = empty_ring 0, entries = (\<lambda>_. None), hook_installed = False\<rparr>,
     next_block = 1, crashed = False, vpcs = (\<lambda>_. VIdle)\<rparr>"

inductive veh_step :: "nat \<Rightarrow> veh_sys \<Rightarrow> veh_sys \<Rightarrow> bool" for t :: nat and s :: veh_sys where
  call: "\<not> crashed s \<Longrightarrow> vpcs s t = VIdle \<Longrightarrow> p = REnter h \<and> h \<noteq> 0 \<or> p = DEnter \<Longrightarrow>
    veh_step t s (s\<lparr>vpcs := (vpcs s)(t := p)\<rparr>)"
| alloc: "\<not> crashed s \<Longrightarrow> vpcs s t = VIdle \<Longrightarrow> e = next_block s \<Longrightarrow> h \<noteq> 0 \<Longrightarrow>
    veh_step t s (s\<lparr>vpcs := (vpcs s)(t := AEnter e first), next_block := Suc e,
      mem := set_entry e (Some \<lparr>Handler = h, References = 1, Deleted = False\<rparr>) (mem s)\<rparr>)"
| enter: "\<not> crashed s \<Longrightarrow> veh_enter (vpcs s t) = Some p \<Longrightarrow> g_lock s = None \<Longrightarrow>
    veh_step t s (s\<lparr>vpcs := (vpcs s)(t := p), g_lock := Some t\<rparr>)"
| body: "\<not> crashed s \<Longrightarrow> g_lock s = Some t \<Longrightarrow>
    veh_body ok (vpcs s t) (mem s) = Some (Some (p, m)) \<Longrightarrow>
    veh_step t s (s\<lparr>vpcs := (vpcs s)(t := p), mem := m\<rparr>)"
| crash: "\<not> crashed s \<Longrightarrow> g_lock s = Some t \<Longrightarrow> veh_body ok (vpcs s t) (mem s) = Some None \<Longrightarrow>
    veh_step t s (s\<lparr>crashed := True\<rparr>)"
| leave: "\<not> crashed s \<Longrightarrow> veh_leave (vpcs s t) = Some p \<Longrightarrow> g_lock s = Some t \<Longrightarrow>
    veh_step t s (s\<lparr>vpcs := (vpcs s)(t := p), g_lock := None\<rparr>)"
| handler: "\<not> crashed s \<Longrightarrow> vpcs s t = DCall e \<Longrightarrow>
    veh_step t s (s\<lparr>vpcs := (vpcs s)(t := DBack e continue)\<rparr>)"
| free: "\<not> crashed s \<Longrightarrow> veh_free (vpcs s t) = Some (e, p) \<Longrightarrow>
    veh_step t s (s\<lparr>vpcs := (vpcs s)(t := p), mem := set_entry e None (mem s)\<rparr>)"

definition veh_any_step :: "veh_sys \<Rightarrow> veh_sys \<Rightarrow> bool" where
  "veh_any_step s s' \<longleftrightarrow> (\<exists>t. veh_step t s s')"

abbreviation veh_reachable :: "veh_sys \<Rightarrow> bool" where
  "veh_reachable \<equiv> reach (\<lambda>s. s = veh_start) veh_any_step"

inductive_cases veh_stepE: "veh_step t s s'"

section \<open>What a program counter says\<close>

text \<open>It holds the lock; it alone may free an entry; that entry is not linked yet; it is
  between the increment and the decrement of \<open>References\<close>; it has a \<open>current\<close>.\<close>

fun holds :: "veh_pc \<Rightarrow> bool" where
  "holds (ABody _ _) = True" | "holds ALeave = True" | "holds (AFail _) = True"
| "holds (RBody _) = True" | "holds (RLeave _) = True" | "holds DStart = True"
| "holds (DLoop _) = True" | "holds (DCallLeave _) = True" | "holds (DAfter _ _) = True"
| "holds (DFreeLeave _ _ _) = True" | "holds (DDone _) = True" | "holds _ = False"

fun fresh_owner :: "veh_pc \<Rightarrow> nat option" where
  "fresh_owner (AEnter e _) = Some e" | "fresh_owner (ABody e _) = Some e"
| "fresh_owner (AFail e) = Some e" | "fresh_owner (AFree e) = Some e" | "fresh_owner _ = None"

fun free_owner :: "veh_pc \<Rightarrow> nat option" where
  "free_owner (RLeave v) = v" | "free_owner (RFree e) = Some e"
| "free_owner (DFreeLeave e _ _) = Some e" | "free_owner (DFree e _ _) = Some e"
| "free_owner _ = None"

definition owner :: "veh_pc \<Rightarrow> nat option" where
  "owner p = (case fresh_owner p of Some e \<Rightarrow> Some e | None \<Rightarrow> free_owner p)"

fun runs :: "nat \<Rightarrow> veh_pc \<Rightarrow> bool" where
  "runs e (DCallLeave x) \<longleftrightarrow> x = e" | "runs e (DCall x) \<longleftrightarrow> x = e"
| "runs e (DBack x _) \<longleftrightarrow> x = e" | "runs e (DAfter x _) \<longleftrightarrow> x = e" | "runs e _ \<longleftrightarrow> False"

fun cursor :: "veh_pc \<Rightarrow> nat option" where
  "cursor (DLoop c) = Some c" | "cursor (DFreeLeave _ c _) = Some c"
| "cursor (DFree _ c _) = Some c" | "cursor (DReenter c) = Some c" | "cursor _ = None"

section \<open>The invariant\<close>

text \<open>The entry's count: one for being registered, and one for each activation in its handler.\<close>

definition counted_entry :: "(nat \<Rightarrow> veh_pc) \<Rightarrow> nat \<Rightarrow> veh_entry \<Rightarrow> bool" where
  "counted_entry pcs e en \<longleftrightarrow>
     References en = (if Deleted en then 0 else 1) + cnt (runs e) pcs \<and> 0 < References en"

definition mem_inv :: "nat list \<Rightarrow> veh_sys \<Rightarrow> bool" where
  "mem_inv es s \<longleftrightarrow>
     ring 0 (links (mem s)) es \<and> finite {t. vpcs s t \<noteq> VIdle} \<and> 0 < next_block s \<and>
     (\<forall>e. entries (mem s) e \<noteq> None \<longrightarrow> 0 < e \<and> e < next_block s) \<and>
     (\<forall>e \<in> set es. \<exists>en. entries (mem s) e = Some en \<and> counted_entry (vpcs s) e en) \<and>
     (\<forall>x. Flink (links (mem s)) x < next_block s)"

definition owner_inv :: "nat list \<Rightarrow> veh_sys \<Rightarrow> bool" where
  "owner_inv es s \<longleftrightarrow>
     (\<forall>t. holds (vpcs s t) \<longleftrightarrow> g_lock s = Some t) \<and>
     (\<forall>e. entries (mem s) e \<noteq> None \<longrightarrow> e \<in> set es \<or> (\<exists>t. owner (vpcs s t) = Some e)) \<and>
     (\<forall>t e. owner (vpcs s t) = Some e \<longrightarrow> e \<notin> set es \<and>
        (\<exists>en. entries (mem s) e = Some en \<and> (Deleted en \<longleftrightarrow> fresh_owner (vpcs s t) = None) \<and>
          (fresh_owner (vpcs s t) \<noteq> None \<longrightarrow> References en = 1))) \<and>
     (\<forall>t u e. owner (vpcs s t) = Some e \<longrightarrow> owner (vpcs s u) = Some e \<longrightarrow> t = u) \<and>
     (\<forall>t e. runs e (vpcs s t) \<longrightarrow> e \<in> set es)"

definition cursor_inv :: "veh_sys \<Rightarrow> bool" where
  "cursor_inv s \<longleftrightarrow>
     (\<forall>t x. fresh_owner (vpcs s t) \<noteq> Some (Flink (links (mem s)) x)) \<and>
     (\<forall>t u c. cursor (vpcs s u) = Some c \<longrightarrow>
        c < next_block s \<and> fresh_owner (vpcs s t) \<noteq> Some c)"

definition veh_inv :: "veh_sys \<Rightarrow> bool" where
  "veh_inv s \<longleftrightarrow> (\<exists>es. mem_inv es s \<and> owner_inv es s) \<and> cursor_inv s"

lemma veh_inv_start: "veh_inv veh_start"
proof -
  have "Flink (empty_ring 0) x = 0" for x
    by (simp add: empty_ring_def set_flink_def set_blink_def)
  then have "mem_inv [] veh_start" "owner_inv [] veh_start" "cursor_inv veh_start"
    by (auto simp: mem_inv_def owner_inv_def cursor_inv_def veh_start_def ring_empty owner_def)
  then show ?thesis by (auto simp: veh_inv_def)
qed

lemma runs_finite: "mem_inv es s \<Longrightarrow> finite {t. runs e (vpcs s t)}"
  unfolding mem_inv_def by (rule finite_subset [of _ "{t. vpcs s t \<noteq> VIdle}"]) auto

text \<open>Steps that leave the memory alone and keep what the activation owns and runs.\<close>

lemma veh_inv_frame:
  assumes "veh_inv s"
    and same: "fresh_owner p = fresh_owner (vpcs s t)" "free_owner p = free_owner (vpcs s t)"
      "\<And>e. runs e p = runs e (vpcs s t)"
    and cur: "\<And>c. cursor p = Some c \<Longrightarrow> cursor (vpcs s t) = Some c \<or> (\<exists>x. c = Flink (links (mem s)) x)"
    and lock: "\<And>u. holds (((vpcs s)(t := p)) u) \<longleftrightarrow> l = Some u"
  shows "veh_inv (s\<lparr>vpcs := (vpcs s)(t := p), g_lock := l\<rparr>)"
proof -
  obtain es where m: "mem_inv es s" and o: "owner_inv es s" and c: "cursor_inv s"
    using assms(1) by (auto simp: veh_inv_def)
  have f: "fresh_owner (((vpcs s)(t := p)) u) = fresh_owner (vpcs s u)" for u using same(1) by simp
  have g: "free_owner (((vpcs s)(t := p)) u) = free_owner (vpcs s u)" for u using same(2) by simp
  have ow: "owner (((vpcs s)(t := p)) u) = owner (vpcs s u)" for u by (simp only: owner_def f g)
  have r: "runs e (((vpcs s)(t := p)) u) = runs e (vpcs s u)" for e u using same(3) by simp
  have n: "cnt (runs e) ((vpcs s)(t := p)) = cnt (runs e) (vpcs s)" for e
    unfolding cnt_def by (simp only: r)
  have fin: "finite {u. ((vpcs s)(t := p)) u \<noteq> VIdle}"
    using m by (auto simp: mem_inv_def intro: finite_pcs_upd)
  let ?s = "s\<lparr>vpcs := (vpcs s)(t := p), g_lock := l\<rparr>"
  have sel: "vpcs ?s = (vpcs s)(t := p)" "mem ?s = mem s" "g_lock ?s = l"
    "next_block ?s = next_block s" by simp_all
  have "mem_inv es ?s"
    using m fin unfolding mem_inv_def counted_entry_def n sel by blast
  moreover have "owner_inv es ?s"
    using o lock unfolding owner_inv_def ow f r sel by blast
  moreover have "cursor_inv ?s"
    unfolding cursor_inv_def sel f
  proof (intro conjI allI impI)
    show "fresh_owner (vpcs s u) \<noteq> Some (Flink (links (mem s)) x)" for u x
      using c by (simp add: cursor_inv_def)
    fix u v d assume d: "cursor (((vpcs s)(t := p)) v) = Some d"
    have flink: "Flink (links (mem s)) x < next_block s" for x using m by (simp add: mem_inv_def)
    have "cursor (vpcs s v) = Some d \<or> (\<exists>x. d = Flink (links (mem s)) x)"
      using d cur by (cases "v = t") auto
    then show "d < next_block s" and "fresh_owner (vpcs s u) \<noteq> Some d"
      using c flink by (auto simp: cursor_inv_def)
  qed
  ultimately show ?thesis unfolding veh_inv_def by blast
qed

lemma holds_lock: "veh_inv s \<Longrightarrow> holds (vpcs s t) \<longleftrightarrow> g_lock s = Some t"
  by (auto simp: veh_inv_def owner_inv_def)

lemma lock_take:
  assumes "veh_inv s" and "g_lock s = None" and "holds p"
  shows "holds (((vpcs s)(t := p)) u) \<longleftrightarrow> Some t = Some u"
  using assms holds_lock [OF assms(1), of u] by auto

lemma lock_drop:
  assumes "veh_inv s" and "g_lock s = Some t" and "\<not> holds p"
  shows "holds (((vpcs s)(t := p)) u) \<longleftrightarrow> None = Some u"
  using assms holds_lock [OF assms(1), of u] by auto

lemma lock_keep:
  assumes "veh_inv s" and "holds p = holds (vpcs s t)"
  shows "holds (((vpcs s)(t := p)) u) \<longleftrightarrow> g_lock s = Some u"
  using assms holds_lock [OF assms(1), of u] by auto

lemma veh_inv_call:
  "veh_inv s \<Longrightarrow> vpcs s t = VIdle \<Longrightarrow> p = REnter h \<and> h \<noteq> 0 \<or> p = DEnter \<Longrightarrow>
   veh_inv (s\<lparr>vpcs := (vpcs s)(t := p)\<rparr>)"
  using veh_inv_frame [of s p t "g_lock s"] lock_keep [of s p t] by fastforce

lemma veh_inv_handler:
  "veh_inv s \<Longrightarrow> vpcs s t = DCall e \<Longrightarrow> veh_inv (s\<lparr>vpcs := (vpcs s)(t := DBack e c)\<rparr>)"
  using veh_inv_frame [of s "DBack e c" t "g_lock s"] lock_keep [of s "DBack e c" t] by fastforce

lemma veh_enter_same:
  "veh_enter q = Some p \<Longrightarrow> fresh_owner p = fresh_owner q \<and> free_owner p = free_owner q \<and>
   (\<forall>e. runs e p = runs e q) \<and> cursor p = cursor q \<and> holds p"
  by (cases q) auto

lemma veh_leave_same:
  "veh_leave q = Some p \<Longrightarrow> fresh_owner p = fresh_owner q \<and> free_owner p = free_owner q \<and>
   (\<forall>e. runs e p = runs e q) \<and> cursor p = cursor q \<and> \<not> holds p"
  by (cases q rule: veh_leave.cases) auto

lemma veh_inv_enter:
  assumes "veh_inv s" and "veh_enter (vpcs s t) = Some p" and "g_lock s = None"
  shows "veh_inv (s\<lparr>vpcs := (vpcs s)(t := p), g_lock := Some t\<rparr>)"
  using veh_enter_same [OF assms(2)] lock_take [OF assms(1,3), of p t]
  by (intro veh_inv_frame [OF assms(1)]) auto

lemma veh_inv_leave:
  assumes "veh_inv s" and "veh_leave (vpcs s t) = Some p" and "g_lock s = Some t"
  shows "veh_inv (s\<lparr>vpcs := (vpcs s)(t := p), g_lock := None\<rparr>)"
  using veh_leave_same [OF assms(2)] lock_drop [OF assms(1,3), of p]
  by (intro veh_inv_frame [OF assms(1)]) auto

section \<open>Steps that change the memory\<close>

lemma cnt_same:
  "runs e p = runs e (pcs t) \<Longrightarrow> cnt (runs e) (pcs(t := p)) = cnt (runs e) pcs"
proof -
  assume "runs e p = runs e (pcs t)"
  then have "runs e ((pcs(t := p)) u) = runs e (pcs u)" for u by simp
  then show ?thesis by (simp only: cnt_def)
qed

lemma veh_invI: "mem_inv es s \<Longrightarrow> owner_inv es s \<Longrightarrow> cursor_inv s \<Longrightarrow> veh_inv s"
  by (auto simp: veh_inv_def)

lemma owner_runs: "runs e p \<Longrightarrow> owner p = None"
  by (cases p) (auto simp: owner_def)

lemma owner_entry:
  assumes "owner_inv es s" and "owner (vpcs s t) = Some e"
  shows "e \<notin> set es \<and> (\<exists>en. entries (mem s) e = Some en \<and>
    (Deleted en \<longleftrightarrow> fresh_owner (vpcs s t) = None) \<and>
    (fresh_owner (vpcs s t) \<noteq> None \<longrightarrow> References en = 1))"
  using assms unfolding owner_inv_def by blast

lemma linked_entry:
  assumes "mem_inv es s" and "e \<in> set es"
  obtains en where "entries (mem s) e = Some en" "counted_entry (vpcs s) e en"
  using assms unfolding mem_inv_def by blast

lemma linked_counted:
  assumes "mem_inv es s" and "e \<in> set es" and "entries (mem s) e = Some en"
  shows "counted_entry (vpcs s) e en"
proof -
  obtain en' where "entries (mem s) e = Some en'" "counted_entry (vpcs s) e en'"
    using linked_entry [OF assms(1,2)] .
  then show ?thesis using assms(3) by simp
qed

lemma entry_id:
  assumes "mem_inv es s" and "entries (mem s) e = Some en"
  shows "0 < e \<and> e < next_block s"
  using assms unfolding mem_inv_def by blast

lemma cursor_inv_mono:
  assumes c: "cursor_inv s" and nb: "next_block s \<le> next_block s'"
    and f: "\<And>t e. fresh_owner (vpcs s' t) = Some e \<Longrightarrow>
      fresh_owner (vpcs s t) = Some e \<or> e = next_block s"
    and l: "\<And>x. Flink (links (mem s')) x < next_block s \<and>
      ((\<exists>y. Flink (links (mem s')) x = Flink (links (mem s)) y) \<or>
       (\<forall>t. fresh_owner (vpcs s' t) \<noteq> Some (Flink (links (mem s')) x)))"
    and cu: "\<And>t d. cursor (vpcs s' t) = Some d \<Longrightarrow>
      cursor (vpcs s t) = Some d \<or> (\<exists>y. d = Flink (links (mem s)) y) \<and> d < next_block s"
  shows "cursor_inv s'"
  unfolding cursor_inv_def
proof (intro conjI allI impI)
  have old: "\<And>t y. fresh_owner (vpcs s t) \<noteq> Some (Flink (links (mem s)) y)"
    and cur: "\<And>t u d. cursor (vpcs s u) = Some d \<Longrightarrow> d < next_block s \<and> fresh_owner (vpcs s t) \<noteq> Some d"
    using c by (auto simp: cursor_inv_def)
  show "fresh_owner (vpcs s' t) \<noteq> Some (Flink (links (mem s')) x)" for t x
    using f [of t "Flink (links (mem s')) x"] l [of x] old by force
  fix t u d assume "cursor (vpcs s' u) = Some d"
  then have *: "cursor (vpcs s u) = Some d \<or> (\<exists>y. d = Flink (links (mem s)) y) \<and> d < next_block s"
    by (rule cu)
  with cur nb show "d < next_block s'" by force
  show "fresh_owner (vpcs s' t) \<noteq> Some d"
    using * cur [of u d t] old f [of t d] by force
qed

text \<open>
  What a step of one activation owes to the first two parts of the invariant: the entries it links
  and counts, and what it and the others own and run.
\<close>

lemma mem_inv_upd:
  assumes m: "mem_inv es s" and vp: "vpcs s' = (vpcs s)(t := p)" and nb: "next_block s \<le> next_block s'"
    and rg: "ring 0 (links (mem s')) es'"
    and ids: "\<And>x. entries (mem s') x \<noteq> None \<Longrightarrow> entries (mem s) x \<noteq> None \<or> 0 < x \<and> x < next_block s'"
    and counted: "\<And>x. x \<in> set es' \<Longrightarrow>
      x \<in> set es \<and> entries (mem s') x = entries (mem s) x \<and> runs x p = runs x (vpcs s t) \<or>
      (\<exists>en. entries (mem s') x = Some en \<and> counted_entry ((vpcs s)(t := p)) x en)"
    and fl: "\<And>x. Flink (links (mem s')) x < next_block s'"
  shows "mem_inv es' s'"
  unfolding mem_inv_def vp
proof (intro conjI allI ballI)
  show "finite {u. ((vpcs s)(t := p)) u \<noteq> VIdle}" using m by (auto simp: mem_inv_def intro: finite_pcs_upd)
  show "0 < next_block s'" using m nb by (simp add: mem_inv_def)
  show "entries (mem s') x \<noteq> None \<longrightarrow> 0 < x \<and> x < next_block s'" for x
    using ids [of x] entry_id [OF m, of x] nb by fastforce
  fix x assume "x \<in> set es'"
  from counted [OF this] show "\<exists>en. entries (mem s') x = Some en \<and> counted_entry ((vpcs s)(t := p)) x en"
  proof (elim disjE conjE)
    assume x: "x \<in> set es" "entries (mem s') x = entries (mem s) x" "runs x p = runs x (vpcs s t)"
    obtain en where "entries (mem s) x = Some en" "counted_entry (vpcs s) x en" using linked_entry [OF m x(1)] .
    then show ?thesis using x(2) cnt_same [of x p "vpcs s" t, OF x(3)] by (simp add: counted_entry_def)
  qed
qed (rule rg fl)+

lemma owner_inv_upd:
  assumes o: "owner_inv es s" and vp: "vpcs s' = (vpcs s)(t := p)"
    and lock: "\<And>u. holds (((vpcs s)(t := p)) u) \<longleftrightarrow> g_lock s' = Some u"
    and kept: "\<And>x. entries (mem s') x \<noteq> None \<Longrightarrow> x \<in> set es' \<or> owner p = Some x \<or>
      x \<notin> set es \<and> entries (mem s) x \<noteq> None \<and> owner (vpcs s t) \<noteq> Some x"
    and mine: "\<And>x. owner p = Some x \<Longrightarrow> x \<notin> set es' \<and>
      (\<exists>en. entries (mem s') x = Some en \<and> (Deleted en \<longleftrightarrow> fresh_owner p = None) \<and>
        (fresh_owner p \<noteq> None \<longrightarrow> References en = 1))"
    and others: "\<And>u x. u \<noteq> t \<Longrightarrow> owner (vpcs s u) = Some x \<Longrightarrow>
      x \<notin> set es' \<and> entries (mem s') x = entries (mem s) x \<and> owner p \<noteq> Some x"
    and runs: "\<And>x. runs x p \<Longrightarrow> x \<in> set es'" "\<And>u x. u \<noteq> t \<Longrightarrow> runs x (vpcs s u) \<Longrightarrow> x \<in> set es'"
  shows "owner_inv es' s'"
  unfolding owner_inv_def vp
proof (intro conjI allI impI)
  show "holds (((vpcs s)(t := p)) u) \<longleftrightarrow> g_lock s' = Some u" for u by (rule lock)
next
  fix x assume "entries (mem s') x \<noteq> None"
  from kept [OF this] show "x \<in> set es' \<or> (\<exists>u. owner (((vpcs s)(t := p)) u) = Some x)"
  proof (elim disjE conjE)
    assume x: "x \<notin> set es" "entries (mem s) x \<noteq> None" "owner (vpcs s t) \<noteq> Some x"
    then obtain u where "owner (vpcs s u) = Some x" "u \<noteq> t" using o unfolding owner_inv_def by blast
    then show ?thesis by (intro disjI2 exI [of _ u]) simp
  next
    assume "owner p = Some x"
    then show ?thesis by (intro disjI2 exI [of _ t]) simp
  qed simp
next
  fix u x assume x: "owner (((vpcs s)(t := p)) u) = Some x"
  have "(x \<notin> set es' \<and> (\<exists>en. entries (mem s') x = Some en \<and>
      (Deleted en \<longleftrightarrow> fresh_owner (((vpcs s)(t := p)) u) = None) \<and>
      (fresh_owner (((vpcs s)(t := p)) u) \<noteq> None \<longrightarrow> References en = 1)))"
    using x mine [of x] others [of u x] owner_entry [OF o, of u x] by (cases "u = t") simp_all
  then show "x \<notin> set es'" "\<exists>en. entries (mem s') x = Some en \<and>
      (Deleted en \<longleftrightarrow> fresh_owner (((vpcs s)(t := p)) u) = None) \<and>
      (fresh_owner (((vpcs s)(t := p)) u) \<noteq> None \<longrightarrow> References en = 1)" by blast+
next
  fix u v x assume "owner (((vpcs s)(t := p)) u) = Some x" "owner (((vpcs s)(t := p)) v) = Some x"
  moreover have "owner (vpcs s u) = Some x \<Longrightarrow> owner (vpcs s v) = Some x \<Longrightarrow> u = v"
    using o unfolding owner_inv_def by blast
  ultimately show "u = v" using others [of u x] others [of v x] by (cases "u = t"; cases "v = t") auto
next
  fix u x assume "runs x (((vpcs s)(t := p)) u)"
  then show "x \<in> set es'" using runs(1) [of x] runs(2) [of u x] by (cases "u = t") auto
qed

lemma owned_by_one: "owner_inv es s \<Longrightarrow> owner (vpcs s t) = Some e \<Longrightarrow> owner (vpcs s u) = Some e \<Longrightarrow> u = t"
  unfolding owner_inv_def by blast

lemma runs_linked: "owner_inv es s \<Longrightarrow> runs e (vpcs s t) \<Longrightarrow> e \<in> set es"
  unfolding owner_inv_def by blast

lemma entry_owned:
  "owner_inv es s \<Longrightarrow> entries (mem s) e \<noteq> None \<Longrightarrow> e \<in> set es \<or> (\<exists>t. owner (vpcs s t) = Some e)"
  unfolding owner_inv_def by blast

lemma flink_bound: "mem_inv es s \<Longrightarrow> Flink (links (mem s)) x < next_block s"
  by (simp add: mem_inv_def)

lemma veh_inv_alloc:
  assumes "veh_inv s" and "vpcs s t = VIdle"
  shows "veh_inv (s\<lparr>vpcs := (vpcs s)(t := AEnter (next_block s) first), next_block := Suc (next_block s),
      mem := set_entry (next_block s) (Some \<lparr>Handler = h, References = 1, Deleted = False\<rparr>) (mem s)\<rparr>)"
    (is "veh_inv ?s")
proof -
  obtain es where m: "mem_inv es s" and o: "owner_inv es s" and c: "cursor_inv s"
    using assms(1) by (auto simp: veh_inv_def)
  let ?e = "next_block s"
  have ids: "x \<in> set es \<Longrightarrow> x \<noteq> ?e" for x using linked_entry [OF m] entry_id [OF m] by (metis less_irrefl)
  have own: "owner (vpcs s u) = Some x \<Longrightarrow> x \<noteq> ?e" for u x
    using owner_entry [OF o] entry_id [OF m] by blast
  have idle: "owner (vpcs s t) = None" "\<not> runs x (vpcs s t)" for x using assms(2) by (simp_all add: owner_def)
  have sel: "vpcs ?s = (vpcs s)(t := AEnter ?e first)" "links (mem ?s) = links (mem s)"
    "entries (mem ?s) = (entries (mem s))(?e \<mapsto> \<lparr>Handler = h, References = 1, Deleted = False\<rparr>)"
    "next_block ?s = Suc ?e" "g_lock ?s = g_lock s"
    by (simp_all add: set_entry_def)
  show ?thesis
  proof (rule veh_invI)
    show "mem_inv es ?s"
      by (rule mem_inv_upd [OF m sel(1)])
        (use m ids idle in \<open>auto simp: set_entry_def mem_inv_def less_Suc_eq split: if_splits\<close>)
    show "owner_inv es ?s"
    proof (rule owner_inv_upd [OF o sel(1)])
      show "holds (((vpcs s)(t := AEnter ?e first)) u) = (g_lock ?s = Some u)" for u
        using lock_keep [OF assms(1), of "AEnter ?e first" t u] assms(2) by simp
    qed (use ids own idle owner_entry [OF o] runs_linked [OF o] in \<open>auto simp: set_entry_def owner_def split: if_splits\<close>)
    show "cursor_inv ?s"
      by (rule cursor_inv_mono [OF c]) (use flink_bound [OF m] in \<open>auto simp: set_entry_def split: if_splits\<close>)
  qed
qed

lemma veh_free_owner:
  "veh_free q = Some (e, p) \<Longrightarrow> owner q = Some e \<and> owner p = None \<and> fresh_owner p = None \<and>
   (\<forall>x. \<not> runs x p \<and> \<not> runs x q) \<and> \<not> holds p \<and> \<not> holds q \<and>
   (cursor p = None \<or> cursor p = cursor q)"
  by (cases q) (auto simp: owner_def split: if_splits)

lemma veh_inv_free:
  assumes "veh_inv s" and "veh_free (vpcs s t) = Some (e, p)"
  shows "veh_inv (s\<lparr>vpcs := (vpcs s)(t := p), mem := set_entry e None (mem s)\<rparr>)" (is "veh_inv ?s")
proof -
  obtain es where m: "mem_inv es s" and o: "owner_inv es s" and c: "cursor_inv s"
    using assms(1) by (auto simp: veh_inv_def)
  note f = veh_free_owner [OF assms(2)]
  have e: "e \<notin> set es" using owner_entry [OF o] f by blast
  have uniq: "u \<noteq> t \<Longrightarrow> owner (vpcs s u) \<noteq> Some e" for u using owned_by_one [OF o, of t e u] f by blast
  show ?thesis
  proof (rule veh_invI)
    show "mem_inv es ?s"
      by (rule mem_inv_upd [OF m, of _ t p])
        (use m f e in \<open>auto simp: set_entry_def mem_inv_def split: if_splits\<close>)
    show "owner_inv es ?s"
    proof (rule owner_inv_upd [OF o, of _ t p])
      show "holds (((vpcs s)(t := p)) u) = (g_lock ?s = Some u)" for u
        using lock_keep [OF assms(1), of p t u] f by simp
    qed (use f e uniq owner_entry [OF o] runs_linked [OF o] in \<open>auto simp: set_entry_def split: if_splits\<close>)
    show "cursor_inv ?s"
      by (rule cursor_inv_mono [OF c])
        (use f flink_bound [OF m] in \<open>auto simp: set_entry_def split: if_splits\<close>)
  qed
qed

text \<open>An entry that stays linked changes its counters.\<close>

lemma veh_inv_count:
  assumes "veh_inv s" and g: "g_lock s = Some t"
    and m: "mem_inv es s" and o: "owner_inv es s" and e: "e \<in> set es"
    and counted: "counted_entry ((vpcs s)(t := p)) e en"
    and own: "owner (vpcs s t) = None" "owner p = None" and p: "holds p" "p \<noteq> VIdle"
    and r: "\<And>x. x \<noteq> e \<Longrightarrow> runs x p = runs x (vpcs s t)"
    and cu: "\<And>c. cursor p = Some c \<Longrightarrow> \<exists>x. c = Flink (links (mem s)) x"
  shows "veh_inv (s\<lparr>vpcs := (vpcs s)(t := p), mem := set_entry e (Some en) (mem s)\<rparr>)"
    (is "veh_inv ?s")
proof -
  have c: "cursor_inv s" using assms(1) by (simp add: veh_inv_def)
  have fr: "fresh_owner p = None" "fresh_owner (vpcs s t) = None"
    using own by (simp_all add: owner_def split: option.splits)
  obtain en0 where en0: "entries (mem s) e = Some en0" using linked_entry [OF m e] .
  show ?thesis
  proof (rule veh_invI)
    show "mem_inv es ?s"
    proof (rule mem_inv_upd [OF m, of _ t p])
      show "x \<in> set es \<and> entries (mem ?s) x = entries (mem s) x \<and> runs x p = runs x (vpcs s t) \<or>
          (\<exists>en. entries (mem ?s) x = Some en \<and> counted_entry ((vpcs s)(t := p)) x en)"
        if "x \<in> set es" for x using that counted r by (cases "x = e") (auto simp: set_entry_def)
    qed (use m en0 in \<open>auto simp: set_entry_def mem_inv_def split: if_splits\<close>)
    show "owner_inv es ?s"
    proof (rule owner_inv_upd [OF o, of _ t p])
      show "holds (((vpcs s)(t := p)) u) = (g_lock ?s = Some u)" for u
        using lock_keep [OF assms(1), of p t u] holds_lock [OF assms(1), of t] g p by simp
      show "x \<notin> set es \<and> entries (mem ?s) x = entries (mem s) x \<and> owner p \<noteq> Some x"
        if "u \<noteq> t" "owner (vpcs s u) = Some x" for u x
        using owner_entry [OF o that(2)] e own by (auto simp: set_entry_def)
      show "x \<in> set es" if "runs x p" for x using that r runs_linked [OF o, of x t] e by (cases "x = e") auto
    qed (use own e runs_linked [OF o] in \<open>auto simp: set_entry_def split: if_splits\<close>)
    show "cursor_inv ?s"
    proof (rule cursor_inv_mono [OF c])
      show "cursor (vpcs s u) = Some d \<or> (\<exists>y. d = Flink (links (mem s)) y) \<and> d < next_block s"
        if "cursor (vpcs ?s u) = Some d" for u d
        using that cu flink_bound [OF m] by (cases "u = t") auto
    qed (use fr flink_bound [OF m] in \<open>auto simp: set_entry_def split: if_splits\<close>)
  qed
qed

text \<open>An entry without references leaves the ring, and the activation is to free it.\<close>

lemma remove_flink:
  "Flink (remove_list_entry e h) x = Flink h x \<or> Flink (remove_list_entry e h) x = Flink h e"
  by (auto simp: remove_list_entry_def set_flink_def set_blink_def Let_def)

lemma veh_inv_unlink:
  assumes "veh_inv s" and g: "g_lock s = Some t"
    and m: "mem_inv es s" and o: "owner_inv es s" and e: "e \<in> set es"
    and en: "Deleted en" and idle: "cnt (runs e) ((vpcs s)(t := p)) = 0"
    and own: "owner (vpcs s t) = None" "free_owner p = Some e" "fresh_owner p = None"
    and p: "holds p" "p \<noteq> VIdle"
    and r: "\<And>x. x \<noteq> e \<Longrightarrow> runs x p = runs x (vpcs s t)"
    and cu: "\<And>c. cursor p = Some c \<Longrightarrow> c = Flink (links (mem s)) e"
  shows "veh_inv (s\<lparr>vpcs := (vpcs s)(t := p), mem := (set_entry e (Some en) (mem s))
      \<lparr>links := remove_list_entry e (links (mem s))\<rparr>\<rparr>)" (is "veh_inv ?s")
proof -
  have c: "cursor_inv s" using assms(1) by (simp add: veh_inv_def)
  have rg: "ring 0 (links (mem s)) es" and ds: "distinct es" using m by (auto simp: mem_inv_def ring_def)
  then have set: "set (remove1 e es) = set es - {e}" by simp
  have fin: "finite {u. ((vpcs s)(t := p)) u \<noteq> VIdle}"
    using m by (auto simp: mem_inv_def intro: finite_pcs_upd)
  then have "finite {u. runs e (((vpcs s)(t := p)) u)}" by (rule rev_finite_subset) auto
  then have norun: "\<not> runs e (((vpcs s)(t := p)) u)" for u using idle by (auto simp: cnt_zero_iff)
  obtain en0 where en0: "entries (mem s) e = Some en0" using linked_entry [OF m e] .
  have ownp: "owner p = Some e" and fr: "fresh_owner (vpcs s t) = None"
    using own by (simp_all add: owner_def split: option.splits)
  have fl: "Flink (links (mem ?s)) x = Flink (links (mem s)) x \<or>
      Flink (links (mem ?s)) x = Flink (links (mem s)) e" for x using remove_flink by simp
  then have bound: "Flink (links (mem ?s)) x < next_block s" for x using flink_bound [OF m] by metis
  show ?thesis
  proof (rule veh_invI)
    show "mem_inv (remove1 e es) ?s"
      by (rule mem_inv_upd [OF m, of _ t p])
        (use veh.rep_unlink [OF rg e] en0 set r bound entry_id [OF m] in
          \<open>auto simp: set_entry_def split: if_splits\<close>)
    show "owner_inv (remove1 e es) ?s"
    proof (rule owner_inv_upd [OF o, of _ t p])
      show "holds (((vpcs s)(t := p)) u) = (g_lock ?s = Some u)" for u
        using lock_keep [OF assms(1), of p t u] holds_lock [OF assms(1), of t] g p by simp
      show "x \<in> set (remove1 e es)" if "runs x p" for x
        using that norun [of t] r [of x] runs_linked [OF o, of x t] set by (cases "x = e") auto
      show "x \<in> set (remove1 e es)" if "u \<noteq> t" "runs x (vpcs s u)" for u x
        using that norun [of u] runs_linked [OF o, of x u] set by (cases "x = e") auto
    qed (use own ownp en e set owner_entry [OF o] entry_owned [OF o] in
        \<open>auto simp: set_entry_def split: if_splits\<close>)
    show "cursor_inv ?s"
    proof (rule cursor_inv_mono [OF c])
      show "cursor (vpcs s u) = Some d \<or> (\<exists>y. d = Flink (links (mem s)) y) \<and> d < next_block s"
        if "cursor (vpcs ?s u) = Some d" for u d
        using that cu flink_bound [OF m] by (cases "u = t") auto
      show "Flink (links (mem ?s)) x < next_block s \<and>
          ((\<exists>y. Flink (links (mem ?s)) x = Flink (links (mem s)) y) \<or>
           (\<forall>t. fresh_owner (vpcs ?s t) \<noteq> Some (Flink (links (mem ?s)) x)))" for x
        using fl [of x] bound by metis
    qed (use fr own in \<open>auto split: if_splits\<close>)
  qed
qed

text \<open>A new entry is linked.\<close>

lemma insert_flink:
  "Flink (insert_list_head 0 e h) x \<in> {e} \<union> range (Flink h)"
  "Flink (insert_list_tail 0 e h) x \<in> {0, e} \<union> range (Flink h)"
  by (auto simp: insert_list_head_def insert_list_tail_def set_flink_def set_blink_def Let_def)

lemma veh_inv_link:
  assumes "veh_inv s" and g: "g_lock s = Some t" and pc: "vpcs s t = ABody e first"
    and h: "h = insert_list_head 0 e (links (mem s)) \<and> first \<or>
      h = insert_list_tail 0 e (links (mem s)) \<and> \<not> first"
  shows "veh_inv (s\<lparr>vpcs := (vpcs s)(t := ALeave),
      mem := (mem s)\<lparr>hook_installed := True, links := h\<rparr>\<rparr>)" (is "veh_inv ?s")
proof -
  obtain es where m: "mem_inv es s" and o: "owner_inv es s" and c: "cursor_inv s"
    using assms(1) by (auto simp: veh_inv_def)
  have rg: "ring 0 (links (mem s)) es" using m by (simp add: mem_inv_def)
  have own: "owner (vpcs s t) = Some e" using pc by (simp add: owner_def)
  obtain en where en: "entries (mem s) e = Some en" "\<not> Deleted en" "References en = 1" "e \<notin> set es"
    using owner_entry [OF o own] pc by auto
  have id: "0 < e" "e < next_block s" using entry_id [OF m en(1)] by auto
  have uniq: "u \<noteq> t \<Longrightarrow> owner (vpcs s u) \<noteq> Some e" for u using owned_by_one [OF o own] by blast
  let ?es = "if first then e # es else es @ [e]"
  let ?pcs = "(vpcs s)(t := ALeave)"
  have rg': "ring 0 h ?es" using h veh.rep_first [OF rg, of e] veh.rep_last [OF rg, of e] en(4) id by auto
  have set: "set ?es = insert e (set es)" by auto
  have "\<not> runs e (?pcs u)" for u using runs_linked [OF o, of e u] en(4) by auto
  then have counted: "counted_entry ?pcs e en" using en by (simp add: counted_entry_def cnt_def)
  have fl: "Flink h x = e \<or> Flink h x = 0 \<or> (\<exists>y. Flink h x = Flink (links (mem s)) y)" for x
    using h insert_flink [where e = e and h = "links (mem s)" and x = x] by auto
  show ?thesis
  proof (rule veh_invI)
    show "mem_inv ?es ?s"
    proof (rule mem_inv_upd [OF m, of _ t ALeave])
      show "x \<in> set es \<and> entries (mem ?s) x = entries (mem s) x \<and> runs x ALeave = runs x (vpcs s t) \<or>
          (\<exists>en. entries (mem ?s) x = Some en \<and> counted_entry ?pcs x en)" if "x \<in> set ?es" for x
        using that set counted en(1) pc by auto
      show "Flink (links (mem ?s)) x < next_block ?s" for x using fl [of x] id flink_bound [OF m] by auto
    qed (use rg' in simp_all)
    show "owner_inv ?es ?s"
    proof (rule owner_inv_upd [OF o, of _ t ALeave])
      show "holds (?pcs u) = (g_lock ?s = Some u)" for u using lock_keep [OF assms(1), of ALeave t u] pc by simp
      show "x \<in> set ?es \<or> owner ALeave = Some x \<or>
          x \<notin> set es \<and> entries (mem s) x \<noteq> None \<and> owner (vpcs s t) \<noteq> Some x"
        if "entries (mem ?s) x \<noteq> None" for x using that set own by auto
      show "x \<notin> set ?es \<and> entries (mem ?s) x = entries (mem s) x \<and> owner ALeave \<noteq> Some x"
        if "u \<noteq> t" "owner (vpcs s u) = Some x" for u x
        using that set uniq owner_entry [OF o that(2)] by (auto simp: owner_def)
    qed (use set runs_linked [OF o] in \<open>auto simp: owner_def\<close>)
    show "cursor_inv ?s"
    proof (rule cursor_inv_mono [OF c])
      have "fresh_owner (vpcs ?s u) \<noteq> Some e \<and> fresh_owner (vpcs ?s u) \<noteq> Some 0" for u
        using uniq [of u] owner_entry [OF o, of u 0] entry_id [OF m, of 0] by (auto simp: owner_def)
      moreover have "links (mem ?s) = h" by simp
      ultimately show "Flink (links (mem ?s)) x < next_block s \<and>
          ((\<exists>y. Flink (links (mem ?s)) x = Flink (links (mem s)) y) \<or>
           (\<forall>t. fresh_owner (vpcs ?s t) \<noteq> Some (Flink (links (mem ?s)) x)))" for x
        using fl [of x] id flink_bound [OF m]
        by (elim disjE exE) (simp_all only: simp_thms, fastforce+)
    qed (auto split: if_splits)
  qed
qed

section \<open>The code under the lock keeps the invariant\<close>

text \<open>The search meets the registered entries only, and finds the handle among them.\<close>

lemma find_handler_ring:
  assumes "mem_inv es s" and "0 # es = ys @ zs" and "ys \<noteq> []"
  shows "find_handler (mem s) h (hd (zs @ [0])) =
    Some (h \<in> set zs \<and> (\<exists>en. entries (mem s) h = Some en \<and> \<not> Deleted en))"
  using assms(2,3)
proof (induction zs arbitrary: ys)
  case Nil
  then show ?case by (simp add: find_handler.simps)
next
  case (Cons z zs)
  have rg: "ring 0 (links (mem s)) es" using assms(1) by (simp add: mem_inv_def)
  have z: "z \<in> set es" using Cons.prems by (cases ys) auto
  have "0 \<notin> set es" using rg by (simp add: ring_def)
  with z have "z \<noteq> 0" by metis
  obtain en where en: "entries (mem s) z = Some en" using linked_entry [OF assms(1) z] .
  have nx: "Flink (links (mem s)) z = hd (zs @ [0])"
    using veh.rep_succ [OF rg] Cons.prems(1) by blast
  have ih: "find_handler (mem s) h (hd (zs @ [0])) =
      Some (h \<in> set zs \<and> (\<exists>en. entries (mem s) h = Some en \<and> \<not> Deleted en))"
    using Cons.prems by (intro Cons.IH [of "ys @ [z]"]) simp_all
  have "distinct (0 # es)" using rg by (rule veh.rep_distinct)
  then have "z \<notin> set zs" unfolding Cons.prems(1) by auto
  then show ?case using \<open>z \<noteq> 0\<close> en nx ih by (subst find_handler.simps) auto
qed

lemma find_handler_eq:
  assumes "mem_inv es s"
  shows "find_handler (mem s) h (Flink (links (mem s)) 0) =
    Some (h \<in> set es \<and> (\<exists>en. entries (mem s) h = Some en \<and> \<not> Deleted en))"
proof -
  have "ring 0 (links (mem s)) es" using assms by (simp add: mem_inv_def)
  then have "Flink (links (mem s)) 0 = hd (es @ [0])"
    using veh.rep_succ [of 0 "links (mem s)" es "[]" 0 es] by simp
  then show ?thesis using find_handler_ring [OF assms, of "[0]" es h] by simp
qed

lemma cnt_runs_upd:
  assumes "mem_inv es s"
  shows "cnt (runs e) ((vpcs s)(t := p)) =
    cnt (runs e) (vpcs s) - (if runs e (vpcs s t) then 1 else 0) + (if runs e p then 1 else 0)"
  using cnt_upd [of "runs e" "vpcs s", OF runs_finite [OF assms]] .

lemma veh_inv_remove:
  assumes inv: "veh_inv s" and g: "g_lock s = Some t" and pc: "vpcs s t = RBody h"
    and body: "remove_locked h (mem s) = Some (found, victim, m')"
  shows "veh_inv (s\<lparr>vpcs := (vpcs s)(t := RLeave victim), mem := m'\<rparr>)"
proof -
  obtain es where m: "mem_inv es s" and o: "owner_inv es s"
    using inv by (auto simp: veh_inv_def)
  note find = find_handler_eq [OF m, of h]
  show ?thesis
  proof (cases "h \<in> set es \<and> (\<exists>en. entries (mem s) h = Some en \<and> \<not> Deleted en)")
    case False
    have "find_handler (mem s) h (Flink (links (mem s)) 0) = Some False"
      unfolding find using False by blast
    then have "victim = None" "m' = mem s"
      using body by (simp_all add: remove_locked_def)
    then show ?thesis
      using veh_inv_frame [OF inv, of "RLeave None" t "g_lock s"]
        lock_keep [OF inv, of "RLeave None" t] pc by simp
  next
    case True
    then obtain en where h: "h \<in> set es" and en: "entries (mem s) h = Some en" "\<not> Deleted en" by blast
    have yes: "find_handler (mem s) h (Flink (links (mem s)) 0) = Some True"
      unfolding find using True by blast
    let ?en = "en\<lparr>Deleted := True, References := References en - 1\<rparr>"
    have cn: "References en = 1 + cnt (runs h) (vpcs s)"
      using linked_counted [OF m h en(1)] en(2) by (simp add: counted_entry_def)
    have n: "cnt (runs h) ((vpcs s)(t := RLeave v)) = cnt (runs h) (vpcs s)" for v
      using pc by (intro cnt_same) simp
    have own: "owner (vpcs s t) = None" using pc by (simp add: owner_def)
    show ?thesis
    proof (cases "References en = 1")
      case one: True
      then have r: "victim = Some h" "m' = (set_entry h (Some ?en) (mem s))\<lparr>links := remove_list_entry h (links (mem s))\<rparr>"
        using body yes en by (auto simp: remove_locked_def Let_def set_entry_def)
      show ?thesis unfolding r
      proof (rule veh_inv_unlink [OF inv g m o h])
        show "cnt (runs h) ((vpcs s)(t := RLeave (Some h))) = 0" using one cn n by simp
        show "runs x (RLeave (Some h)) = runs x (vpcs s t)" for x using pc by simp
      qed (simp_all add: own)
    next
      case more: False
      then have r: "victim = None" "m' = set_entry h (Some ?en) (mem s)"
        using body yes en by (auto simp: remove_locked_def Let_def set_entry_def)
      have "0 < cnt (runs h) (vpcs s)"
        using cn more cnt_nonneg [of "runs h" "vpcs s"] by linarith
      then have "counted_entry ((vpcs s)(t := RLeave None)) h ?en"
        using cn n by (simp add: counted_entry_def)
      then show ?thesis unfolding r
      proof (rule veh_inv_count [OF inv g m o h])
        show "runs x (RLeave None) = runs x (vpcs s t)" for x using pc by simp
      qed (simp_all add: pc owner_def)
    qed
  qed
qed

lemma veh_inv_round:
  assumes inv: "veh_inv s" and g: "g_lock s = Some t" and pc: "vpcs s t = DLoop c"
    and body: "dispatch_round c (mem s) = Some (p, m')"
  shows "veh_inv (s\<lparr>vpcs := (vpcs s)(t := p), mem := m'\<rparr>)"
proof -
  obtain es where m: "mem_inv es s" and o: "owner_inv es s" and cu: "cursor_inv s"
    using inv by (auto simp: veh_inv_def)
  consider (stop) "c = 0" | (skip) en where "c \<noteq> 0" "entries (mem s) c = Some en" "Deleted en"
    | (call) en where "c \<noteq> 0" "entries (mem s) c = Some en" "\<not> Deleted en"
    using body by (auto simp: dispatch_round_def split: if_splits option.splits)
  then show ?thesis
  proof cases
    case stop
    then have r: "p = DDone False" "m' = mem s" using body by (simp_all add: dispatch_round_def)
    show ?thesis using veh_inv_frame [OF inv, of "DDone False" t "g_lock s"]
        lock_keep [OF inv, of "DDone False" t] pc by (simp add: r)
  next
    case skip
    then have r: "p = DLoop (Flink (links (mem s)) c)" "m' = mem s"
      using body by (auto simp: dispatch_round_def)
    have "veh_inv (s\<lparr>vpcs := (vpcs s)(t := p), g_lock := g_lock s\<rparr>)"
      unfolding r using pc lock_keep [OF inv, of "DLoop (Flink (links (mem s)) c)" t]
      by (intro veh_inv_frame [OF inv]) auto
    then show ?thesis by (simp add: r)
  next
    case call
    let ?en = "en\<lparr>References := References en + 1\<rparr>"
    have r: "p = DCallLeave c" "m' = set_entry c (Some ?en) (mem s)"
      using body call by (simp_all add: dispatch_round_def)
    have "fresh_owner (vpcs s u) \<noteq> Some c" for u
      using cu pc unfolding cursor_inv_def by (metis cursor.simps(1))
    then have "owner (vpcs s u) \<noteq> Some c" for u
      using owner_entry [OF o, of u c] call by (auto simp: owner_def split: option.splits)
    then have c: "c \<in> set es" using o call(2) unfolding owner_inv_def by blast
    have n: "cnt (runs c) ((vpcs s)(t := DCallLeave c)) = cnt (runs c) (vpcs s) + 1"
      using cnt_runs_upd [OF m, of c t "DCallLeave c"] pc by simp
    have "counted_entry ((vpcs s)(t := DCallLeave c)) c ?en"
      using linked_counted [OF m c call(2)] call(3) n by (simp add: counted_entry_def)
    then show ?thesis unfolding r
    proof (rule veh_inv_count [OF inv g m o c])
      show "runs x (DCallLeave c) = runs x (vpcs s t)" if "x \<noteq> c" for x using pc that by simp
    qed (simp_all add: owner_def pc)
  qed
qed

lemma veh_inv_after:
  assumes inv: "veh_inv s" and g: "g_lock s = Some t" and pc: "vpcs s t = DAfter e c"
    and body: "dispatch_after e c (mem s) = Some (p, m')"
  shows "veh_inv (s\<lparr>vpcs := (vpcs s)(t := p), mem := m'\<rparr>)"
proof -
  obtain es where m: "mem_inv es s" and o: "owner_inv es s" using inv by (auto simp: veh_inv_def)
  have "runs e (vpcs s t)" using pc by simp
  then have e: "e \<in> set es" using o unfolding owner_inv_def by blast
  obtain en where en: "entries (mem s) e = Some en" using linked_entry [OF m e] .
  have cn: "References en = (if Deleted en then 0 else 1) + cnt (runs e) (vpcs s)"
    using linked_counted [OF m e en] by (simp add: counted_entry_def)
  have n: "cnt (runs e) ((vpcs s)(t := q)) = cnt (runs e) (vpcs s) - 1" if "\<not> runs e q" for q
    using cnt_runs_upd [OF m, of e t q] pc that by simp
  let ?en = "en\<lparr>References := References en - 1\<rparr>"
  have own: "owner (vpcs s t) = None" using pc by (simp add: owner_def)
  show ?thesis
  proof (cases "References en = 1")
    case True
    then have r: "p = DFreeLeave e (Flink (links (mem s)) e) c"
      "m' = (set_entry e (Some ?en) (mem s))\<lparr>links := remove_list_entry e (links (mem s))\<rparr>"
      using body en by (auto simp: dispatch_after_def Let_def set_entry_def)
    have pos: "0 < cnt (runs e) (vpcs s)"
      using cnt_pos [of "runs e" "vpcs s" t, OF runs_finite [OF m]] pc by simp
    have del: "Deleted en" using cn True pos by (cases "Deleted en") auto
    show ?thesis unfolding r
    proof (rule veh_inv_unlink [OF inv g m o e])
      show "cnt (runs e) ((vpcs s)(t := DFreeLeave e (Flink (links (mem s)) e) c)) = 0"
        using n cn del True by simp
      show "runs x (DFreeLeave e (Flink (links (mem s)) e) c) = runs x (vpcs s t)" if "x \<noteq> e" for x
        using pc that by simp
    qed (simp_all add: own del)
  next
    case False
    then have r: "p = (if c then DDone True else DLoop (Flink (links (mem s)) e))"
      "m' = set_entry e (Some ?en) (mem s)"
      using body en by (auto simp: dispatch_after_def Let_def set_entry_def split: if_splits)
    have np: "\<not> runs e p" "owner p = None" "holds p" "p \<noteq> VIdle" by (simp_all add: r(1) owner_def)
    have "0 < References en" using linked_counted [OF m e en] by (simp add: counted_entry_def)
    then have "counted_entry ((vpcs s)(t := p)) e ?en"
      using n [OF np(1)] cn False by (simp add: counted_entry_def)
    then show ?thesis unfolding r(2)
    proof (rule veh_inv_count [OF inv g m o e])
      show "runs x p = runs x (vpcs s t)" if "x \<noteq> e" for x using pc that by (simp add: r(1))
      show "\<exists>x. d = Flink (links (mem s)) x" if "cursor p = Some d" for d
        using that by (auto simp: r(1) split: if_splits)
    qed (use own np in simp_all)
  qed
qed

lemma veh_inv_body:
  assumes inv: "veh_inv s" and g: "g_lock s = Some t"
    and body: "veh_body ok (vpcs s t) (mem s) = Some (Some (p, m'))"
  shows "veh_inv (s\<lparr>vpcs := (vpcs s)(t := p), mem := m'\<rparr>)"
proof (cases "vpcs s t")
  case (ABody e first)
  show ?thesis
  proof (cases "fst (add_locked ok first e (mem s))")
    case True
    then have r: "p = ALeave" "m' = (mem s)\<lparr>hook_installed := True, links :=
        (if first then insert_list_head 0 e (links (mem s)) else insert_list_tail 0 e (links (mem s)))\<rparr>"
      using body ABody by (auto simp: add_locked_def Let_def split: if_splits)
    show ?thesis unfolding r by (rule veh_inv_link [OF inv g ABody]) auto
  next
    case False
    then have r: "p = AFail e" "m' = mem s"
      using body ABody by (auto simp: add_locked_def Let_def split: if_splits)
    show ?thesis using veh_inv_frame [OF inv, of "AFail e" t "g_lock s"]
        lock_keep [OF inv, of "AFail e" t] ABody by (simp add: r)
  qed
next
  case (RBody h)
  then show ?thesis using body veh_inv_remove [OF inv g RBody] by auto
next
  case DStart
  then have r: "p = DLoop (Flink (links (mem s)) 0)" "m' = mem s" using body by auto
  have "veh_inv (s\<lparr>vpcs := (vpcs s)(t := p), g_lock := g_lock s\<rparr>)"
    unfolding r using DStart lock_keep [OF inv, of "DLoop (Flink (links (mem s)) 0)" t]
    by (intro veh_inv_frame [OF inv]) auto
  then show ?thesis by (simp add: r)
next
  case (DLoop c)
  then show ?thesis using body veh_inv_round [OF inv g DLoop] by simp
next
  case (DAfter e c)
  then show ?thesis using body veh_inv_after [OF inv g DAfter] by simp
qed (use body in simp_all)

lemma veh_inv_crash: "veh_inv s \<Longrightarrow> veh_inv (s\<lparr>crashed := True\<rparr>)"
  by (simp add: veh_inv_def mem_inv_def owner_inv_def cursor_inv_def)

lemma veh_inv_step:
  assumes "veh_step t s s'" and "veh_inv s"
  shows "veh_inv s'"
  using assms
proof (cases rule: veh_step.cases)
  case (call p h)
  then show ?thesis using veh_inv_call assms(2) by blast
next
  case (alloc e h first)
  then show ?thesis using veh_inv_alloc [OF assms(2)] by simp
next
  case (enter p)
  then show ?thesis using veh_inv_enter [OF assms(2)] by simp
next
  case (body ok p m)
  then show ?thesis using veh_inv_body [OF assms(2)] by blast
next
  case (crash ok)
  then show ?thesis using veh_inv_crash [OF assms(2)] by simp
next
  case (leave p)
  then show ?thesis using veh_inv_leave [OF assms(2)] by simp
next
  case (handler e c)
  then show ?thesis using veh_inv_handler [OF assms(2)] by simp
next
  case (free e p)
  then show ?thesis using veh_inv_free [OF assms(2)] by simp
qed

interpretation veh_sys: inductive_invariant "\<lambda>s. s = veh_start" veh_any_step veh_inv
  by unfold_locales (auto simp: veh_any_step_def veh_inv_start intro: veh_inv_step)

section \<open>Executing a schedule\<close>

text \<open>
  The step relation as a function: an activation begins a call, or goes on; \<open>Go\<close> carries the
  answer of the handler, or the success of the hook, where there is one.
\<close>

datatype veh_act = CallAdd nat bool | CallRemove nat | CallDispatch | Go bool

definition veh_exec :: "nat \<Rightarrow> veh_act \<Rightarrow> veh_sys \<Rightarrow> veh_sys option" where
  "veh_exec t a s =
     (if crashed s then None
      else case a of
        CallRemove h \<Rightarrow>
          if vpcs s t = VIdle \<and> h \<noteq> 0 then Some (s\<lparr>vpcs := (vpcs s)(t := REnter h)\<rparr>) else None
      | CallDispatch \<Rightarrow>
          if vpcs s t = VIdle then Some (s\<lparr>vpcs := (vpcs s)(t := DEnter)\<rparr>) else None
      | CallAdd h first \<Rightarrow>
          if vpcs s t = VIdle \<and> h \<noteq> 0
          then Some (s\<lparr>vpcs := (vpcs s)(t := AEnter (next_block s) first),
            next_block := Suc (next_block s),
            mem := set_entry (next_block s)
              (Some \<lparr>Handler = h, References = 1, Deleted = False\<rparr>) (mem s)\<rparr>)
          else None
      | Go b \<Rightarrow>
          (case veh_enter (vpcs s t) of
             Some p \<Rightarrow>
               if g_lock s = None then Some (s\<lparr>vpcs := (vpcs s)(t := p), g_lock := Some t\<rparr>) else None
           | None \<Rightarrow>
               (case veh_free (vpcs s t) of
                  Some (e, p) \<Rightarrow> Some (s\<lparr>vpcs := (vpcs s)(t := p), mem := set_entry e None (mem s)\<rparr>)
                | None \<Rightarrow>
                    (case vpcs s t of
                       DCall e \<Rightarrow> Some (s\<lparr>vpcs := (vpcs s)(t := DBack e b)\<rparr>)
                     | _ \<Rightarrow>
                       if g_lock s \<noteq> Some t then None
                       else (case veh_body b (vpcs s t) (mem s) of
                           Some (Some (p, m)) \<Rightarrow> Some (s\<lparr>vpcs := (vpcs s)(t := p), mem := m\<rparr>)
                         | Some None \<Rightarrow> Some (s\<lparr>crashed := True\<rparr>)
                         | None \<Rightarrow>
                             map_option (\<lambda>p. s\<lparr>vpcs := (vpcs s)(t := p), g_lock := None\<rparr>)
                               (veh_leave (vpcs s t)))))))"

lemma veh_exec_step: "veh_exec t a s = Some s' \<Longrightarrow> veh_step t s s'"
  by (auto simp: veh_exec_def split: if_splits option.splits veh_act.splits veh_pc.splits
      intro: veh_step.intros)

fun veh_run :: "(nat \<times> veh_act) list \<Rightarrow> veh_sys \<Rightarrow> veh_sys option" where
  "veh_run [] s = Some s"
| "veh_run ((t, a) # sched) s =
     (case veh_exec t a s of None \<Rightarrow> None | Some s' \<Rightarrow> veh_run sched s')"

lemma veh_run_reach:
  "veh_reachable s \<Longrightarrow> veh_run sched s = Some s' \<Longrightarrow> veh_reachable s'"
proof (induction sched arbitrary: s)
  case (Cons x sched)
  obtain t a where x: "x = (t, a)" by (cases x)
  with Cons.prems(2) obtain s1 where s1: "veh_exec t a s = Some s1" "veh_run sched s1 = Some s'"
    by (auto split: option.splits)
  from veh_exec_step [OF s1(1)] have "veh_any_step s s1" by (auto simp: veh_any_step_def)
  with Cons.prems(1) have "veh_reachable s1" by (rule reach_step)
  then show ?case using s1(2) by (rule Cons.IH)
qed simp

lemma veh_start_reachable: "veh_reachable veh_start"
  by (rule reach_init) simp

lemmas veh_run_start = veh_run_reach [OF veh_start_reachable]

lemmas veh_eval = veh_exec_def veh_start_def set_entry_def add_locked_def remove_locked_def
  dispatch_round_def dispatch_after_def insert_list_head_def insert_list_tail_def
  remove_list_entry_def set_flink_def set_blink_def empty_ring_def Let_def find_handler.simps

abbreviation add_handler :: "nat \<Rightarrow> bool \<Rightarrow> (nat \<times> veh_act) list" where
  "add_handler h first \<equiv> [(0, CallAdd h first), (0, Go True), (0, Go True), (0, Go True)]"

abbreviation remove_handler :: "nat \<Rightarrow> nat \<Rightarrow> (nat \<times> veh_act) list" where
  "remove_handler t h \<equiv> [(t, CallRemove h), (t, Go True), (t, Go True), (t, Go True)]"

text \<open>A handler that is removed while it runs: activation 1 removes what activation 0 runs.\<close>

abbreviation removed_while_running :: "(nat \<times> veh_act) list" where
  "removed_while_running \<equiv> add_handler 7 False @ [(0, CallDispatch), (0, Go True), (0, Go True),
     (0, Go True), (0, Go True)] @ remove_handler 1 1"

section \<open>Safety of the handlers\<close>

lemma veh_reach_inv:
  assumes "veh_reachable s"
  obtains es where "mem_inv es s" "owner_inv es s" "cursor_inv s"
  using veh_sys.reach_inv [OF assms] by (auto simp: veh_inv_def)

text \<open>What following \<open>Flink\<close> from the head can meet, the head included.\<close>

definition on_ring :: "list_links \<Rightarrow> nat \<Rightarrow> bool" where
  "on_ring h c \<longleftrightarrow> (\<exists>n. (Flink h ^^ n) 0 = c)"

lemma on_ring_iff:
  assumes "ring 0 h es"
  shows "on_ring h c \<longleftrightarrow> c \<in> set (0 # es)"
proof
  have "(Flink h ^^ n) 0 \<in> set (0 # es)" for n
  proof (induction n)
    case (Suc n)
    then show ?case using veh.succ_closed [OF assms] by simp
  qed simp
  then show "on_ring h c \<Longrightarrow> c \<in> set (0 # es)" unfolding on_ring_def by metis
next
  assume "c \<in> set (0 # es)"
  then consider "c = 0" | i where "i < length es" "es ! i = c" by (auto simp: in_set_conv_nth)
  then show "on_ring h c"
  proof cases
    case 1
    then show ?thesis unfolding on_ring_def by (intro exI [of _ 0]) simp
  next
    case 2
    have "map (\<lambda>i. (Flink h ^^ Suc i) 0) [0..<length es] ! i = es ! i"
      using veh.walk_all [OF assms] by (simp del: funpow.simps)
    with 2 show ?thesis unfolding on_ring_def by (intro exI [of _ "Suc i"]) simp
  qed
qed

text \<open>
  C2: no handler's entry is freed while the handler runs. In every reachable state, whatever
  the interleaving of adding, removing and dispatching, an activation inside a handler (or
  about to enter or account for it) finds the entry allocated and still on the ring, and its
  reference count is one for the registration, unless removed, plus the number of
  activations inside.
\<close>

theorem veh_running_handler_alive:
  assumes "veh_reachable s" and "runs e (vpcs s t)"
  shows "\<exists>en. entries (mem s) e = Some en \<and> 0 < References en \<and>
    References en = (if Deleted en then 0 else 1) + cnt (runs e) (vpcs s) \<and>
    on_ring (links (mem s)) e"
proof -
  obtain es where m: "mem_inv es s" and o: "owner_inv es s" using veh_reach_inv [OF assms(1)] .
  have e: "e \<in> set es" using o assms(2) unfolding owner_inv_def by blast
  obtain en where "entries (mem s) e = Some en" "counted_entry (vpcs s) e en"
    using linked_entry [OF m e] .
  moreover have "ring 0 (links (mem s)) es" using m by (simp add: mem_inv_def)
  ultimately show ?thesis using on_ring_iff e by (auto simp: counted_entry_def)
qed

theorem veh_running_handler_alive_witness:
  "\<exists>s en. veh_run removed_while_running veh_start = Some s \<and> vpcs s 0 = DCall 1 \<and>
    entries (mem s) 1 = Some en \<and> Deleted en \<and> 0 < References en"
proof -
  obtain s where s: "veh_run removed_while_running veh_start = Some s" "vpcs s 0 = DCall 1"
      "\<exists>en. entries (mem s) 1 = Some en \<and> Deleted en"
    by (simp add: veh_eval)
  with veh_running_handler_alive [OF veh_run_start [OF s(1)], of 1 0] show ?thesis by auto
qed

text \<open>
  C23: every block is freed once and by one activation. When an activation is about to call
  \<open>HeapFree\<close> on an entry, the entry is allocated, nobody runs its handler, no other
  activation is to free it, and the ring does not lead to it.
\<close>

theorem veh_free_is_safe:
  assumes "veh_reachable s" and "veh_free (vpcs s t) = Some (e, p)"
  shows "entries (mem s) e \<noteq> None \<and> (\<forall>u. \<not> runs e (vpcs s u)) \<and>
    (\<forall>u q. veh_free (vpcs s u) = Some (e, q) \<longrightarrow> u = t) \<and>
    \<not> on_ring (links (mem s)) e"
proof -
  obtain es where m: "mem_inv es s" and o: "owner_inv es s" using veh_reach_inv [OF assms(1)] .
  have own: "owner (vpcs s t) = Some e" using veh_free_owner [OF assms(2)] by blast
  obtain en where en: "entries (mem s) e = Some en" "e \<notin> set es" using owner_entry [OF o own] by blast
  have "0 < e" using entry_id [OF m en(1)] by blast
  moreover have "ring 0 (links (mem s)) es" using m by (simp add: mem_inv_def)
  ultimately have "\<not> on_ring (links (mem s)) e" using on_ring_iff en(2) by auto
  moreover have "\<not> runs e (vpcs s u)" for u using o en(2) unfolding owner_inv_def by blast
  moreover have "u = t" if "veh_free (vpcs s u) = Some (e, q)" for u q
  proof -
    have "owner (vpcs s u) = Some e" using veh_free_owner [OF that] by blast
    then show ?thesis using o own unfolding owner_inv_def by blast
  qed
  ultimately show ?thesis using en(1) by blast
qed

theorem veh_free_is_safe_witness:
  "\<exists>s p. veh_run (removed_while_running @ [(0, Go True), (0, Go True), (0, Go True), (0, Go True)]) veh_start
      = Some s \<and> veh_free (vpcs s 0) = Some (1, p) \<and> entries (mem s) 1 \<noteq> None"
proof -
  obtain s p where s: "veh_run (removed_while_running @ [(0, Go True), (0, Go True), (0, Go True),
      (0, Go True)]) veh_start = Some s" "veh_free (vpcs s 0) = Some (1, p)"
    by (simp add: veh_eval)
  with veh_free_is_safe [OF veh_run_start [OF s(1)] s(2)] show ?thesis by blast
qed

text \<open>
  Nothing leaks. Once every activation has returned, the allocated entries are exactly
  those on the ring; each is registered, not deleted, and holds the one reference of its
  registration.
\<close>

theorem veh_no_leak:
  assumes "veh_reachable s" and "\<forall>t. vpcs s t = VIdle" and "entries (mem s) e = Some en"
  shows "\<not> Deleted en \<and> References en = 1 \<and> on_ring (links (mem s)) e"
proof -
  obtain es where m: "mem_inv es s" and o: "owner_inv es s" using veh_reach_inv [OF assms(1)] .
  have "owner (vpcs s u) = None" for u using assms(2) by (simp add: owner_def)
  then have e: "e \<in> set es" using o assms(3) unfolding owner_inv_def by force
  have "cnt (runs e) (vpcs s) = 0" using assms(2) by (simp add: cnt_def)
  then have "\<not> Deleted en \<and> References en = 1"
    using linked_counted [OF m e assms(3)] by (auto simp: counted_entry_def split: if_splits)
  moreover have "ring 0 (links (mem s)) es" using m by (simp add: mem_inv_def)
  ultimately show ?thesis using on_ring_iff e by auto
qed

theorem veh_no_leak_witness:
  "\<exists>s. veh_run (add_handler 7 False @ add_handler 8 True @ remove_handler 0 1 @
      [(0, Go True)]) veh_start = Some s \<and>
    on_ring (links (mem s)) 2"
proof -
  obtain s en where s: "veh_run (add_handler 7 False @ add_handler 8 True @ remove_handler 0 1 @
      [(0, Go True)]) veh_start = Some s"
    "\<forall>t. vpcs s t = VIdle" "entries (mem s) 2 = Some en"
    by (simp add: veh_eval)
  with veh_no_leak [OF veh_run_start [OF s(1)] s(2,3)] show ?thesis by blast
qed

lemma remove_locked_reachable:
  assumes "veh_reachable s"
  shows "\<exists>found victim m'. remove_locked h (mem s) = Some (found, victim, m') \<and>
    (found \<longleftrightarrow> h \<noteq> 0 \<and> on_ring (links (mem s)) h \<and>
      (\<exists>en. entries (mem s) h = Some en \<and> \<not> Deleted en)) \<and>
    (found \<longrightarrow> (\<exists>en. entries m' h = Some en \<and> Deleted en)) \<and>
    (victim = Some h \<longleftrightarrow> found \<and> (\<forall>t. \<not> runs h (vpcs s t))) \<and>
    (victim = None \<or> victim = Some h)"
proof -
  obtain es where m: "mem_inv es s" and o: "owner_inv es s" using veh_reach_inv [OF assms] .
  have rg: "ring 0 (links (mem s)) es" using m by (simp add: mem_inv_def)
  have mem: "h \<in> set es \<longleftrightarrow> h \<noteq> 0 \<and> on_ring (links (mem s)) h"
  proof -
    have "0 \<notin> set es" using rg by (simp add: ring_def)
    then show ?thesis unfolding on_ring_iff [OF rg] by (cases "h = 0") simp_all
  qed
  note find = find_handler_eq [OF m, of h]
  show ?thesis
  proof (cases "h \<in> set es \<and> (\<exists>en. entries (mem s) h = Some en \<and> \<not> Deleted en)")
    case False
    have "find_handler (mem s) h (Flink (links (mem s)) 0) = Some False"
      unfolding find using False by blast
    then show ?thesis using False mem by (auto simp: remove_locked_def)
  next
    case True
    then obtain en where h: "h \<in> set es" and en: "entries (mem s) h = Some en" "\<not> Deleted en" by blast
    have yes: "find_handler (mem s) h (Flink (links (mem s)) 0) = Some True"
      unfolding find using True by blast
    have "References en = 1 + cnt (runs h) (vpcs s)"
      using linked_counted [OF m h en(1)] en(2) by (simp add: counted_entry_def)
    then have one: "References en = 1 \<longleftrightarrow> (\<forall>t. \<not> runs h (vpcs s t))"
      using cnt_zero_iff [of "runs h" "vpcs s", OF runs_finite [OF m]] by simp
    have found: "h \<noteq> 0 \<and> on_ring (links (mem s)) h \<and>
        (\<exists>en. entries (mem s) h = Some en \<and> \<not> Deleted en)" using mem h True by blast
    show ?thesis
    proof (cases "References en = 1")
      case True
      then show ?thesis using yes en one found
        by (auto simp: remove_locked_def Let_def set_entry_def)
    next
      case False
      then show ?thesis using yes en one found
        by (auto simp: remove_locked_def Let_def set_entry_def)
    qed
  qed
qed

text \<open>
  Removing never follows a bad pointer, in any interleaving, and answers TRUE exactly when
  the handle names a registered entry that no removal has claimed before. A removal that
  answers TRUE leaves the entry marked, and takes it off the ring at once when nobody runs it.
\<close>

theorem veh_remove_answers:
  assumes "veh_reachable s"
  shows "\<exists>found victim m'. remove_locked h (mem s) = Some (found, victim, m') \<and>
    (found \<longleftrightarrow> h \<noteq> 0 \<and> on_ring (links (mem s)) h \<and>
      (\<exists>en. entries (mem s) h = Some en \<and> \<not> Deleted en)) \<and>
    (found \<longrightarrow> (\<exists>en. entries m' h = Some en \<and> Deleted en)) \<and>
    (victim = Some h \<longleftrightarrow> found \<and> (\<forall>t. \<not> runs h (vpcs s t))) \<and>
    (victim = None \<or> victim = Some h)"
  using assms by (rule remove_locked_reachable)

theorem veh_remove_answers_witness:
  "\<exists>s victim m'. veh_run (add_handler 7 False) veh_start = Some s \<and>
    remove_locked 9 (mem s) = Some (False, victim, m')"
proof -
  obtain s where s: "veh_run (add_handler 7 False) veh_start = Some s" "entries (mem s) 9 = None"
    by (simp add: veh_eval)
  with veh_remove_answers [OF veh_run_start [OF s(1)], of 9] show ?thesis by force
qed

section \<open>The dispatcher's saved pointer\<close>


text \<open>The entry that the step just taken has unlinked.\<close>

fun unlinked :: "veh_pc \<Rightarrow> nat option" where
  "unlinked (RLeave v) = v"
| "unlinked (DFreeLeave e _ _) = Some e"
| "unlinked _ = None"

text \<open>Steps that do not unlink an entry that another dispatcher has saved as its \<open>current\<close>.\<close>

definition careful_step :: "veh_sys \<Rightarrow> veh_sys \<Rightarrow> bool" where
  "careful_step s s' \<longleftrightarrow>
     (\<exists>t. veh_step t s s' \<and>
        (\<forall>u e. u \<noteq> t \<longrightarrow> unlinked (vpcs s' t) = Some e \<longrightarrow> cursor (vpcs s u) \<noteq> Some e))"

definition careful_inv :: "veh_sys \<Rightarrow> bool" where
  "careful_inv s \<longleftrightarrow> \<not> crashed s \<and> veh_inv s \<and>
     (\<forall>t c. cursor (vpcs s t) = Some c \<longrightarrow> on_ring (links (mem s)) c)"

lemma veh_inv_ring:
  assumes "veh_inv s"
  obtains es where "mem_inv es s" "owner_inv es s" "ring 0 (links (mem s)) es"
  using assms by (auto simp: veh_inv_def mem_inv_def)

lemma on_ring_succ:
  "veh_inv s \<Longrightarrow> on_ring (links (mem s)) c \<Longrightarrow> on_ring (links (mem s)) (Flink (links (mem s)) c)"
  by (metis on_ring_def funpow.simps(2) o_apply)

lemma on_ring_head: "on_ring h 0" 
  unfolding on_ring_def by (intro exI [of _ 0]) simp

lemma on_ring_unlink:
  assumes "veh_inv s" and "on_ring (links (mem s)) e" and "e \<noteq> 0"
  shows "on_ring (remove_list_entry e (links (mem s))) c \<longleftrightarrow> on_ring (links (mem s)) c \<and> c \<noteq> e"
    and "Flink (links (mem s)) e \<noteq> e"
proof -
  obtain es where rg: "ring 0 (links (mem s)) es" using veh_inv_ring [OF assms(1)] .
  have e: "e \<in> set es" using assms(2,3) on_ring_iff [OF rg] by simp
  have d: "distinct (0 # es)" using rg by (rule veh.rep_distinct)
  have "set (0 # remove1 e es) = set (0 # es) - {e}" using d assms(3) by auto
  then show "on_ring (remove_list_entry e (links (mem s))) c \<longleftrightarrow> on_ring (links (mem s)) c \<and> c \<noteq> e"
    unfolding on_ring_iff [OF rg] on_ring_iff [OF veh.rep_unlink [OF rg e]] by blast
  obtain ys zs where sp: "0 # es = ys @ e # zs" using e by (metis list.set_intros(2) split_list)
  have "hd (zs @ [0]) \<noteq> e" using d assms(3) unfolding sp by (cases zs) auto
  then show "Flink (links (mem s)) e \<noteq> e" using veh.rep_succ [OF rg sp] by simp
qed

text \<open>The code under the lock does not crash, and keeps every saved pointer on the ring.\<close>

lemma careful_no_crash:
  assumes "careful_inv s"
  shows "veh_body ok (vpcs s t) (mem s) \<noteq> Some None"
proof -
  have inv: "veh_inv s" using assms by (simp add: careful_inv_def)
  obtain es where m: "mem_inv es s" and o: "owner_inv es s" and rg: "ring 0 (links (mem s)) es"
    using veh_inv_ring [OF inv] .
  have alloc: "entries (mem s) c \<noteq> None" if "on_ring (links (mem s)) c" "c \<noteq> 0" for c
    using that linked_entry [OF m, of c] unfolding on_ring_iff [OF rg] by auto
  show ?thesis
  proof (cases "vpcs s t")
    case (RBody h)
    have "remove_locked h (mem s) \<noteq> None"
      using find_handler_eq [OF m, of h] by (auto simp: remove_locked_def Let_def split: bool.split)
    then show ?thesis by (simp add: RBody)
  next
    case (DLoop c)
    then have "cursor (vpcs s t) = Some c" by simp
    then have "on_ring (links (mem s)) c" using assms unfolding careful_inv_def by blast
    then show ?thesis using alloc [of c]
      by (cases "c = 0") (simp_all add: DLoop dispatch_round_def split: option.split)
  next
    case (DAfter e c)
    then have "e \<in> set es" using o unfolding owner_inv_def by (metis runs.simps(4))
    then show ?thesis using linked_entry [OF m, of e]
      by (auto simp: DAfter dispatch_after_def Let_def split: option.split)
  qed (auto split: prod.split bool.split)
qed

definition keeps_pointers :: "list_links \<Rightarrow> veh_pc \<Rightarrow> list_links \<Rightarrow> bool" where
  "keeps_pointers h p h' \<longleftrightarrow>
     (\<forall>c. on_ring h c \<longrightarrow> unlinked p \<noteq> Some c \<longrightarrow> on_ring h' c) \<and>
     (\<forall>c. cursor p = Some c \<longrightarrow> on_ring h' c)"

lemma keeps_same: "(\<And>c. cursor p = Some c \<Longrightarrow> on_ring h c) \<Longrightarrow> keeps_pointers h p h"
  by (simp add: keeps_pointers_def)

lemma keeps_unlink:
  assumes "veh_inv s" and "on_ring (links (mem s)) e" and "e \<noteq> 0" and "unlinked p = Some e"
    and "\<And>c. cursor p = Some c \<Longrightarrow> c = Flink (links (mem s)) e"
  shows "keeps_pointers (links (mem s)) p (remove_list_entry e (links (mem s)))"
  using assms(4,5) on_ring_unlink [OF assms(1-3)] on_ring_succ [OF assms(1,2)]
  by (auto simp: keeps_pointers_def)

lemma keeps_add:
  assumes inv: "veh_inv s" and pc: "vpcs s t = ABody e first"
    and body: "veh_body ok (ABody e first) (mem s) = Some (Some (p, m'))"
  shows "keeps_pointers (links (mem s)) p (links m')"
proof -
  let ?h = "links (mem s)"
  obtain es where m: "mem_inv es s" and o: "owner_inv es s" and rg: "ring 0 ?h es"
    using veh_inv_ring [OF inv] .
  have "owner (vpcs s t) = Some e" using pc by (simp add: owner_def)
  then have "e \<notin> set es" "entries (mem s) e \<noteq> None" using owner_entry [OF o] by blast+
  then have "e \<notin> set (0 # es)" using entry_id [OF m, of e] by auto
  note ins = veh.rep_first [OF rg this] veh.rep_last [OF rg this]
  have "on_ring ?h c \<Longrightarrow> on_ring (insert_list_head 0 e ?h) c \<and> on_ring (insert_list_tail 0 e ?h) c" for c
    unfolding on_ring_iff [OF rg] on_ring_iff [OF ins(1)] on_ring_iff [OF ins(2)] by auto
  then show ?thesis using body by (auto simp: add_locked_def Let_def keeps_pointers_def split: if_splits)
qed

lemma keeps_remove:
  assumes inv: "veh_inv s" and body: "remove_locked h (mem s) = Some (found, v, m')"
  shows "keeps_pointers (links (mem s)) (RLeave v) (links m')"
proof -
  let ?h = "links (mem s)"
  obtain es where m: "mem_inv es s" and o: "owner_inv es s" and rg: "ring 0 ?h es"
    using veh_inv_ring [OF inv] .
  show ?thesis
  proof (cases "h \<in> set es \<and> (\<exists>en. entries (mem s) h = Some en \<and> \<not> Deleted en)")
    case False
    have "find_handler (mem s) h (Flink ?h 0) = Some False"
      unfolding find_handler_eq [OF m] using False by blast
    then show ?thesis using body by (auto simp: remove_locked_def intro: keeps_same)
  next
    case True
    then obtain en where en: "entries (mem s) h = Some en" by blast
    have yes: "find_handler (mem s) h (Flink ?h 0) = Some True"
      unfolding find_handler_eq [OF m] using True by blast
    have h: "on_ring ?h h" "h \<noteq> 0" using True on_ring_iff [OF rg] entry_id [OF m en] by auto
    have "links m' = remove_list_entry h ?h \<and> v = Some h \<or> links m' = ?h \<and> v = None"
      using body yes en by (auto simp: remove_locked_def Let_def set_entry_def split: if_splits)
    then show ?thesis using keeps_unlink [OF inv h, of "RLeave (Some h)"] by (auto intro!: keeps_same)
  qed
qed

lemma keeps_after:
  assumes inv: "veh_inv s" and pc: "vpcs s t = DAfter e c"
    and body: "veh_body ok (DAfter e c) (mem s) = Some (Some (p, m'))"
  shows "keeps_pointers (links (mem s)) p (links m')"
proof -
  let ?h = "links (mem s)"
  obtain es where m: "mem_inv es s" and o: "owner_inv es s" and rg: "ring 0 ?h es"
    using veh_inv_ring [OF inv] .
  have e: "e \<in> set es" using runs_linked [OF o, of e t] pc by simp
  obtain en where en: "entries (mem s) e = Some en" using linked_entry [OF m e] .
  have r: "on_ring ?h e" "e \<noteq> 0" using e on_ring_iff [OF rg] entry_id [OF m en] by auto
  show ?thesis
  proof (cases "References en = 1")
    case True
    then have l: "links m' = remove_list_entry e ?h" and p: "p = DFreeLeave e (Flink ?h e) c"
      using body en by (auto simp: dispatch_after_def Let_def set_entry_def)
    show ?thesis unfolding l p by (rule keeps_unlink [OF inv r]) simp_all
  next
    case False
    then have "links m' = ?h" "p = DDone True \<or> p = DLoop (Flink ?h e)"
      using body en by (auto simp: dispatch_after_def Let_def set_entry_def split: if_splits)
    then show ?thesis using on_ring_succ [OF inv r(1)] by (auto intro!: keeps_same)
  qed
qed

lemma keeps_body:
  assumes "careful_inv s" and body: "veh_body ok (vpcs s t) (mem s) = Some (Some (p, m'))"
  shows "keeps_pointers (links (mem s)) p (links m')"
proof -
  let ?h = "links (mem s)"
  have inv: "veh_inv s" using assms by (simp add: careful_inv_def)
  show ?thesis
  proof (cases "vpcs s t")
    case (ABody e first)
    then show ?thesis using keeps_add [OF inv, of t e first ok p m'] body by simp
  next
    case (RBody h)
    then show ?thesis using keeps_remove [OF inv] body by auto
  next
    case DStart
    then have "p = DLoop (Flink ?h 0)" "m' = mem s" using body by auto
    then show ?thesis using on_ring_succ [OF inv on_ring_head] by (auto intro!: keeps_same)
  next
    case (DLoop c)
    then have "cursor (vpcs s t) = Some c" by simp
    then have "on_ring ?h c" using assms(1) unfolding careful_inv_def by blast
    then have "on_ring ?h (Flink ?h c)" using on_ring_succ [OF inv] by blast
    then show ?thesis using body DLoop
      by (auto simp: dispatch_round_def set_entry_def intro!: keeps_same split: if_splits option.splits)
  next
    case (DAfter e c)
    then show ?thesis using keeps_after [OF inv, of t e c ok p m'] body by simp
  qed (use body in simp_all)
qed

text \<open>Steps outside the code under the lock leave the ring alone and save nothing new.\<close>

lemma other_step_pointers:
  assumes "veh_step t s s'" and "\<nexists>ok p m. veh_body ok (vpcs s t) (mem s) = Some (Some (p, m)) \<and>
      s' = s\<lparr>vpcs := (vpcs s)(t := p), mem := m\<rparr>"
  shows "links (mem s') = links (mem s) \<and>
    (\<forall>u. cursor (vpcs s' u) = cursor (vpcs s u) \<or> cursor (vpcs s' u) = None)"
  using assms(1)
proof (cases rule: veh_step.cases)
  case (body ok p m)
  then show ?thesis using assms(2) by blast
next
  case (enter p)
  then show ?thesis using veh_enter_same by simp
next
  case (leave p)
  then show ?thesis using veh_leave_same by simp
next
  case (free e p)
  then show ?thesis using veh_free_owner [OF free(3)] by (auto simp: set_entry_def)
qed (auto simp: set_entry_def)

lemma careful_inv_step:
  assumes "careful_step s s'" and inv: "careful_inv s"
  shows "careful_inv s'"
proof -
  obtain t where st: "veh_step t s s'"
    and care: "\<And>u e. u \<noteq> t \<Longrightarrow> unlinked (vpcs s' t) = Some e \<Longrightarrow> cursor (vpcs s u) \<noteq> Some e"
    using assms(1) by (auto simp: careful_step_def)
  have vi: "veh_inv s'" using veh_inv_step [OF st] inv by (simp add: careful_inv_def)
  have nc: "\<not> crashed s'"
    using st
  proof (cases rule: veh_step.cases)
    case (crash ok)
    then show ?thesis using careful_no_crash [OF inv] by blast
  qed simp_all
  have ptr: "cursor (vpcs s u) = Some c \<Longrightarrow> on_ring (links (mem s)) c" for u c
    using inv unfolding careful_inv_def by blast
  have "on_ring (links (mem s')) c" if c: "cursor (vpcs s' u) = Some c" for u c
  proof (cases "\<exists>ok p m. veh_body ok (vpcs s t) (mem s) = Some (Some (p, m)) \<and>
      s' = s\<lparr>vpcs := (vpcs s)(t := p), mem := m\<rparr>")
    case False
    then show ?thesis using other_step_pointers [OF st] ptr c by (metis option.distinct(1))
  next
    case True
    then obtain ok p m where body: "veh_body ok (vpcs s t) (mem s) = Some (Some (p, m))"
      and s': "s' = s\<lparr>vpcs := (vpcs s)(t := p), mem := m\<rparr>" by blast
    have k: "keeps_pointers (links (mem s)) p (links (mem s'))"
      using keeps_body [OF inv body] by (simp add: s')
    show ?thesis
    proof (cases "u = t")
      case True
      then show ?thesis using k c by (simp add: keeps_pointers_def s')
    next
      case False
      then have "cursor (vpcs s u) = Some c" using c by (simp add: s')
      moreover have "unlinked p \<noteq> Some c" using care [OF False, of c] calculation by (auto simp: s')
      ultimately show ?thesis using k ptr by (simp add: keeps_pointers_def)
    qed
  qed
  with vi nc show ?thesis by (simp add: careful_inv_def)
qed

lemma careful_inv_start: "careful_inv veh_start"
  using veh_inv_start by (simp add: careful_inv_def) (simp add: veh_start_def)

interpretation careful: inductive_invariant "\<lambda>s. s = veh_start" careful_step careful_inv
  by unfold_locales (auto simp: careful_inv_start intro: careful_inv_step)

text \<open>
  The saved \<open>current\<close> is the only hazard. In runs where no entry is unlinked while
  another dispatcher has it saved as \<open>current\<close>, no step ever follows a pointer to a freed
  entry, and every saved pointer stays on the ring.
\<close>

theorem veh_careful_runs_are_safe:
  assumes "reach (\<lambda>s. s = veh_start) careful_step s"
  shows "\<not> crashed s \<and> (\<forall>t c. cursor (vpcs s t) = Some c \<longrightarrow> on_ring (links (mem s)) c)"
  using careful.reach_inv [OF assms] by (simp add: careful_inv_def)

theorem veh_careful_runs_are_safe_witness:
  "\<exists>s. reach (\<lambda>s. s = veh_start) careful_step s \<and> vpcs s 0 = DEnter \<and> \<not> crashed s"
proof -
  let ?s = "veh_start\<lparr>vpcs := (vpcs veh_start)(0 := DEnter)\<rparr>"
  have "veh_step 0 veh_start ?s" by (rule veh_step.call) (auto simp: veh_start_def)
  then have "careful_step veh_start ?s"
    unfolding careful_step_def by (intro exI [of _ 0]) (auto simp: veh_start_def)
  then have r: "reach (\<lambda>s. s = veh_start) careful_step ?s"
    by (intro reach_step [OF reach_init]) auto
  from veh_careful_runs_are_safe [OF r] r show ?thesis by (intro exI [of _ ?s]) simp
qed

end
