(* ===== verification/Veh_Imports.thy ===== *)
theory Veh_Imports
  imports W2K_Prelude
begin

text \<open>
  The hook of \<open>ConvertStringSidToSidW\<close> in \<open>compat/w2k_veh.c\<close>: the import tables of a module are
  searched for the function, its entry is redirected to the bridge, and the bridge forwards to
  the function that the entry held. A module is its import descriptors, each the library it
  names and its entries (a name, or none for an import by ordinal) with the address each is bound
  to. Addresses are numbers; the address of the bridge is a parameter of the state. Whether
  \<open>VirtualProtect\<close> succeeds and what \<open>advapi32.dll\<close> exports are parameters.
\<close>

section \<open>Names\<close>

text \<open>A signed \<open>CHAR\<close> comparison selects the capital letters.\<close>

fun ascii_equal :: "string \<Rightarrow> string \<Rightarrow> bool" where
  "ascii_equal (a # left) (b # right) = (to_lower a = to_lower b \<and> ascii_equal left right)"
| "ascii_equal left right = (left = [] \<and> right = [])"

lemma ascii_equal_iff: "ascii_equal left right \<longleftrightarrow> map to_lower left = map to_lower right"
  by (induction left right rule: ascii_equal.induct) auto

definition is_everyone_sddl_alias :: "string option \<Rightarrow> bool" where
  "is_everyone_sddl_alias v \<longleftrightarrow> v = Some ''WD''"

section \<open>Import tables\<close>

record thunk =
  import_name :: "string option"
  bound_to :: nat

record import_descriptor =
  dll_name :: string
  has_names :: bool
  uses_rvas :: bool
  thunks :: "thunk list"

record pe_module =
  dos_ok :: bool
  nt_ok :: bool
  imports_of :: "import_descriptor list option"
  delay_imports_of :: "import_descriptor list option"

abbreviation wanted :: "thunk \<Rightarrow> bool" where
  "wanted th \<equiv> case import_name th of None \<Rightarrow> False | Some n \<Rightarrow> ascii_equal n ''ConvertStringSidToSidW''"

text \<open>
  The loop over the entries: the address the first wanted one was bound to, and the entries with
  that one redirected, if there is one.
\<close>

fun patch_thunks :: "nat \<Rightarrow> thunk list \<Rightarrow> (nat \<times> thunk list) option" where
  "patch_thunks hook [] = None"
| "patch_thunks hook (th # ths) =
     (if wanted th then Some (bound_to th, th\<lparr>bound_to := hook\<rparr> # ths)
      else map_option (\<lambda>(original, ths). (original, th # ths)) (patch_thunks hook ths))"

text \<open>The loops over the descriptors; the first one for the library decides.\<close>

fun patch_imports :: "nat \<Rightarrow> bool \<Rightarrow> import_descriptor list \<Rightarrow> nat option \<Rightarrow>
    bool \<times> import_descriptor list \<times> nat option" where
  "patch_imports hook protects [] orig = (False, [], orig)"
| "patch_imports hook protects (d # ds) orig =
     (if \<not> ascii_equal (dll_name d) ''ADVAPI32.dll'' then
        (let (ok, ds, orig) = patch_imports hook protects ds orig in (ok, d # ds, orig))
      else if \<not> has_names d then (False, d # ds, orig)
      else case patch_thunks hook (thunks d) of
        None \<Rightarrow> (False, d # ds, orig)
      | Some (bound, ths) \<Rightarrow>
          if \<not> protects then (False, d # ds, Some bound)
          else (True, d\<lparr>thunks := ths\<rparr> # ds, Some bound))"

fun patch_delay_imports :: "nat \<Rightarrow> bool \<Rightarrow> import_descriptor list \<Rightarrow> bool \<times> import_descriptor list" where
  "patch_delay_imports hook protects [] = (False, [])"
| "patch_delay_imports hook protects (d # ds) =
     (if \<not> uses_rvas d then (False, d # ds)
      else if \<not> ascii_equal (dll_name d) ''ADVAPI32.dll'' then
        (let (ok, ds) = patch_delay_imports hook protects ds in (ok, d # ds))
      else case patch_thunks hook (thunks d) of
        None \<Rightarrow> (False, d # ds)
      | Some (_, ths) \<Rightarrow> if \<not> protects then (False, d # ds) else (True, d\<lparr>thunks := ths\<rparr> # ds))"

definition patch_convert_string_sid_import ::
    "nat \<Rightarrow> bool \<Rightarrow> pe_module option \<Rightarrow> nat option \<Rightarrow> bool \<times> pe_module option \<times> nat option" where
  "patch_convert_string_sid_import hook protects m orig =
     (case m of
        None \<Rightarrow> (False, None, orig)
      | Some m \<Rightarrow>
          if \<not> dos_ok m \<or> \<not> nt_ok m then (False, Some m, orig)
          else case imports_of m of
            None \<Rightarrow> (False, Some m, orig)
          | Some ds \<Rightarrow>
              let (ok, ds, orig) = patch_imports hook protects ds orig in
                (ok, Some (m\<lparr>imports_of := Some ds\<rparr>), orig))"

definition patch_convert_string_sid_delay_import ::
    "nat \<Rightarrow> bool \<Rightarrow> pe_module option \<Rightarrow> bool \<times> pe_module option" where
  "patch_convert_string_sid_delay_import hook protects m =
     (case m of
        None \<Rightarrow> (False, None)
      | Some m \<Rightarrow>
          if \<not> dos_ok m \<or> \<not> nt_ok m then (False, Some m)
          else case delay_imports_of m of
            None \<Rightarrow> (False, Some m)
          | Some ds \<Rightarrow>
              let (ok, ds) = patch_delay_imports hook protects ds in
                (ok, Some (m\<lparr>delay_imports_of := Some ds\<rparr>)))"

section \<open>The library's state\<close>

record sid_hook =
  bridge :: nat
  main_module :: "pe_module option"
  chrome_module :: "pe_module option"
  g_original_convert :: "nat option"
  g_chrome_sid_hook_installed :: bool

text \<open>\<open>ensure_chrome_sid_hook\<close>, run at the start of the exported natives.\<close>

definition ensure_chrome_sid_hook :: "bool \<Rightarrow> sid_hook \<Rightarrow> sid_hook" where
  "ensure_chrome_sid_hook protects s =
     (if g_chrome_sid_hook_installed s then s
      else if chrome_module s = None then s
      else
        let (ok, chrome, orig) =
              patch_convert_string_sid_import (bridge s) protects (chrome_module s) (g_original_convert s);
            s = s\<lparr>chrome_module := chrome, g_original_convert := orig\<rparr> in
          if ok then s\<lparr>g_chrome_sid_hook_installed := True\<rparr>
          else
            let (ok, chrome) = patch_convert_string_sid_delay_import (bridge s) protects (chrome_module s);
                s = s\<lparr>chrome_module := chrome\<rparr> in
              if ok then s\<lparr>g_chrome_sid_hook_installed := True\<rparr> else s)"

text \<open>The part of \<open>DllMain\<close> at \<open>DLL_PROCESS_ATTACH\<close> that patches the modules.\<close>

definition attach_sid_hook :: "bool \<Rightarrow> sid_hook \<Rightarrow> sid_hook" where
  "attach_sid_hook protects s =
     (let (_, main, orig) =
            patch_convert_string_sid_import (bridge s) protects (main_module s) (g_original_convert s);
          (_, main) = patch_convert_string_sid_delay_import (bridge s) protects main;
          (_, chrome, orig) =
            patch_convert_string_sid_import (bridge s) protects (chrome_module s) orig;
          (_, chrome) = patch_convert_string_sid_delay_import (bridge s) protects chrome in
        s\<lparr>main_module := main, chrome_module := chrome, g_original_convert := orig\<rparr>)"

text \<open>
  The bridge: the native function is resolved when there is no original yet; calling the
  original runs the bridge again when that is its address. The functions at the other addresses
  are a parameter. The result is the SID (or failure) and the state; \<open>None\<close> when the call does
  not come back.
\<close>

partial_function (option) W2KConvertStringSidToSidW ::
    "(nat \<Rightarrow> string option \<Rightarrow> 'sid option) \<Rightarrow> nat option \<Rightarrow> string option \<Rightarrow> sid_hook \<Rightarrow>
     ('sid option \<times> sid_hook) option" where
  "W2KConvertStringSidToSidW natives advapi_export string_sid s =
     (let s = (if g_original_convert s = None then s\<lparr>g_original_convert := advapi_export\<rparr> else s) in
        case g_original_convert s of
          None \<Rightarrow> Some (None, s)
        | Some f \<Rightarrow>
            let string_sid = (if is_everyone_sddl_alias string_sid then Some ''S-1-1-0'' else string_sid) in
              if f = bridge s then W2KConvertStringSidToSidW natives advapi_export string_sid s
              else Some (natives f string_sid, s))"

section \<open>What patching does\<close>

text \<open>Only the first entry for the function changes, and it changes to the bridge.\<close>

lemma patch_thunks_some:
  assumes "patch_thunks hook ths = Some (a, ths')"
  shows "\<exists>before th after. ths = before @ th # after \<and> (\<forall>t\<in>set before. \<not> wanted t) \<and> wanted th \<and>
           a = bound_to th \<and> ths' = before @ th\<lparr>bound_to := hook\<rparr> # after"
  using assms
proof (induction ths arbitrary: ths')
  case (Cons th ths)
  show ?case
  proof (cases "wanted th")
    case True
    then show ?thesis using Cons.prems by (intro exI[of _ "[]"]) simp
  next
    case False
    then obtain ths2 where r: "patch_thunks hook ths = Some (a, ths2)" "ths' = th # ths2"
      using Cons.prems by auto
    from Cons.IH[OF r(1)] obtain before th2 after
      where "ths = before @ th2 # after" "\<forall>t\<in>set before. \<not> wanted t" "wanted th2"
        "a = bound_to th2" "ths2 = before @ th2\<lparr>bound_to := hook\<rparr> # after"
      by blast
    then show ?thesis using False r(2) by (intro exI[of _ "th # before"]) auto
  qed
qed simp

lemma patch_thunks_append:
  assumes "\<forall>t\<in>set before. \<not> wanted t" "wanted th"
  shows "patch_thunks hook (before @ th # after) = Some (bound_to th, before @ th\<lparr>bound_to := hook\<rparr> # after)"
  using assms by (induction before) auto

lemma wanted_bound_to [simp]: "wanted (th\<lparr>bound_to := a\<rparr>) = wanted th"
  by simp

text \<open>Patching twice takes the bridge for the original.\<close>

lemma patch_thunks_twice:
  assumes "patch_thunks hook ths = Some (a, ths')"
  shows "\<exists>ths''. patch_thunks hook2 ths' = Some (hook, ths'')"
proof -
  obtain before th after where "\<forall>t\<in>set before. \<not> wanted t" "wanted th"
    "ths' = before @ th\<lparr>bound_to := hook\<rparr> # after"
    using patch_thunks_some[OF assms] by blast
  then show ?thesis
    using patch_thunks_append[of before "th\<lparr>bound_to := hook\<rparr>" hook2 after] by simp
qed

lemma patch_imports_twice:
  assumes "patch_imports hook True ds orig = (True, ds', orig')"
  shows "\<exists>ds''. patch_imports hook True ds' orig2 = (True, ds'', Some hook)"
  using assms
proof (induction ds arbitrary: ds')
  case (Cons d ds)
  show ?case
  proof (cases "ascii_equal (dll_name d) ''ADVAPI32.dll''")
    case False
    then obtain r where "patch_imports hook True ds orig = (True, r, orig')" "ds' = d # r"
      using Cons.prems by (auto split: prod.splits)
    then show ?thesis using Cons.IH False by fastforce
  next
    case True
    then obtain bound ths where p: "has_names d" "patch_thunks hook (thunks d) = Some (bound, ths)"
      "ds' = d\<lparr>thunks := ths\<rparr> # ds"
      using Cons.prems by (auto split: if_splits option.splits)
    obtain ths2 where "patch_thunks hook ths = Some (hook, ths2)"
      using patch_thunks_twice[OF p(2)] by blast
    then show ?thesis using p True by simp
  qed
qed simp

lemma patch_imports_ok_independent:
  "fst (patch_imports hook protects ds orig) = fst (patch_imports hook protects ds orig2)"
  by (induction ds) (auto split: prod.splits option.splits)

lemma patch_static_twice:
  assumes "dos_ok m" "nt_ok m" "imports_of m = Some ds" "fst (patch_imports hook True ds orig)"
    "patch_convert_string_sid_import hook True (Some m) orig = (ok, m', orig')"
    "patch_convert_string_sid_delay_import hook True m' = (ok2, m'')"
  shows "\<exists>m2. m'' \<noteq> None \<and> patch_convert_string_sid_import hook True m'' orig2 = (True, m2, Some hook)"
proof -
  obtain ds' o' where p: "patch_imports hook True ds orig = (True, ds', o')"
    using assms(4) by (metis eq_fst_iff prod_cases3)
  have m': "m' = Some (m\<lparr>imports_of := Some ds'\<rparr>)"
    using assms(1-3,5) by (simp add: patch_convert_string_sid_import_def p)
  obtain m3 where m'': "m'' = Some m3" "dos_ok m3" "nt_ok m3" "imports_of m3 = Some ds'"
    using assms(1,2,6) by (auto simp: m' patch_convert_string_sid_delay_import_def split: option.splits prod.splits)
  obtain ds2 where "patch_imports hook True ds' orig2 = (True, ds2, Some hook)"
    using patch_imports_twice[OF p] by blast
  then show ?thesis using m'' by (simp add: patch_convert_string_sid_import_def)
qed

text \<open>A list of descriptors, and a module, that nothing has redirected yet.\<close>

definition untouched :: "nat \<Rightarrow> import_descriptor list \<Rightarrow> bool" where
  "untouched hook ds \<longleftrightarrow> (\<forall>d\<in>set ds. \<forall>th\<in>set (thunks d). bound_to th \<noteq> hook)"

definition untouched_module :: "nat \<Rightarrow> pe_module option \<Rightarrow> bool" where
  "untouched_module hook m \<longleftrightarrow>
     (case m of None \<Rightarrow> True | Some m \<Rightarrow> (case imports_of m of None \<Rightarrow> True | Some ds \<Rightarrow> untouched hook ds))"

lemma patch_thunks_original:
  assumes "patch_thunks hook ths = Some (a, ths')" "\<forall>th\<in>set ths. bound_to th \<noteq> hook"
  shows "a \<noteq> hook"
  using patch_thunks_some[OF assms(1)] assms(2) by auto

lemma patch_imports_untouched:
  assumes "untouched hook ds" "orig \<noteq> Some hook"
    "patch_imports hook protects ds orig = (ok, ds', orig')"
  shows "orig' \<noteq> Some hook \<and> (ok \<or> ds' = ds)"
  using assms
proof (induction ds arbitrary: ds')
  case (Cons d ds)
  have d: "\<forall>th\<in>set (thunks d). bound_to th \<noteq> hook" and ds: "untouched hook ds"
    using Cons.prems(1) by (auto simp: untouched_def)
  show ?case
  proof (cases "ascii_equal (dll_name d) ''ADVAPI32.dll''")
    case False
    then obtain r where "patch_imports hook protects ds orig = (ok, r, orig')" "ds' = d # r"
      using Cons.prems by (auto split: prod.splits)
    then show ?thesis using Cons.IH[OF ds Cons.prems(2)] by blast
  next
    case True
    then show ?thesis using Cons.prems patch_thunks_original[OF _ d]
      by (auto split: if_splits option.splits)
  qed
qed simp

lemma patch_static_untouched:
  assumes "untouched_module hook m" "orig \<noteq> Some hook"
    "patch_convert_string_sid_import hook protects m orig = (ok, m', orig')"
  shows "orig' \<noteq> Some hook \<and> (ok \<or> m' = m)"
proof (cases "\<exists>md ds. m = Some md \<and> dos_ok md \<and> nt_ok md \<and> imports_of md = Some ds")
  case True
  then obtain md ds where m: "m = Some md" "dos_ok md" "nt_ok md" "imports_of md = Some ds" by blast
  obtain ok2 ds2 orig2 where p: "patch_imports hook protects ds orig = (ok2, ds2, orig2)"
    by (metis prod_cases3)
  have "untouched hook ds" using assms(1) m by (simp add: untouched_module_def)
  from patch_imports_untouched[OF this assms(2) p] assms(3) show ?thesis
    by (auto simp: patch_convert_string_sid_import_def m p)
next
  case False
  then show ?thesis using assms(2,3)
    by (auto simp: patch_convert_string_sid_import_def split: option.splits if_splits)
qed

lemma patch_absent [simp]:
  "patch_convert_string_sid_import hook protects None orig = (False, None, orig)"
  "patch_convert_string_sid_delay_import hook protects None = (False, None)"
  by (simp_all add: patch_convert_string_sid_import_def patch_convert_string_sid_delay_import_def)

text \<open>Delay-load patching leaves the static import table as it is.\<close>

lemma patch_delay_untouched:
  assumes "patch_convert_string_sid_delay_import hook protects m = (ok, m')"
  shows "untouched_module hook m' = untouched_module hook m \<and> (m = None \<longleftrightarrow> m' = None)"
  using assms
  by (auto simp: patch_convert_string_sid_delay_import_def untouched_module_def
      split: option.splits if_splits prod.splits)

section \<open>The original function\<close>

text \<open>
  The state of a process in which the bridge works: the original is not the bridge, and if the
  browser library can still be patched its import table does not name the bridge.
\<close>

definition sid_ready :: "sid_hook \<Rightarrow> bool" where
  "sid_ready s \<longleftrightarrow> g_original_convert s \<noteq> Some (bridge s) \<and>
     (g_chrome_sid_hook_installed s \<or> untouched_module (bridge s) (chrome_module s))"

lemma attach_sid_ready:
  assumes "chrome_module s = None" "untouched_module (bridge s) (main_module s)"
    "g_original_convert s = None"
  shows "sid_ready (attach_sid_hook protects s)"
proof -
  obtain ok m orig where p:
    "patch_convert_string_sid_import (bridge s) protects (main_module s) (g_original_convert s) = (ok, m, orig)"
    by (metis prod_cases3)
  have "orig \<noteq> Some (bridge s)" using patch_static_untouched[OF assms(2) _ p] assms(3) by simp
  then show ?thesis
    by (simp add: attach_sid_hook_def sid_ready_def p assms(1) untouched_module_def split: prod.splits)
qed

lemma ensure_sid_ready:
  assumes "sid_ready s"
  shows "sid_ready (ensure_chrome_sid_hook protects s)"
proof (cases "g_chrome_sid_hook_installed s \<or> chrome_module s = None")
  case True
  then show ?thesis using assms by (auto simp: ensure_chrome_sid_hook_def)
next
  case False
  then have u: "untouched_module (bridge s) (chrome_module s)" "g_original_convert s \<noteq> Some (bridge s)"
    using assms by (auto simp: sid_ready_def)
  obtain ok m orig where p:
    "patch_convert_string_sid_import (bridge s) protects (chrome_module s) (g_original_convert s) = (ok, m, orig)"
    by (metis prod_cases3)
  obtain ok2 m2 where d: "patch_convert_string_sid_delay_import (bridge s) protects m = (ok2, m2)"
    by (metis surj_pair)
  show ?thesis
    using patch_static_untouched[OF u p] patch_delay_untouched[OF d] u(1) False
    by (auto simp: ensure_chrome_sid_hook_def p d sid_ready_def Let_def)
qed

lemma bridge_frame [simp]:
  "bridge (ensure_chrome_sid_hook protects s) = bridge s"
  "bridge (attach_sid_hook protects s) = bridge s"
  by (auto simp: ensure_chrome_sid_hook_def attach_sid_hook_def Let_def split: prod.splits)

definition sid_argument :: "string option \<Rightarrow> string option" where
  "sid_argument sid = (if sid = Some ''WD'' then Some ''S-1-1-0'' else sid)"

lemma convert_calls_original:
  assumes "g_original_convert s \<noteq> Some (bridge s)" "advapi_export = Some f" "f \<noteq> bridge s"
  shows "\<exists>g s'. W2KConvertStringSidToSidW natives advapi_export sid s = Some (natives g (sid_argument sid), s') \<and>
           g \<noteq> bridge s \<and> g_original_convert s' = Some g \<and> s' = s\<lparr>g_original_convert := Some g\<rparr> \<and>
           (g_original_convert s = Some g \<or> g_original_convert s = None \<and> g = f)"
  using assms
  by (cases "g_original_convert s")
    (auto simp: W2KConvertStringSidToSidW.simps[where natives = natives and string_sid = sid] sid_argument_def is_everyone_sddl_alias_def)

text \<open>When the original is the bridge, the call does not come back.\<close>

lemma convert_returns_only_if:
  assumes "W2KConvertStringSidToSidW natives advapi_export sid s = Some r"
  shows "g_original_convert s \<noteq> Some (bridge s)"
proof (rule W2KConvertStringSidToSidW.raw_induct[OF _ assms, where
      P = "\<lambda>natives advapi_export sid t r. g_original_convert t \<noteq> Some (bridge t)"])
  fix W :: "(nat \<Rightarrow> string option \<Rightarrow> 'a option) \<Rightarrow> nat option \<Rightarrow> string option \<Rightarrow> sid_hook \<Rightarrow>
    ('a option \<times> sid_hook) option" and n e sd t y
  assume ih: "\<And>n e sd t y. W n e sd t = Some y \<Longrightarrow> g_original_convert t \<noteq> Some (bridge t)"
    and body: "(let s = if g_original_convert t = None then t\<lparr>g_original_convert := e\<rparr> else t in
      case g_original_convert s of
        None \<Rightarrow> Some (None, s)
      | Some f \<Rightarrow>
          let string_sid = if is_everyone_sddl_alias sd then Some ''S-1-1-0'' else sd in
            if f = bridge s then W n e string_sid s else Some (n f string_sid, s)) = Some y"
  show "g_original_convert t \<noteq> Some (bridge t)"
  proof
    assume o: "g_original_convert t = Some (bridge t)"
    then have "W n e (if is_everyone_sddl_alias sd then Some ''S-1-1-0'' else sd) t = Some y"
      using body by (simp add: Let_def)
    from ih[OF this] o show False by blast
  qed
qed

section \<open>A process\<close>

text \<open>
  What happens in a process once the library has been attached: an exported function looks for
  the browser library, the browser library is mapped (by the loader, with the entries bound to
  the functions the libraries export, never to the bridge), or a SID is converted.
\<close>

inductive sid_step :: "(nat \<Rightarrow> string option \<Rightarrow> 'sid option) \<Rightarrow> nat option \<Rightarrow> sid_hook \<Rightarrow> sid_hook \<Rightarrow> bool"
  for natives advapi_export where
  sid_export: "sid_step natives advapi_export s (ensure_chrome_sid_hook protects s)"
| sid_load_chrome: "chrome_module s = None \<Longrightarrow> untouched_module (bridge s) (Some m) \<Longrightarrow>
    sid_step natives advapi_export s (s\<lparr>chrome_module := Some m\<rparr>)"
| sid_convert: "W2KConvertStringSidToSidW natives advapi_export sid s = Some (r, s') \<Longrightarrow>
    sid_step natives advapi_export s s'"

lemma sid_step_ready:
  assumes "sid_step natives advapi_export s s'" "sid_ready s" "advapi_export = Some f" "f \<noteq> bridge s"
  shows "sid_ready s' \<and> bridge s' = bridge s"
  using assms
proof (cases rule: sid_step.cases)
  case (sid_export protects)
  then show ?thesis using assms(2) by (simp add: ensure_sid_ready)
next
  case (sid_load_chrome m)
  then show ?thesis using assms(2) by (simp add: sid_ready_def)
next
  case (sid_convert sid r)
  have "g_original_convert s \<noteq> Some (bridge s)" using assms(2) by (simp add: sid_ready_def)
  from convert_calls_original[OF this assms(3,4), of natives sid] sid_convert assms(2)
  show ?thesis by (auto simp: sid_ready_def)
qed

lemma sid_steps_ready:
  assumes "(sid_step natives advapi_export)\<^sup>*\<^sup>* s s'" "sid_ready s" "advapi_export = Some f" "f \<noteq> bridge s"
  shows "sid_ready s' \<and> bridge s' = bridge s"
  using assms by (induction rule: rtranclp_induct) (metis sid_step_ready)+

text \<open>
  C9: When the browser library is not mapped yet at the time the compatibility library attaches,
  the bridge works at every later moment of the process: a conversion comes back, with the
  answer of a function that is not the bridge, and the two-letter alias for Everyone is converted
  as the numeric SID \<open>S-1-1-0\<close>, every other argument unchanged.
\<close>

theorem sid_conversion_returns:
  assumes "chrome_module s0 = None" "g_original_convert s0 = None"
    "untouched_module (bridge s0) (main_module s0)"
    "(sid_step natives (Some f))\<^sup>*\<^sup>* (attach_sid_hook protects s0) s" "f \<noteq> bridge s0"
  shows "\<exists>g s'. g \<noteq> bridge s \<and> g_original_convert s' = Some g \<and>
           W2KConvertStringSidToSidW natives (Some f) sid s =
             Some (natives g (if sid = Some ''WD'' then Some ''S-1-1-0'' else sid), s')"
proof -
  have "sid_ready (attach_sid_hook protects s0)" by (rule attach_sid_ready[OF assms(1,3,2)])
  from sid_steps_ready[OF assms(4) this refl] assms(5) have s: "sid_ready s" "bridge s = bridge s0" by auto
  then show ?thesis
    using convert_calls_original[of s "Some f" f natives sid] assms(5)
    by (auto simp: sid_ready_def sid_argument_def)
qed

text \<open>A process of that kind: the main program imports the function, the browser library too.\<close>

definition sample_module :: pe_module where
  "sample_module = \<lparr>dos_ok = True, nt_ok = True, imports_of = Some
     [\<lparr>dll_name = ''KERNEL32.dll'', has_names = True, uses_rvas = True, thunks = [\<lparr>import_name = None, bound_to = 50\<rparr>]\<rparr>,
      \<lparr>dll_name = ''advapi32.DLL'', has_names = True, uses_rvas = True,
       thunks = [\<lparr>import_name = Some ''RegCloseKey'', bound_to = 60\<rparr>,
                 \<lparr>import_name = Some ''ConvertStringSidToSidW'', bound_to = 70\<rparr>]\<rparr>],
     delay_imports_of = None\<rparr>"

definition sample_imports :: "import_descriptor list" where
  "sample_imports = the (imports_of sample_module)"

definition sample_process :: "pe_module option \<Rightarrow> sid_hook" where
  "sample_process chrome = \<lparr>bridge = 5, main_module = Some sample_module, chrome_module = chrome,
     g_original_convert = None, g_chrome_sid_hook_installed = False\<rparr>"

lemma sample_facts:
  "dos_ok sample_module" "nt_ok sample_module" "imports_of sample_module = Some sample_imports"
  "untouched_module 5 (Some sample_module)" "fst (patch_imports 5 True sample_imports None)"
proof -
  show "fst (patch_imports 5 True sample_imports None)" by code_simp
qed (simp_all add: sample_module_def sample_imports_def untouched_module_def untouched_def)

lemma sample_process_fields [simp]:
  "bridge (sample_process c) = 5" "main_module (sample_process c) = Some sample_module"
  "chrome_module (sample_process c) = c" "g_original_convert (sample_process c) = None"
  "\<not> g_chrome_sid_hook_installed (sample_process c)"
  by (simp_all add: sample_process_def)

theorem sid_conversion_returns_witness:
  "\<exists>g s'. g \<noteq> bridge (ensure_chrome_sid_hook True ((attach_sid_hook True (sample_process None))\<lparr>chrome_module := Some sample_module\<rparr>)) \<and>
     g_original_convert s' = Some g \<and>
     W2KConvertStringSidToSidW (\<lambda>a sid. if a = 70 then sid else None) (Some 70) (Some ''WD'')
       (ensure_chrome_sid_hook True ((attach_sid_hook True (sample_process None))\<lparr>chrome_module := Some sample_module\<rparr>))
       = Some ((if g = 70 then Some ''S-1-1-0'' else None), s')"
proof -
  let ?n = "\<lambda>a sid. if a = 70 then sid else None"
  let ?a = "attach_sid_hook True (sample_process None)"
  let ?b = "?a\<lparr>chrome_module := Some sample_module\<rparr>"
  have c: "chrome_module ?a = None" by (simp add: attach_sid_hook_def split: prod.splits)
  have "sid_step ?n (Some 70) ?a ?b"
    by (rule sid_load_chrome) (use c sample_facts(4) in simp_all)
  moreover have "sid_step ?n (Some 70) ?b (ensure_chrome_sid_hook True ?b)" by (rule sid_export)
  ultimately have r: "(sid_step ?n (Some 70))\<^sup>*\<^sup>* ?a (ensure_chrome_sid_hook True ?b)" by auto
  have "\<exists>g s'. g \<noteq> bridge (ensure_chrome_sid_hook True ?b) \<and> g_original_convert s' = Some g \<and>
      W2KConvertStringSidToSidW ?n (Some 70) (Some ''WD'') (ensure_chrome_sid_hook True ?b) =
        Some (?n g (if Some ''WD'' = Some ''WD'' then Some ''S-1-1-0'' else Some ''WD''), s')"
    by (rule sid_conversion_returns[OF _ _ _ r]) (use sample_facts(4) in simp_all)
  then show ?thesis by (simp only: if_True refl)
qed

text \<open>
  C33: When the browser library is mapped already at the time the compatibility library attaches
  and imports the function statically, the first exported function called afterwards patches it a
  second time: \<open>DllMain\<close> has not recorded its patch in \<open>g_chrome_sid_hook_installed\<close>. The original
  is then the bridge itself and no conversion comes back any more.
\<close>

theorem sid_bridge_calls_itself:
  assumes "chrome_module s = Some m" "dos_ok m" "nt_ok m" "imports_of m = Some ds"
    "fst (patch_imports (bridge s) True ds None)" "\<not> g_chrome_sid_hook_installed s"
  shows "W2KConvertStringSidToSidW natives advapi_export sid
           (ensure_chrome_sid_hook True (attach_sid_hook True s)) = None"
proof -
  let ?h = "bridge s"
  obtain a1 main1 orig1 where m1:
    "patch_convert_string_sid_import ?h True (main_module s) (g_original_convert s) = (a1, main1, orig1)"
    by (metis prod_cases3)
  obtain a2 main2 where m2: "patch_convert_string_sid_delay_import ?h True main1 = (a2, main2)"
    by (metis surj_pair)
  obtain a3 c3 orig3 where c3: "patch_convert_string_sid_import ?h True (Some m) orig1 = (a3, c3, orig3)"
    by (metis prod_cases3)
  obtain a4 c4 where c4: "patch_convert_string_sid_delay_import ?h True c3 = (a4, c4)"
    by (metis surj_pair)
  have "fst (patch_imports ?h True ds orig1)"
    using assms(5) patch_imports_ok_independent[of ?h True ds orig1 None] by simp
  from patch_static_twice[OF assms(2-4) this c3 c4, of orig3]
  obtain c5 where c5: "c4 \<noteq> None" "patch_convert_string_sid_import ?h True c4 orig3 = (True, c5, Some ?h)"
    by blast
  have "attach_sid_hook True s = s\<lparr>main_module := main2, chrome_module := c4, g_original_convert := orig3\<rparr>"
    by (simp add: attach_sid_hook_def m1 m2 assms(1) c3 c4)
  then have "g_original_convert (ensure_chrome_sid_hook True (attach_sid_hook True s)) = Some ?h"
    using c5 assms(6) by (auto simp: ensure_chrome_sid_hook_def)
  then show ?thesis
    using convert_returns_only_if[of natives advapi_export sid "ensure_chrome_sid_hook True (attach_sid_hook True s)"]
    by (metis bridge_frame not_Some_eq)
qed

theorem sid_bridge_calls_itself_witness:
  "W2KConvertStringSidToSidW (\<lambda>a sid. if a = 70 then sid else None) (Some 70) (Some ''WD'')
     (ensure_chrome_sid_hook True (attach_sid_hook True (sample_process (Some sample_module)))) = None"
  by (rule sid_bridge_calls_itself[OF _ sample_facts(1-3)]) (use sample_facts(5) in simp_all)

end
