(* ===== verification/Veh_Entry.thy ===== *)
theory Veh_Entry
  imports Veh_Imports Veh_Handlers
begin

text \<open>
  The exported functions of \<open>compat/w2k_veh.c\<close> and the hook of the exception dispatcher: the
  patch of \<open>KiUserExceptionDispatcher\<close> over a byte memory of 32-bit addresses, its removal when
  the library is unloaded, the handler exports as they run when nobody else holds the lock,
  the two versions of \<open>GetModuleHandleEx\<close>, and \<open>DllMain\<close>. Addresses in the memory of the process are
  words; heap blocks are named as in the theory of the handlers.
\<close>

section \<open>The patch of the dispatcher\<close>

abbreviation (input) "ERROR_NOT_SUPPORTED \<equiv> (50 :: u32)"
abbreviation (input) "ERROR_INVALID_PARAMETER \<equiv> (87 :: u32)"
abbreviation (input) "ERROR_MOD_NOT_FOUND \<equiv> (126 :: u32)"

type_synonym memory = "u32 \<Rightarrow> u8"

definition read_long :: "u32 \<Rightarrow> memory \<Rightarrow> u32" where
  "read_long a m = le32_decode [m a, m (a + 1), m (a + 2), m (a + 3)]"

definition write_long :: "u32 \<Rightarrow> u32 \<Rightarrow> memory \<Rightarrow> memory" where
  "write_long a w m =
     m(a := ucast w, a + 1 := ucast (drop_bit 8 w), a + 2 := ucast (drop_bit 16 w),
       a + 3 := ucast (drop_bit 24 w))"

record dispatch_hook =
  memory :: memory
  g_hook_installed :: bool
  g_dispatch_call_operand :: "u32 option"
  g_original_call_displacement :: u32
  g_original_dispatch :: u32
  hook_error :: u32

text \<open>
  The expected first bytes: \<open>mov ecx, [esp+4]\<close>, \<open>mov ebx, [esp]\<close>, \<open>push ecx\<close>, \<open>push ebx\<close>,
  \<open>call\<close>.
\<close>

definition dispatcher_prologue :: "u8 list" where
  "dispatcher_prologue = [0x8B, 0x4C, 0x24, 0x04, 0x8B, 0x1C, 0x24, 0x51, 0x53, 0xE8]"

text \<open>
  The arguments: the address of \<open>w2k_dispatch_exception\<close>, the address of
  \<open>KiUserExceptionDispatcher\<close>, if it is exported, and whether \<open>VirtualProtect\<close> succeeds.
\<close>

definition install_dispatch_hook_locked ::
    "u32 \<Rightarrow> u32 option \<Rightarrow> bool \<Rightarrow> dispatch_hook \<Rightarrow> bool \<times> dispatch_hook" where
  "install_dispatch_hook_locked w2k_dispatch dispatcher protects s =
     (if g_hook_installed s then (True, s)
      else case dispatcher of
        None \<Rightarrow> (False, s\<lparr>hook_error := ERROR_NOT_SUPPORTED\<rparr>)
      | Some d \<Rightarrow>
          if map (\<lambda>i. memory s (d + of_nat i)) [0..<10] \<noteq> dispatcher_prologue
          then (False, s\<lparr>hook_error := ERROR_NOT_SUPPORTED\<rparr>)
          else
            let operand = d + 10;
                displacement = read_long operand (memory s);
                s = s\<lparr>g_dispatch_call_operand := Some operand,
                      g_original_call_displacement := displacement,
                      g_original_dispatch := d + 14 + displacement\<rparr>;
                new_displacement = w2k_dispatch - (d + 14) in
              if \<not> protects then (False, s)
              else (True, s\<lparr>memory := write_long operand new_displacement (memory s),
                           g_hook_installed := True\<rparr>))"

text \<open>What \<open>DllMain\<close> does with the hook at \<open>DLL_PROCESS_DETACH\<close>.\<close>

definition detach_dispatch_hook :: "bool \<Rightarrow> bool \<Rightarrow> dispatch_hook \<Rightarrow> dispatch_hook" where
  "detach_dispatch_hook g_initialized protects s =
     (if \<not> g_initialized then s
      else case g_dispatch_call_operand s of
        None \<Rightarrow> s
      | Some operand \<Rightarrow>
          if g_hook_installed s \<and> protects
          then s\<lparr>memory := write_long operand (g_original_call_displacement s) (memory s)\<rparr>
          else s)"

text \<open>The function that stands in for \<open>RtlDispatchException\<close>.\<close>

definition w2k_dispatch_exception :: "bool \<Rightarrow> bool \<Rightarrow> bool" where
  "w2k_dispatch_exception handled_by_vectored native_answer =
     (if handled_by_vectored then True else native_answer)"

text \<open>Where the \<open>call\<close> in the dispatcher goes.\<close>

definition call_target :: "u32 \<Rightarrow> memory \<Rightarrow> u32" where
  "call_target d m = d + 14 + read_long (d + 10) m"

definition fresh_hook :: "memory \<Rightarrow> dispatch_hook" where
  "fresh_hook m = \<lparr>memory = m, g_hook_installed = False, g_dispatch_call_operand = None,
     g_original_call_displacement = 0, g_original_dispatch = 0, hook_error = 0\<rparr>"

lemma word_offsets_distinct [simp]:
  "(a :: u32) + 1 \<noteq> a" "a + 2 \<noteq> a" "a + 3 \<noteq> a" "a + 2 \<noteq> a + 1" "a + 3 \<noteq> a + 1" "a + 3 \<noteq> a + 2"
  "a \<noteq> a + 1" "a \<noteq> a + 2" "a \<noteq> a + 3" "a + 1 \<noteq> a + 2" "a + 1 \<noteq> a + 3" "a + 2 \<noteq> a + 3"
  by simp_all

lemma read_write_long [simp]: "read_long a (write_long a w m) = w"
  using le32_decode_encode [of w "[]"] by (simp add: read_long_def write_long_def le32_encode_def)

lemma write_long_twice [simp]: "write_long a w (write_long a v m) = write_long a w m"
  by (rule ext) (simp add: write_long_def)

lemma write_long_other: "x \<notin> {a, a + 1, a + 2, a + 3} \<Longrightarrow> write_long a w m x = m x"
  by (simp add: write_long_def)

lemma le32_encode_decode:
  "le32_encode (le32_decode [b0, b1, b2, b3]) = [b0, b1, b2, b3]"
proof -
  let ?w = "le32_decode [b0, b1, b2, b3]"
  have "ucast ?w = b0" "ucast (drop_bit 8 ?w) = b1" "ucast (drop_bit 16 ?w) = b2" "ucast (drop_bit 24 ?w) = b3"
    by ((rule bit_word_eqI, auto simp: le32_decode_def bit_simps dest: bit_imp_le_length)[1])+
  then show ?thesis by (simp add: le32_encode_def)
qed

lemma write_read_long [simp]: "write_long a (read_long a m) m = m"
proof (rule ext)
  fix x
  show "write_long a (read_long a m) m x = m x"
    using le32_encode_decode [of "m a" "m (a + 1)" "m (a + 2)" "m (a + 3)"]
    by (simp add: write_long_def read_long_def le32_encode_def)
qed

text \<open>Any number of attempts to install, each with its answer of \<open>VirtualProtect\<close>.\<close>

primrec installs :: "u32 \<Rightarrow> u32 \<Rightarrow> bool list \<Rightarrow> dispatch_hook \<Rightarrow> dispatch_hook" where
  "installs w d [] s = s"
| "installs w d (p # ps) s = installs w d ps (snd (install_dispatch_hook_locked w (Some d) p s))"

definition hook_inv :: "u32 \<Rightarrow> u32 \<Rightarrow> memory \<Rightarrow> dispatch_hook \<Rightarrow> bool" where
  "hook_inv w d m s \<longleftrightarrow>
     (if g_hook_installed s
      then g_dispatch_call_operand s = Some (d + 10) \<and> memory s = write_long (d + 10) (w - (d + 14)) m \<and>
           g_original_call_displacement s = read_long (d + 10) m \<and> g_original_dispatch s = call_target d m
      else memory s = m)"

lemma install_inv:
  "hook_inv w d m s \<Longrightarrow> hook_inv w d m (snd (install_dispatch_hook_locked w (Some d) p s))"
  by (auto simp: hook_inv_def install_dispatch_hook_locked_def call_target_def Let_def)

lemma installs_inv: "hook_inv w d m s \<Longrightarrow> hook_inv w d m (installs w d ps s)"
  by (induction ps arbitrary: s) (simp_all add: install_inv)

text \<open>Failing leaves the code of the process alone; succeeding means that the hook is installed.\<close>

lemma install_answer:
  assumes "install_dispatch_hook_locked w d p s = (ok, s')"
  shows "ok = g_hook_installed s'" "\<not> ok \<Longrightarrow> memory s' = memory s"
  using assms by (auto simp: install_dispatch_hook_locked_def Let_def split: option.splits if_splits)

text \<open>
  However often the hook is installed, and whichever attempts fail: once one has succeeded
  the dispatcher calls \<open>w2k_dispatch_exception\<close>, which can reach the function called before; as
  long as none has, the code is as it was; a successful detach puts back every byte; and no
  byte outside the operand of the call is ever changed.
\<close>

theorem dispatch_hook_roundtrip:
  "let s = installs w d ps (fresh_hook m) in
     (if g_hook_installed s
      then call_target d (memory s) = w \<and> g_original_dispatch s = call_target d m
      else memory s = m) \<and>
     memory (detach_dispatch_hook True True s) = m \<and>
     {a. memory s a \<noteq> m a} \<subseteq> {d + 10, d + 11, d + 12, d + 13}"
proof -
  let ?s = "installs w d ps (fresh_hook m)"
  have i: "hook_inv w d m ?s"
    by (rule installs_inv) (simp add: hook_inv_def fresh_hook_def)
  have "memory ?s a = m a" if "a \<notin> {d + 10, d + 11, d + 12, d + 13}" for a
  proof -
    have "write_long (d + 10) v m a = m a" for v
      by (rule write_long_other) (use that in \<open>simp add: add.commute\<close>)
    then show ?thesis using i by (auto simp: hook_inv_def split: if_splits)
  qed
  moreover have "(if g_hook_installed ?s
      then call_target d (memory ?s) = w \<and> g_original_dispatch ?s = call_target d m
      else memory ?s = m) \<and> memory (detach_dispatch_hook True True ?s) = m"
    using i by (auto simp: hook_inv_def call_target_def detach_dispatch_hook_def split: option.split if_splits)
  ultimately show ?thesis by (auto simp: Let_def)
qed

section \<open>Module handles\<close>

text \<open>
  What the system answers: the text a pointer points to, the base of the image an address lies
  in (\<open>VirtualQuery\<close>, with type \<open>MEM_IMAGE\<close>), the module of a name (no name: the program), its file,
  as much of it as the buffer holds, and the module a file is loaded as. The text type is a
  string of bytes or of UTF-16 units.
\<close>

record 'str module_api =
  text_at :: "nat \<Rightarrow> 'str"
  image_base :: "nat \<Rightarrow> nat option"
  GetModuleHandle :: "'str option \<Rightarrow> nat option"
  GetModuleFileName :: "nat \<Rightarrow> 'str option"
  LoadLibrary :: "'str \<Rightarrow> nat option"

text \<open>The state: the SID hook, the references taken with \<open>LoadLibrary\<close>, and the last error, when
  the function itself sets it.\<close>

record module_state =
  sid_state :: sid_hook
  references :: "nat list"
  module_error :: "u32 option"

abbreviation (input) "FLAG_PIN \<equiv> (1 :: u32)"
abbreviation (input) "FLAG_UNCHANGED_REFCOUNT \<equiv> (2 :: u32)"
abbreviation (input) "FLAG_FROM_ADDRESS \<equiv> (4 :: u32)"

definition W2KGetModuleHandleExA ::
    "string module_api \<Rightarrow> bool \<Rightarrow> u32 \<Rightarrow> nat \<Rightarrow> bool \<Rightarrow> module_state \<Rightarrow> nat option \<times> module_state" where
  "W2KGetModuleHandleExA api protects flags name has_out s =
     (let supported_flags = FLAG_PIN OR FLAG_UNCHANGED_REFCOUNT OR FLAG_FROM_ADDRESS;
          s = s\<lparr>sid_state := ensure_chrome_sid_hook protects (sid_state s)\<rparr> in
        if \<not> has_out \<or> flags AND NOT supported_flags \<noteq> 0 \<or>
           (flags AND FLAG_PIN \<noteq> 0 \<and> flags AND FLAG_UNCHANGED_REFCOUNT \<noteq> 0)
        then (None, s\<lparr>module_error := Some ERROR_INVALID_PARAMETER\<rparr>)
        else if flags AND FLAG_FROM_ADDRESS \<noteq> 0 \<and> (name = 0 \<or> image_base api name = None)
        then (None, s\<lparr>module_error := Some ERROR_MOD_NOT_FOUND\<rparr>)
        else case (if flags AND FLAG_FROM_ADDRESS \<noteq> 0 then image_base api name
                   else GetModuleHandle api (if name = 0 then None else Some (text_at api name))) of
          None \<Rightarrow> (None, s)
        | Some module \<Rightarrow>
            if flags AND FLAG_UNCHANGED_REFCOUNT \<noteq> 0 then (Some module, s)
            else case GetModuleFileName api module of
              None \<Rightarrow> (None, s)
            | Some path \<Rightarrow>
                (case LoadLibrary api path of
                   None \<Rightarrow> (None, s)
                 | Some loaded \<Rightarrow> (Some loaded, s\<lparr>references := loaded # references s\<rparr>)))"

definition W2KGetModuleHandleExW ::
    "u16 list module_api \<Rightarrow> bool \<Rightarrow> u32 \<Rightarrow> nat \<Rightarrow> bool \<Rightarrow> module_state \<Rightarrow> nat option \<times> module_state" where
  "W2KGetModuleHandleExW api protects flags name has_out s =
     (let supported_flags = FLAG_PIN OR FLAG_UNCHANGED_REFCOUNT OR FLAG_FROM_ADDRESS;
          s = s\<lparr>sid_state := ensure_chrome_sid_hook protects (sid_state s)\<rparr> in
        if \<not> has_out \<or> flags AND NOT supported_flags \<noteq> 0 \<or>
           (flags AND FLAG_PIN \<noteq> 0 \<and> flags AND FLAG_UNCHANGED_REFCOUNT \<noteq> 0)
        then (None, s\<lparr>module_error := Some ERROR_INVALID_PARAMETER\<rparr>)
        else if flags AND FLAG_FROM_ADDRESS \<noteq> 0 \<and> (name = 0 \<or> image_base api name = None)
        then (None, s\<lparr>module_error := Some ERROR_MOD_NOT_FOUND\<rparr>)
        else case (if flags AND FLAG_FROM_ADDRESS \<noteq> 0 then image_base api name
                   else GetModuleHandle api (if name = 0 then None else Some (text_at api name))) of
          None \<Rightarrow> (None, s)
        | Some module \<Rightarrow>
            if flags AND FLAG_UNCHANGED_REFCOUNT \<noteq> 0 then (Some module, s)
            else case GetModuleFileName api module of
              None \<Rightarrow> (None, s)
            | Some path \<Rightarrow>
                (case LoadLibrary api path of
                   None \<Rightarrow> (None, s)
                 | Some loaded \<Rightarrow> (Some loaded, s\<lparr>references := loaded # references s\<rparr>)))"

text \<open>What the function has to do, as one condition on the flags and the answers.\<close>

definition valid_flags :: "u32 \<Rightarrow> bool" where
  "valid_flags flags \<longleftrightarrow> flags \<in> {0, 1, 2, 4, 5, 6}"

definition module_found :: "'str module_api \<Rightarrow> u32 \<Rightarrow> nat \<Rightarrow> nat option" where
  "module_found api flags name =
     (if flags \<in> {4, 5, 6} then (if name = 0 then None else image_base api name)
      else GetModuleHandle api (if name = 0 then None else Some (text_at api name)))"

definition module_referenced :: "'str module_api \<Rightarrow> nat \<Rightarrow> nat option" where
  "module_referenced api m = Option.bind (GetModuleFileName api m) (LoadLibrary api)"

definition module_handle_spec ::
    "'str module_api \<Rightarrow> u32 \<Rightarrow> nat \<Rightarrow> bool \<Rightarrow> module_state \<Rightarrow> nat option \<times> module_state" where
  "module_handle_spec api flags name has_out s =
     (if \<not> has_out \<or> \<not> valid_flags flags then (None, s\<lparr>module_error := Some ERROR_INVALID_PARAMETER\<rparr>)
      else case module_found api flags name of
        None \<Rightarrow> (None, if flags \<in> {4, 5, 6} then s\<lparr>module_error := Some ERROR_MOD_NOT_FOUND\<rparr> else s)
      | Some m \<Rightarrow>
          if flags \<in> {2, 6} then (Some m, s)
          else (case module_referenced api m of
                  None \<Rightarrow> (None, s)
                | Some m \<Rightarrow> (Some m, s\<lparr>references := m # references s\<rparr>)))"

lemma below_eight: "(k :: nat) < 8 \<Longrightarrow> k = 0 \<or> k = 1 \<or> k = 2 \<or> k = 3 \<or> k = 4 \<or> k = 5 \<or> k = 6 \<or> k = 7"
  by presburger

lemma below_eight_word: "k < 8 \<Longrightarrow> word_of_nat k \<in> {0, 1, 2, 3, 4, 5, 6, 7 :: u32}"
  by (drule below_eight) auto

lemma low_three_bits:
  assumes "(flags :: u32) AND NOT 7 = 0"
  shows "flags \<in> {0, 1, 2, 3, 4, 5, 6, 7}"
proof -
  have seven: "(7 :: u32) = mask 3" by (simp add: mask_eq_exp_minus_1)
  have low: "take_bit 3 flags = flags"
  proof (rule bit_word_eqI)
    fix n assume n: "n < LENGTH(32)"
    have "\<not> bit (flags AND NOT 7) n" using assms by simp
    then show "bit (take_bit 3 flags) n = bit flags n"
      using n by (auto simp: seven bit_simps)
  qed
  have "unat (take_bit 3 flags) = take_bit 3 (unat flags)" by (simp add: unsigned_take_bit_eq)
  then have "unat flags < 8"
    unfolding low using take_bit_nat_less_exp [of 3 "unat flags"] by simp
  have "flags = word_of_nat (unat flags)" by simp
  moreover have "word_of_nat (unat flags) \<in> {0, 1, 2, 3, 4, 5, 6, 7 :: u32}"
    using \<open>unat flags < 8\<close> by (rule below_eight_word)
  ultimately show ?thesis by metis
qed

lemma flags_cases:
  obtains (unknown) "(flags :: u32) AND NOT 7 \<noteq> 0" "\<not> valid_flags flags"
  | (both) "flags \<in> {3, 7}" "\<not> valid_flags flags"
  | (valid) "flags \<in> {0, 1, 2, 4, 5, 6}"
proof (cases "flags AND NOT 7 = 0")
  case True
  then have "flags \<in> {0, 1, 2, 3, 4, 5, 6, 7}" by (rule low_three_bits)
  then have "flags \<in> {3, 7} \<or> flags \<in> {0, 1, 2, 4, 5, 6}" by blast
  then show ?thesis
  proof
    assume "flags \<in> {3, 7}"
    moreover from this have "\<not> valid_flags flags" by (auto simp: valid_flags_def)
    ultimately show ?thesis by (rule both)
  qed (rule valid)
next
  case False
  moreover from this have "\<not> valid_flags flags" by (auto simp: valid_flags_def)
  ultimately show ?thesis by (rule unknown)
qed

text \<open>
  Both versions of \<open>GetModuleHandleEx\<close> do what the documentation of the function asks: they refuse
  unknown flags, \<open>PIN\<close> together with \<open>UNCHANGED_REFCOUNT\<close> and a missing result pointer; they look
  the module up by address or by name; and they take exactly one reference, unless told not to
  or failing. \<open>PIN\<close> is no more than an ordinary reference.
\<close>

theorem module_handle_versions_meet_spec:
  "W2KGetModuleHandleExA apiA protects flags name has_out s =
     module_handle_spec apiA flags name has_out
       (s\<lparr>sid_state := ensure_chrome_sid_hook protects (sid_state s)\<rparr>) \<and>
   W2KGetModuleHandleExW apiW protects flags name has_out s =
     module_handle_spec apiW flags name has_out
       (s\<lparr>sid_state := ensure_chrome_sid_hook protects (sid_state s)\<rparr>)"
proof (cases rule: flags_cases [of flags])
  case unknown
  then show ?thesis by (simp add: W2KGetModuleHandleExA_def W2KGetModuleHandleExW_def module_handle_spec_def)
next
  case both
  then show ?thesis
    by (auto simp: W2KGetModuleHandleExA_def W2KGetModuleHandleExW_def module_handle_spec_def)
next
  case valid
  then show ?thesis
    by (elim insertE emptyE) (simp_all add: W2KGetModuleHandleExA_def W2KGetModuleHandleExW_def
        module_handle_spec_def valid_flags_def module_found_def module_referenced_def
        split: option.split Option.bind_split)
qed

section \<open>The handler exports\<close>

text \<open>
  The whole state of the library in a process, and the exports from entry to return when no
  other thread holds the lock. The block is the answer of \<open>HeapAlloc\<close>; address 0 is a null pointer.
\<close>

record veh_process =
  sid_part :: sid_hook
  dispatch_part :: dispatch_hook
  heap_part :: veh_mem
  veh_error :: "u32 option"

definition W2KAddVectoredExceptionHandler ::
    "bool \<Rightarrow> bool \<Rightarrow> u32 \<Rightarrow> u32 option \<Rightarrow> nat option \<Rightarrow> bool \<Rightarrow> nat \<Rightarrow> veh_process \<Rightarrow> nat \<times> veh_process" where
  "W2KAddVectoredExceptionHandler sid_protects protects w2k_dispatch dispatcher block first_handler handler p =
     (let p = p\<lparr>sid_part := ensure_chrome_sid_hook sid_protects (sid_part p)\<rparr> in
        if handler = 0 then (0, p\<lparr>veh_error := Some ERROR_INVALID_PARAMETER\<rparr>)
        else case block of
          None \<Rightarrow> (0, p)
        | Some entry \<Rightarrow>
            let m = set_entry entry (Some \<lparr>Handler = handler, References = 1, Deleted = False\<rparr>) (heap_part p);
                (installed, hook) =
                  install_dispatch_hook_locked w2k_dispatch dispatcher protects (dispatch_part p);
                (added, m) = add_locked installed first_handler entry m in
              if \<not> added then (0, p\<lparr>dispatch_part := hook, heap_part := set_entry entry None m\<rparr>)
              else (entry, p\<lparr>dispatch_part := hook, heap_part := m\<rparr>))"

definition W2KRemoveVectoredExceptionHandler :: "bool \<Rightarrow> nat \<Rightarrow> veh_process \<Rightarrow> (bool \<times> veh_process) option" where
  "W2KRemoveVectoredExceptionHandler sid_protects handle p =
     (let p = p\<lparr>sid_part := ensure_chrome_sid_hook sid_protects (sid_part p)\<rparr> in
        if handle = 0 then Some (False, p)
        else map_option (\<lambda>(found, free_entry, m).
               (found, p\<lparr>heap_part := (case free_entry of None \<Rightarrow> m | Some e \<Rightarrow> set_entry e None m)\<rparr>))
             (remove_locked handle (heap_part p)))"

text \<open>The states of the library and of the interleaved system that belong together.\<close>

definition coupled :: "veh_process \<Rightarrow> veh_sys \<Rightarrow> bool" where
  "coupled p s \<longleftrightarrow> heap_part p = mem s \<and> hook_installed (mem s) = g_hook_installed (dispatch_part p) \<and>
     g_lock s = None \<and> \<not> crashed s"

lemma veh_step_then: "veh_step t s s' \<Longrightarrow> (veh_step t)\<^sup>*\<^sup>* s' s'' \<Longrightarrow> (veh_step t)\<^sup>*\<^sup>* s s''"
  by (rule converse_rtranclp_into_rtranclp)

lemma add_run:
  assumes "\<not> crashed s" "g_lock s = None" "vpcs s t = VIdle" "h \<noteq> 0"
    "add_locked ok first (next_block s)
       (set_entry (next_block s) (Some \<lparr>Handler = h, References = 1, Deleted = False\<rparr>) (mem s)) = (added, m)"
  shows "(veh_step t)\<^sup>*\<^sup>* s (s\<lparr>next_block := Suc (next_block s),
           mem := (if added then m else set_entry (next_block s) None m)\<rparr>)"
proof -
  let ?e = "next_block s"
  let ?m = "set_entry ?e (Some \<lparr>Handler = h, References = 1, Deleted = False\<rparr>) (mem s)"
  let ?s1 = "s\<lparr>vpcs := (vpcs s)(t := AEnter ?e first), next_block := Suc ?e, mem := ?m\<rparr>"
  let ?s2 = "?s1\<lparr>vpcs := (vpcs ?s1)(t := ABody ?e first), g_lock := Some t\<rparr>"
  have 1: "veh_step t s ?s1" by (rule alloc) (use assms in simp_all)
  have 2: "veh_step t ?s1 ?s2" by (rule enter) (use assms in simp_all)
  show ?thesis
  proof (cases added)
    case True
    let ?s3 = "?s2\<lparr>vpcs := (vpcs ?s2)(t := ALeave), mem := m\<rparr>"
    let ?s4 = "?s3\<lparr>vpcs := (vpcs ?s3)(t := VIdle), g_lock := None\<rparr>"
    have "veh_step t ?s2 ?s3" by (rule body [where ok = ok]) (use assms True in simp_all)
    moreover have "veh_step t ?s3 ?s4" by (rule leave) (use assms in simp_all)
    ultimately have "(veh_step t)\<^sup>*\<^sup>* s ?s4" by (intro veh_step_then [OF 1] veh_step_then [OF 2]) simp
    moreover have "?s4 = s\<lparr>next_block := Suc ?e, mem := m\<rparr>" using assms by (simp add: fun_upd_idem)
    ultimately show ?thesis using True by simp
  next
    case False
    let ?s3 = "?s2\<lparr>vpcs := (vpcs ?s2)(t := AFail ?e), mem := m\<rparr>"
    let ?s4 = "?s3\<lparr>vpcs := (vpcs ?s3)(t := AFree ?e), g_lock := None\<rparr>"
    let ?s5 = "?s4\<lparr>vpcs := (vpcs ?s4)(t := VIdle), mem := set_entry ?e None (mem ?s4)\<rparr>"
    have 3: "veh_step t ?s2 ?s3" by (rule body [where ok = ok]) (use assms False in simp_all)
    have 4: "veh_step t ?s3 ?s4" by (rule leave) (use assms in simp_all)
    have "veh_step t ?s4 ?s5" by (rule free) (use assms in simp_all)
    then have "(veh_step t)\<^sup>*\<^sup>* s ?s5"
      by (intro veh_step_then [OF 1] veh_step_then [OF 2] veh_step_then [OF 3] veh_step_then [OF 4]) simp
    moreover have "?s5 = s\<lparr>next_block := Suc ?e, mem := set_entry ?e None m\<rparr>"
      using assms by (simp add: fun_upd_idem)
    ultimately show ?thesis using False by simp
  qed
qed

lemma remove_run:
  assumes "\<not> crashed s" "g_lock s = None" "vpcs s t = VIdle" "h \<noteq> 0"
    "remove_locked h (mem s) = Some (found, victim, m)"
  shows "(veh_step t)\<^sup>*\<^sup>* s (s\<lparr>mem := (case victim of None \<Rightarrow> m | Some e \<Rightarrow> set_entry e None m)\<rparr>)"
proof -
  let ?s1 = "s\<lparr>vpcs := (vpcs s)(t := REnter h)\<rparr>"
  let ?s2 = "?s1\<lparr>vpcs := (vpcs ?s1)(t := RBody h), g_lock := Some t\<rparr>"
  let ?s3 = "?s2\<lparr>vpcs := (vpcs ?s2)(t := RLeave victim), mem := m\<rparr>"
  have 1: "veh_step t s ?s1" by (rule call) (use assms in simp_all)
  have 2: "veh_step t ?s1 ?s2" by (rule enter) (use assms in simp_all)
  have 3: "veh_step t ?s2 ?s3" by (rule body [where ok = True]) (use assms in simp_all)
  show ?thesis
  proof (cases victim)
    case None
    let ?s4 = "?s3\<lparr>vpcs := (vpcs ?s3)(t := VIdle), g_lock := None\<rparr>"
    have "veh_step t ?s3 ?s4" by (rule leave) (use assms None in simp_all)
    then have "(veh_step t)\<^sup>*\<^sup>* s ?s4"
      by (intro veh_step_then [OF 1] veh_step_then [OF 2] veh_step_then [OF 3]) simp
    moreover have "?s4 = s\<lparr>mem := m\<rparr>" using assms by (simp add: fun_upd_idem)
    ultimately show ?thesis using None by simp
  next
    case (Some e)
    let ?s4 = "?s3\<lparr>vpcs := (vpcs ?s3)(t := RFree e), g_lock := None\<rparr>"
    let ?s5 = "?s4\<lparr>vpcs := (vpcs ?s4)(t := VIdle), mem := set_entry e None (mem ?s4)\<rparr>"
    have 4: "veh_step t ?s3 ?s4" by (rule leave) (use assms Some in simp_all)
    have "veh_step t ?s4 ?s5" by (rule free) (use assms in simp_all)
    then have "(veh_step t)\<^sup>*\<^sup>* s ?s5"
      by (intro veh_step_then [OF 1] veh_step_then [OF 2] veh_step_then [OF 3] veh_step_then [OF 4]) simp
    moreover have "?s5 = s\<lparr>mem := set_entry e None m\<rparr>" using assms by (simp add: fun_upd_idem)
    ultimately show ?thesis using Some by simp
  qed
qed

text \<open>
  An export called while the lock is free is a run of the interleaved system by the calling
  thread alone, and leaves the library in the state that belongs to its end; so whatever holds in
  every reachable state holds around the real exports. Adding returns the entry exactly when the
  dispatcher is hooked, and removing never follows a pointer to a freed entry.
\<close>

theorem handler_exports_refine_steps:
  assumes "coupled p s" "vpcs s t = VIdle" "veh_reachable s" "handler \<noteq> 0" "handle \<noteq> 0"
  shows "\<exists>r p1 found p2.
    W2KAddVectoredExceptionHandler sp pr w d (Some (next_block s)) first handler p = (r, p1) \<and>
    (veh_step t)\<^sup>*\<^sup>* s (s\<lparr>next_block := Suc (next_block s), mem := heap_part p1\<rparr>) \<and>
    coupled p1 (s\<lparr>next_block := Suc (next_block s), mem := heap_part p1\<rparr>) \<and>
    r = (if fst (install_dispatch_hook_locked w d pr (dispatch_part p)) then next_block s else 0) \<and>
    W2KRemoveVectoredExceptionHandler sp handle p = Some (found, p2) \<and>
    (veh_step t)\<^sup>*\<^sup>* s (s\<lparr>mem := heap_part p2\<rparr>) \<and> coupled p2 (s\<lparr>mem := heap_part p2\<rparr>)"
proof -
  have c: "heap_part p = mem s" "hook_installed (mem s) = g_hook_installed (dispatch_part p)"
    "g_lock s = None" "\<not> crashed s"
    using assms(1) by (simp_all add: coupled_def)
  let ?m = "set_entry (next_block s) (Some \<lparr>Handler = handler, References = 1, Deleted = False\<rparr>) (mem s)"
  obtain ok hook where i: "install_dispatch_hook_locked w d pr (dispatch_part p) = (ok, hook)"
    by (metis surj_pair)
  obtain added m where a: "add_locked ok first (next_block s) ?m = (added, m)" by (metis surj_pair)
  have same: "added = ok" "hook_installed m = g_hook_installed hook"
    using a i c(2) install_answer(1) [OF i]
    by (auto simp: add_locked_def set_entry_def Let_def install_dispatch_hook_locked_def split: if_splits)
  obtain found victim m2 where r: "remove_locked handle (mem s) = Some (found, victim, m2)"
    using remove_locked_reachable [OF assms(3), of handle] by (elim exE conjE)
  have m2: "hook_installed m2 = hook_installed (mem s)"
    using r by (auto simp: remove_locked_def Let_def set_entry_def split: option.splits bool.splits if_splits)
  let ?p = "p\<lparr>sid_part := ensure_chrome_sid_hook sp (sid_part p)\<rparr>"
  let ?m1 = "if added then m else set_entry (next_block s) None m"
  let ?m2 = "case victim of None \<Rightarrow> m2 | Some e \<Rightarrow> set_entry e None m2"
  have add: "W2KAddVectoredExceptionHandler sp pr w d (Some (next_block s)) first handler p =
      (if ok then next_block s else 0, ?p\<lparr>dispatch_part := hook, heap_part := ?m1\<rparr>)"
    using assms(4) by (simp add: W2KAddVectoredExceptionHandler_def c(1) i a same(1))
  have remove: "W2KRemoveVectoredExceptionHandler sp handle p = Some (found, ?p\<lparr>heap_part := ?m2\<rparr>)"
    using assms(5) by (simp add: W2KRemoveVectoredExceptionHandler_def c(1) r)
  have "hook_installed ?m1 = g_hook_installed hook" "hook_installed ?m2 = hook_installed (mem s)"
    using same(2) m2 by (simp_all add: set_entry_def split: option.split)
  then show ?thesis
    using add_run [OF c(4,3) assms(2,4) a] remove_run [OF c(4,3) assms(2,5) r] c(2-4)
    by (simp add: add remove coupled_def i)
qed

theorem handler_exports_refine_steps_witness:
  "\<exists>r p1 found p2.
    W2KAddVectoredExceptionHandler True True 4096 None (Some (next_block veh_start)) True 7
      \<lparr>sid_part = sample_process None, dispatch_part = fresh_hook (\<lambda>_. 0), heap_part = mem veh_start,
       veh_error = None\<rparr> = (r, p1) \<and>
    (veh_step 3)\<^sup>*\<^sup>* veh_start (veh_start\<lparr>next_block := Suc (next_block veh_start), mem := heap_part p1\<rparr>) \<and>
    coupled p1 (veh_start\<lparr>next_block := Suc (next_block veh_start), mem := heap_part p1\<rparr>) \<and>
    r = (if fst (install_dispatch_hook_locked 4096 None True (fresh_hook (\<lambda>_. 0))) then next_block veh_start else 0) \<and>
    W2KRemoveVectoredExceptionHandler True 9
      \<lparr>sid_part = sample_process None, dispatch_part = fresh_hook (\<lambda>_. 0), heap_part = mem veh_start,
       veh_error = None\<rparr> = Some (found, p2) \<and>
    (veh_step 3)\<^sup>*\<^sup>* veh_start (veh_start\<lparr>mem := heap_part p2\<rparr>) \<and> coupled p2 (veh_start\<lparr>mem := heap_part p2\<rparr>)"
  using handler_exports_refine_steps
    [of "\<lparr>sid_part = sample_process None, dispatch_part = fresh_hook (\<lambda>_. 0), heap_part = mem veh_start,
       veh_error = None\<rparr>" veh_start 3 7 9 True True 4096 None True]
  by (simp add: coupled_def fresh_hook_def veh_start_def reach_init)

section \<open>Loading and unloading\<close>

text \<open>
  \<open>DllMain\<close>: attaching makes the lock and the empty ring and patches the modules that are there;
  detaching takes the hook out and deletes the lock. Other reasons do nothing.
\<close>

record veh_library =
  process :: veh_process
  g_initialized :: bool
  lock_exists :: bool

definition veh_DllMain :: "bool \<Rightarrow> bool \<Rightarrow> u32 \<Rightarrow> veh_library \<Rightarrow> veh_library" where
  "veh_DllMain sid_protects protects reason lib =
     (if reason = 1 then
        lib\<lparr>process := (process lib)
              \<lparr>heap_part := (heap_part (process lib))
                 \<lparr>links := set_blink 0 0 (set_flink 0 0 (links (heap_part (process lib))))\<rparr>,
               sid_part := attach_sid_hook sid_protects (sid_part (process lib))\<rparr>,
            g_initialized := True, lock_exists := True\<rparr>
      else if reason = 0 \<and> g_initialized lib then
        lib\<lparr>process := (process lib)
              \<lparr>dispatch_part := detach_dispatch_hook True protects (dispatch_part (process lib))\<rparr>,
            lock_exists := False\<rparr>
      else lib)"

text \<open>The library as it is mapped, over the code of the process, before \<open>DllMain\<close> runs.\<close>

definition mapped_library :: "memory \<Rightarrow> sid_hook \<Rightarrow> veh_library" where
  "mapped_library m sid =
     \<lparr>process = \<lparr>sid_part = sid, dispatch_part = fresh_hook m,
        heap_part = \<lparr>links = \<lparr>Flink = \<lambda>_. 0, Blink = \<lambda>_. 0\<rparr>, entries = \<lambda>_. None, hook_installed = False\<rparr>,
        veh_error = None\<rparr>,
      g_initialized = False, lock_exists = False\<rparr>"

text \<open>Calls of the exports, one after the other, with the answers of the system in each.\<close>

datatype veh_call = AddCall bool bool "nat option" bool nat | RemoveCall bool nat

fun run_call :: "u32 \<Rightarrow> u32 \<Rightarrow> veh_call \<Rightarrow> veh_process \<Rightarrow> veh_process option" where
  "run_call w d (AddCall sid_protects protects block first_handler handler) p =
     Some (snd (W2KAddVectoredExceptionHandler sid_protects protects w (Some d) block first_handler handler p))"
| "run_call w d (RemoveCall sid_protects handle) p =
     map_option snd (W2KRemoveVectoredExceptionHandler sid_protects handle p)"

fun run_calls :: "u32 \<Rightarrow> u32 \<Rightarrow> veh_call list \<Rightarrow> veh_process \<Rightarrow> veh_process option" where
  "run_calls w d [] p = Some p"
| "run_calls w d (c # cs) p = Option.bind (run_call w d c p) (run_calls w d cs)"

lemma run_call_inv:
  assumes "run_call w d c p = Some p'" and "hook_inv w d m (dispatch_part p)"
  shows "hook_inv w d m (dispatch_part p')"
proof (cases c)
  case (AddCall sp pr block first h)
  then show ?thesis using assms install_inv [OF assms(2), of pr]
    by (cases block) (auto simp: W2KAddVectoredExceptionHandler_def Let_def case_prod_beta split: if_splits)
next
  case (RemoveCall sp h)
  then show ?thesis using assms
    by (auto simp: W2KRemoveVectoredExceptionHandler_def Let_def split: if_splits)
qed

lemma run_calls_inv:
  "run_calls w d cs p = Some p' \<Longrightarrow> hook_inv w d m (dispatch_part p) \<Longrightarrow> hook_inv w d m (dispatch_part p')"
  by (induction cs arbitrary: p) (auto simp: bind_eq_Some_conv dest: run_call_inv)

text \<open>
  Attaching leaves the library in the state its interleaved system starts from, so that whatever holds
  in every state reachable from there holds of the loaded library.
\<close>

theorem attach_starts_system:
  "coupled (process (veh_DllMain sid_protects protects 1 (mapped_library m sid))) veh_start \<and>
   lock_exists (veh_DllMain sid_protects protects 1 (mapped_library m sid))"
  by (simp add: veh_DllMain_def mapped_library_def coupled_def veh_start_def empty_ring_def fresh_hook_def)



end
