(* ===== verification/Wts_Bridge.thy ===== *)
theory Wts_Bridge
  imports W2K_Prelude
begin

text \<open>
  The bridge to the terminal services library (\<open>compat/w2k_wts.c\<close>): the library of the system directory is
  loaded on first use and its two functions are looked up on first use; session notifications are accepted
  and never sent. Modules and functions are numbers; the system directory, what loads and what is
  exported, and what the native functions do are parameters.
\<close>

abbreviation (input) "ERROR_SUCCESS \<equiv> (0 :: u32)"
abbreviation (input) "ERROR_INVALID_PARAMETER \<equiv> (87 :: u32)"
abbreviation (input) "ERROR_CALL_NOT_IMPLEMENTED \<equiv> (120 :: u32)"
abbreviation (input) "ERROR_INSUFFICIENT_BUFFER \<equiv> (122 :: u32)"

section \<open>The bridge\<close>

record wts_api =
  system_directory :: "string option"
  load_library :: "string \<Rightarrow> nat option"
  get_proc_address :: "nat \<Rightarrow> string \<Rightarrow> nat option"

text \<open>The last two fields record the libraries asked for and the calls of the native free function.\<close>

record wts_state =
  g_system_wts :: "nat option"
  g_query_session_information_w :: "nat option"
  g_free_memory :: "nat option"
  wts_error :: u32
  wts_loads :: "string list"
  wts_freed :: "(nat \<times> nat) list"

definition wts_start :: wts_state where
  "wts_start = \<lparr>g_system_wts = None, g_query_session_information_w = None, g_free_memory = None,
     wts_error = 0, wts_loads = [], wts_freed = []\<rparr>"

text \<open>\<open>GetSystemDirectoryA\<close> answers the length it has or would need; the size of the suffix counts its NUL.\<close>

definition wts_suffix :: string where
  "wts_suffix = CHR 0x5C # ''WTSAPI32.dll''"

definition load_system_wts :: "wts_api \<Rightarrow> wts_state \<Rightarrow> nat option \<times> wts_state" where
  "load_system_wts api s =
     (case g_system_wts s of
        Some m \<Rightarrow> (Some m, s)
      | None \<Rightarrow>
          (let directory = (case system_directory api of None \<Rightarrow> '''' | Some d \<Rightarrow> d) in
             if directory = '''' \<or> length directory + (length wts_suffix + 1) > MAX_PATH
             then (None, s\<lparr>wts_error := ERROR_INSUFFICIENT_BUFFER\<rparr>)
             else
               let path = directory @ wts_suffix; module = load_library api path in
                 (module, s\<lparr>g_system_wts := module, wts_loads := path # wts_loads s\<rparr>)))"

definition resolve_system_wts :: "wts_api \<Rightarrow> string \<Rightarrow> wts_state \<Rightarrow> nat option \<times> wts_state" where
  "resolve_system_wts api name s =
     (case load_system_wts api s of
        (None, s) \<Rightarrow> (None, s)
      | (Some module, s) \<Rightarrow> (get_proc_address api module name, s))"

text \<open>
  The answer: the result, and what the buffer and the length pointer receive, where they are given. The
  native function answers the same three.
\<close>

definition WTSQuerySessionInformationW ::
    "wts_api \<Rightarrow> (nat \<Rightarrow> bool \<times> nat \<times> u32) \<Rightarrow> bool \<Rightarrow> bool \<Rightarrow> wts_state \<Rightarrow>
     (bool \<times> nat option \<times> u32 option) \<times> wts_state" where
  "WTSQuerySessionInformationW api native buffer bytes_returned s =
     (let out = (if buffer then Some 0 else None, if bytes_returned then Some 0 else None) in
        if \<not> buffer \<or> \<not> bytes_returned
        then ((False, out), s\<lparr>wts_error := ERROR_INVALID_PARAMETER\<rparr>)
        else
          let s = (if g_query_session_information_w s \<noteq> None then s
                   else case resolve_system_wts api ''WTSQuerySessionInformationW'' s of
                     (f, s) \<Rightarrow> s\<lparr>g_query_session_information_w := f\<rparr>) in
            case g_query_session_information_w s of
              None \<Rightarrow> ((False, out), s\<lparr>wts_error := ERROR_CALL_NOT_IMPLEMENTED\<rparr>)
            | Some f \<Rightarrow> (case native f of (ok, b, n) \<Rightarrow> ((ok, Some b, Some n), s)))"

definition WTSFreeMemory :: "wts_api \<Rightarrow> nat \<Rightarrow> wts_state \<Rightarrow> wts_state" where
  "WTSFreeMemory api memory s =
     (if memory = 0 then s
      else
        let s = (if g_free_memory s \<noteq> None then s
                 else case resolve_system_wts api ''WTSFreeMemory'' s of (f, s) \<Rightarrow> s\<lparr>g_free_memory := f\<rparr>) in
          case g_free_memory s of
            None \<Rightarrow> s
          | Some f \<Rightarrow> s\<lparr>wts_freed := (f, memory) # wts_freed s\<rparr>)"

definition WTSRegisterSessionNotification :: "nat \<Rightarrow> u32 \<Rightarrow> wts_state \<Rightarrow> bool \<times> wts_state" where
  "WTSRegisterSessionNotification window flags s = (True, s\<lparr>wts_error := ERROR_SUCCESS\<rparr>)"

definition WTSUnRegisterSessionNotification :: "nat \<Rightarrow> wts_state \<Rightarrow> bool \<times> wts_state" where
  "WTSUnRegisterSessionNotification window s = (True, s\<lparr>wts_error := ERROR_SUCCESS\<rparr>)"

section \<open>Any sequence of calls\<close>

datatype wts_call = QueryCall bool bool | FreeCall nat | RegisterCall nat u32 | UnregisterCall nat

fun wts_call_step :: "wts_api \<Rightarrow> (nat \<Rightarrow> bool \<times> nat \<times> u32) \<Rightarrow> wts_call \<Rightarrow> wts_state \<Rightarrow> wts_state" where
  "wts_call_step api native (QueryCall b n) s = snd (WTSQuerySessionInformationW api native b n s)"
| "wts_call_step api native (FreeCall p) s = WTSFreeMemory api p s"
| "wts_call_step api native (RegisterCall w f) s = snd (WTSRegisterSessionNotification w f s)"
| "wts_call_step api native (UnregisterCall w) s = snd (WTSUnRegisterSessionNotification w s)"

primrec wts_calls :: "wts_api \<Rightarrow> (nat \<Rightarrow> bool \<times> nat \<times> u32) \<Rightarrow> wts_call list \<Rightarrow> wts_state \<Rightarrow> wts_state" where
  "wts_calls api native [] s = s"
| "wts_calls api native (c # cs) s = wts_calls api native cs (wts_call_step api native c s)"

text \<open>
  The state is one the system could have given: paths fit the buffer, at most the newest load succeeded,
  functions come from the loaded module, and nothing else was freed with.
\<close>

definition wts_inv :: "wts_api \<Rightarrow> wts_state \<Rightarrow> bool" where
  "wts_inv api s \<longleftrightarrow>
     (\<forall>path \<in> set (wts_loads s). length path < MAX_PATH) \<and>
     (case g_system_wts s of
        None \<Rightarrow> (\<forall>path \<in> set (wts_loads s). load_library api path = None) \<and>
          g_query_session_information_w s = None \<and> g_free_memory s = None \<and> wts_freed s = []
      | Some m \<Rightarrow>
          (\<exists>path rest. wts_loads s = path # rest \<and> load_library api path = Some m \<and>
             (\<forall>path \<in> set rest. load_library api path = None)) \<and>
          g_query_session_information_w s \<in> {None, get_proc_address api m ''WTSQuerySessionInformationW''} \<and>
          g_free_memory s \<in> {None, get_proc_address api m ''WTSFreeMemory''} \<and>
          (\<forall>(f, p) \<in> set (wts_freed s). get_proc_address api m ''WTSFreeMemory'' = Some f \<and> p \<noteq> 0))"

lemma load_inv:
  assumes "wts_inv api s" "load_system_wts api s = (r, s')"
  shows "wts_inv api s' \<and> g_system_wts s' = r \<and>
    g_query_session_information_w s' = g_query_session_information_w s \<and> g_free_memory s' = g_free_memory s \<and>
    wts_freed s' = wts_freed s"
  using assms
  by (auto simp: load_system_wts_def Let_def wts_inv_def split: option.splits if_splits)

lemma resolve_inv:
  assumes "wts_inv api s" "resolve_system_wts api name s = (f, s')"
  shows "wts_inv api s' \<and> f = (case g_system_wts s' of None \<Rightarrow> None | Some m \<Rightarrow> get_proc_address api m name) \<and>
    g_query_session_information_w s' = g_query_session_information_w s \<and> g_free_memory s' = g_free_memory s \<and>
    wts_freed s' = wts_freed s"
proof -
  obtain r s1 where l: "load_system_wts api s = (r, s1)" by (metis surj_pair)
  show ?thesis using load_inv [OF assms(1) l] assms(2)
    by (auto simp: resolve_system_wts_def l split: option.splits)
qed

lemma wts_inv_error: "wts_inv api (s\<lparr>wts_error := e\<rparr>) = wts_inv api s"
  by (cases "g_system_wts s") (simp_all add: wts_inv_def)

lemma query_inv:
  assumes "wts_inv api s"
  shows "wts_inv api (snd (WTSQuerySessionInformationW api native b n s))"
proof -
  obtain f s1 where r: "resolve_system_wts api ''WTSQuerySessionInformationW'' s = (f, s1)" by (metis surj_pair)
  note i = resolve_inv [OF assms r]
  have "wts_inv api (s1\<lparr>g_query_session_information_w := f\<rparr>)"
    using i by (auto simp: wts_inv_def split: option.splits)
  then show ?thesis using assms
    by (auto simp: WTSQuerySessionInformationW_def Let_def r wts_inv_error split: option.split prod.split)
qed

lemma free_inv:
  assumes "wts_inv api s"
  shows "wts_inv api (WTSFreeMemory api p s)"
proof -
  obtain f s1 where r: "resolve_system_wts api ''WTSFreeMemory'' s = (f, s1)" by (metis surj_pair)
  note i = resolve_inv [OF assms r]
  have free: "wts_inv api (s1\<lparr>g_free_memory := f\<rparr>)"
    using i by (auto simp: wts_inv_def split: option.splits)
  have freed: "wts_inv api (t\<lparr>wts_freed := (f, p) # wts_freed t\<rparr>)"
    if "wts_inv api t" "g_free_memory t = Some f" "p \<noteq> 0" for t f
    using that by (auto simp: wts_inv_def split: option.splits)
  show ?thesis using assms free freed [OF free] freed [OF assms]
    by (auto simp: WTSFreeMemory_def Let_def r split: option.split prod.split)
qed

lemma wts_calls_inv: "wts_inv api s \<Longrightarrow> wts_inv api (wts_calls api native cs s)"
proof (induction cs arbitrary: s)
  case (Cons c cs)
  have "wts_inv api (wts_call_step api native c s)"
    using Cons.prems by (cases c) (simp_all add: query_inv free_inv wts_inv_error
        WTSRegisterSessionNotification_def WTSUnRegisterSessionNotification_def)
  then show ?case by (simp add: Cons.IH)
qed simp

text \<open>
  After any sequence of calls, every path the bridge has built fits its buffer, the library has been
  loaded successfully at most once, by the newest attempt, and memory has only been passed to the
  \<open>WTSFreeMemory\<close> of that library, never a null pointer.
\<close>

theorem wts_bridge_loads_once:
  "let s = wts_calls api native cs wts_start in
     set (map length (wts_loads s)) \<subseteq> {..< MAX_PATH} \<and>
     length (filter (\<lambda>path. load_library api path \<noteq> None) (wts_loads s)) =
       (if g_system_wts s = None then 0 else 1) \<and>
     set (wts_freed s) \<subseteq> {(f, p). p \<noteq> 0 \<and> (\<exists>m. g_system_wts s = Some m \<and> get_proc_address api m ''WTSFreeMemory'' = Some f)}"
proof -
  have "wts_inv api (wts_calls api native cs wts_start)"
    by (rule wts_calls_inv) (simp add: wts_inv_def wts_start_def)
  then show ?thesis by (auto simp: Let_def wts_inv_def split: option.splits)
qed

end
