(* ===== verification/Sfx_Crc.thy ===== *)
theory Sfx_Crc
  imports W2K_Prelude
begin

text \<open>
  The CRC-32 of the self-extractor (\<open>sfx/w2k_sfx.c\<close>, \<open>init_crc32\<close> and
  \<open>update_crc32\<close>) and of the tool that writes the footer (\<open>sfx/build_w2k_sfx.mjs\<close>,
  \<open>crc32\<close>). The stub works a byte at a time from a 256-entry table and folds the payload in
  as it is read, in chunks; the builder works a bit at a time over the whole payload. The
  theory shows that they agree.
\<close>

section \<open>The table of the stub\<close>

text \<open>The body of the inner loop of \<open>init_crc32\<close>.\<close>

definition crc_shift :: "u32 \<Rightarrow> u32" where
  "crc_shift c = (if c AND 1 \<noteq> 0 then 0xEDB88320 XOR drop_bit 1 c else drop_bit 1 c)"

definition init_crc32 :: "u32 list" where
  "init_crc32 = map (\<lambda>i. (crc_shift ^^ 8) (of_nat i)) [0..<256]"

fun update_crc32 :: "u32 list \<Rightarrow> u32 \<Rightarrow> u8 list \<Rightarrow> u32" where
  "update_crc32 crc_table crc [] = crc"
| "update_crc32 crc_table crc (b # data) =
     update_crc32 crc_table
       (crc_table ! unat ((crc XOR ucast b) AND 0xFF) XOR drop_bit 8 crc) data"

section \<open>The builder\<close>

definition builder_shift :: "u32 \<Rightarrow> u32" where
  "builder_shift c = drop_bit 1 c XOR (if c AND 1 \<noteq> 0 then 0xEDB88320 else 0)"

fun builder_loop :: "u32 \<Rightarrow> u8 list \<Rightarrow> u32" where
  "builder_loop c [] = c"
| "builder_loop c (b # buffer) = builder_loop ((builder_shift ^^ 8) (c XOR ucast b)) buffer"

definition builder_crc32 :: "u8 list \<Rightarrow> u32" where
  "builder_crc32 buffer = builder_loop 0xFFFFFFFF buffer XOR 0xFFFFFFFF"

section \<open>The shift is linear\<close>

lemma builder_shift_eq: "builder_shift = crc_shift"
  by (auto simp: builder_shift_def crc_shift_def fun_eq_iff xor.commute)

lemma and_one_bit: "(c :: u32) AND 1 \<noteq> 0 \<longleftrightarrow> bit c 0"
  by (simp add: and_one_eq bit_0 odd_iff_mod_2_eq_one)

lemma crc_shift_bit: "crc_shift c = (if bit c 0 then 0xEDB88320 else 0) XOR drop_bit 1 c"
  by (simp add: crc_shift_def and_one_bit)

lemma crc_shift_xor: "crc_shift (a XOR b) = crc_shift a XOR crc_shift b"
proof -
  have "(if bit (a XOR b) 0 then k else 0) =
      (if bit a 0 then k else 0) XOR (if bit b 0 then k else 0)" for k :: u32
    by (simp add: bit_xor_iff)
  then show ?thesis
    by (simp add: crc_shift_bit drop_bit_xor xor.assoc xor.left_commute)
qed

lemma crc_shifts_xor: "(crc_shift ^^ n) (a XOR b) = (crc_shift ^^ n) a XOR (crc_shift ^^ n) b"
  by (induction n) (auto simp: crc_shift_xor)

text \<open>As long as the low bits are 0, shifting is only shifting.\<close>

lemma crc_shifts_low_zero:
  "(\<And>i. i < n \<Longrightarrow> \<not> bit z i) \<Longrightarrow> (crc_shift ^^ n) z = drop_bit n z"
proof (induction n)
  case (Suc n)
  then have "(crc_shift ^^ n) z = drop_bit n z" by auto
  moreover have "\<not> bit (drop_bit n z) 0" using Suc.prems [of n] by (simp add: bit_drop_bit_eq)
  ultimately show ?case by (simp add: crc_shift_bit [of "drop_bit n z"])
qed simp

lemma low_byte_split: "x = (x AND 0xFF) XOR (x AND NOT 0xFF)" for x :: u32
  by (rule bit_eqI) (auto simp: bit_simps)

lemma bit_0xFF: "bit (0xFF :: u32) i \<longleftrightarrow> i < 8"
proof -
  have m: "(0xFF :: u32) = mask 8" by (simp add: mask_eq_exp_minus_1)
  show ?thesis unfolding m by (auto simp: bit_mask_iff)
qed

lemma crc_shifts_byte:
  "(crc_shift ^^ 8) x = (crc_shift ^^ 8) (x AND 0xFF) XOR drop_bit 8 x" for x :: u32
proof -
  have "(crc_shift ^^ 8) (x AND NOT 0xFF) = drop_bit 8 (x AND NOT 0xFF)"
    by (rule crc_shifts_low_zero) (simp only: bit_and_iff bit_not_iff bit_0xFF, simp)
  also have "\<dots> = drop_bit 8 x"
    by (rule bit_eqI) (simp only: bit_drop_bit_eq bit_and_iff bit_not_iff bit_0xFF o_def,
        auto dest: bit_imp_le_length)
  finally show ?thesis by (subst low_byte_split) (simp add: crc_shifts_xor)
qed

lemma unat_and_0xFF: "unat (x AND 0xFF :: u32) < 256"
proof -
  have "x AND 0xFF \<le> (0xFF :: u32)" by (rule word_and_le1)
  then have "unat (x AND 0xFF) \<le> unat (0xFF :: u32)" by (simp add: word_le_nat_alt)
  then show ?thesis by simp
qed

lemma init_crc32_nth: "unat x < 256 \<Longrightarrow> init_crc32 ! unat x = (crc_shift ^^ 8) x"
  by (simp add: init_crc32_def)

lemma drop_bit_byte: "drop_bit 8 (crc XOR ucast (b :: u8)) = drop_bit 8 (crc :: u32)"
  by (rule bit_eqI) (auto simp: bit_simps dest: bit_imp_le_length)

lemma update_crc32_builder: "update_crc32 init_crc32 crc data = builder_loop crc data"
proof (induction data arbitrary: crc)
  case (Cons b data)
  have "init_crc32 ! unat ((crc XOR ucast b) AND 0xFF) XOR drop_bit 8 crc =
      (crc_shift ^^ 8) (crc XOR ucast b)"
    by (simp only: init_crc32_nth [OF unat_and_0xFF] crc_shifts_byte [of "crc XOR ucast b"]
        drop_bit_byte)
  then show ?case by (simp add: Cons.IH builder_shift_eq)
qed simp

text \<open>
  C36: the checksum the stub computes from its table, complemented at the start and at the
  end, is the checksum the builder computes bit by bit and stores in the footer.
\<close>

theorem stub_crc_is_builder_crc:
  "update_crc32 init_crc32 0xFFFFFFFF payload XOR 0xFFFFFFFF = builder_crc32 payload"
  by (simp add: update_crc32_builder builder_crc32_def)

section \<open>Digests over a stream\<close>

text \<open>
  The interface a reader in chunks needs of a digest: folding in a chunk and then another is
  folding in both together.
\<close>

locale stream_digest =
  fixes fold_in :: "'d \<Rightarrow> 'b list \<Rightarrow> 'd"
  assumes fold_in_Nil: "fold_in d [] = d"
    and fold_in_append: "fold_in d (xs @ ys) = fold_in (fold_in d xs) ys"
begin

lemma fold_in_concat: "foldl fold_in d chunks = fold_in d (concat chunks)"
  by (induction chunks arbitrary: d) (auto simp: fold_in_Nil fold_in_append)

lemma fold_in_split: "fold_in (fold_in d (take n xs)) (drop n xs) = fold_in d xs"
  by (metis append_take_drop_id fold_in_append)

end

lemma update_crc32_append:
  "update_crc32 table crc (xs @ ys) = update_crc32 table (update_crc32 table crc xs) ys"
  by (induction xs arbitrary: crc) auto

interpretation crc: stream_digest "update_crc32 table" for table
  by unfold_locales (auto simp: update_crc32_append)

end
