(* ===== verification/Sfx_Names.thy ===== *)
theory Sfx_Names
  imports W2K_Prelude "HOL-Library.Sublist"
begin

text \<open>
  File names and directories of the self-extractor (\<open>sfx/w2k_sfx.c\<close>): the check
  \<open>safe_relative_name\<close>, the creation of directories, and \<open>cabinet_callback\<close>, which the
  system's cabinet reader calls for every file. Paths are byte strings. The file system is the
  set of existing paths; what \<open>CreateDirectoryA\<close> and \<open>GetFileAttributesA\<close> report is a
  parameter.
\<close>

abbreviation (input) "ERROR_INVALID_NAME \<equiv> (123 :: u32)"
abbreviation (input) "ERROR_FILENAME_EXCED_RANGE \<equiv> (206 :: u32)"
abbreviation (input) "ERROR_ALREADY_EXISTS \<equiv> (183 :: u32)"
abbreviation (input) "NO_ERROR \<equiv> (0 :: u32)"
abbreviation (input) "FILEOP_ABORT \<equiv> (0 :: u32)"
abbreviation (input) "FILEOP_DOIT \<equiv> (1 :: u32)"

abbreviation bslash :: char where
  "bslash \<equiv> CHR 0x5C"

definition is_sep :: "char \<Rightarrow> bool" where
  "is_sep c \<longleftrightarrow> c = bslash \<or> c = CHR ''/''"

section \<open>The name check\<close>

text \<open>The loop over the name; \<open>at_start\<close> is \<open>p == name\<close> or a separator at \<open>p[-1]\<close>.\<close>

fun scan_name :: "bool \<Rightarrow> string \<Rightarrow> bool" where
  "scan_name at_start [] = True"
| "scan_name at_start (c # cs) =
     (if c = CHR '':'' then False
      else if at_start \<and> c = CHR ''.'' \<and>
        (case cs of
           d # ds \<Rightarrow> d = CHR ''.'' \<and> (case ds of [] \<Rightarrow> True | e # _ \<Rightarrow> is_sep e)
         | [] \<Rightarrow> False)
      then False
      else scan_name (is_sep c) cs)"

definition safe_relative_name :: "string option \<Rightarrow> bool" where
  "safe_relative_name name =
     (case name of
        None \<Rightarrow> False
      | Some [] \<Rightarrow> False
      | Some (c # cs) \<Rightarrow>
          if (c = bslash \<or> c = CHR ''/'' \<or> c = CHR ''.'') \<and> (c \<noteq> CHR ''.'' \<or> cs \<noteq> [])
          then False
          else if length (c # cs) \<ge> MAX_PATH - 2 then False
          else scan_name True (c # cs))"

section \<open>Creating directories\<close>

record fs_env =
  attr_error :: "string \<Rightarrow> u32"
  create_error :: "string \<Rightarrow> u32"

record fs_state =
  existing :: "string set"
  last_error :: u32

text \<open>
  \<open>GetFileAttributesA\<close> and, when the path does not exist, \<open>CreateDirectoryA\<close>, which
  succeeds when its error is 0.
\<close>

definition make_directory :: "fs_env \<Rightarrow> string \<Rightarrow> fs_state \<Rightarrow> bool \<times> fs_state" where
  "make_directory env path fs =
     (if path \<in> existing fs then (True, fs)
      else
        let fs = fs\<lparr>last_error := attr_error env path\<rparr>; e = create_error env path in
          if e = 0 then (True, fs\<lparr>existing := insert path (existing fs)\<rparr>)
          else (e = ERROR_ALREADY_EXISTS, fs\<lparr>last_error := e\<rparr>))"

text \<open>
  The loop of \<open>ensure_directory_tree\<close> from the fourth character on: \<open>done\<close> is the text
  before \<open>p\<close>, which is what \<open>copy\<close> holds while \<open>*p\<close> is cleared.
\<close>

fun directory_loop :: "fs_env \<Rightarrow> string \<Rightarrow> string \<Rightarrow> fs_state \<Rightarrow> bool \<times> fs_state" where
  "directory_loop env done_part [] fs = make_directory env done_part fs"
| "directory_loop env done_part (c # cs) fs =
     (if is_sep c
      then (case make_directory env done_part fs of
              (False, fs) \<Rightarrow> (False, fs)
            | (True, fs) \<Rightarrow> directory_loop env (done_part @ [c]) cs fs)
      else directory_loop env (done_part @ [c]) cs fs)"

text \<open>
  \<open>ensure_directory_tree\<close>. The loop starts at \<open>copy + 3\<close> without looking at the length:
  for a path of fewer than three characters it would read past the terminator, which the model
  answers with \<open>None\<close>.
\<close>

definition ensure_directory_tree :: "fs_env \<Rightarrow> string \<Rightarrow> fs_state \<Rightarrow> (bool \<times> fs_state) option" where
  "ensure_directory_tree env path fs =
     (if length path \<ge> MAX_PATH then Some (False, fs)
      else if length path < 3 then None
      else Some (directory_loop env (take 3 path) (drop 3 path) fs))"

text \<open>The text up to and with the last separator.\<close>

definition upto_last_sep :: "string \<Rightarrow> string" where
  "upto_last_sep path = rev (dropWhile (\<lambda>c. \<not> is_sep c) (rev path))"

definition ensure_parent_directory :: "fs_env \<Rightarrow> string \<Rightarrow> fs_state \<Rightarrow> (bool \<times> fs_state) option" where
  "ensure_parent_directory env file_path fs =
     (if length file_path \<ge> MAX_PATH then Some (False, fs)
      else
        let p = upto_last_sep file_path in
          if length p \<le> 3 then Some (True, fs)
          else ensure_directory_tree env (butlast p) fs)"

section \<open>The cabinet callback\<close>

record extract_context =
  destination :: string
  files_seen :: u32
  files_extracted :: u32
  failed :: u32

text \<open>
  The notifications: a file in the cabinet with its name, a file extracted with the error its
  \<open>FILEPATHS\<close> structure reports (\<open>None\<close> for a NULL pointer), anything else.
\<close>

datatype cab_notification =
    FileInCabinet "string option"
  | FileExtracted "u32 option"
  | OtherNotification

definition target_path :: "string \<Rightarrow> string \<Rightarrow> string" where
  "target_path dest name =
     dest @ (if dest \<noteq> [] \<and> last dest \<noteq> bslash then [bslash] else []) @ name"

text \<open>
  \<open>cabinet_callback\<close>: the value returned, the target stored in \<open>FullTargetName\<close>, and the
  new context and file system; \<open>None\<close> is the over-read of \<open>ensure_directory_tree\<close>.
\<close>

definition cabinet_callback ::
  "fs_env \<Rightarrow> cab_notification \<Rightarrow> extract_context \<times> fs_state \<Rightarrow>
   (u32 \<times> string option \<times> extract_context \<times> fs_state) option" where
  "cabinet_callback env notification = (\<lambda>(context, fs).
     case notification of
       FileInCabinet name_ptr \<Rightarrow>
         (let context = context\<lparr>files_seen := files_seen context + 1\<rparr> in
            if \<not> safe_relative_name name_ptr
            then Some (FILEOP_ABORT, None, context\<lparr>failed := ERROR_INVALID_NAME\<rparr>, fs)
            else
              let name = (case name_ptr of Some n \<Rightarrow> n | None \<Rightarrow> []) in
                if length (destination context) + 1 + length name \<ge> MAX_PATH
                then Some (FILEOP_ABORT, None, context\<lparr>failed := ERROR_FILENAME_EXCED_RANGE\<rparr>, fs)
                else
                  let full = target_path (destination context) name in
                    case ensure_parent_directory env full fs of
                      None \<Rightarrow> None
                    | Some (ok, fs) \<Rightarrow>
                        if \<not> ok
                        then Some (FILEOP_ABORT, None, context\<lparr>failed := last_error fs\<rparr>, fs)
                        else Some (FILEOP_DOIT, Some (take (MAX_PATH - 1) full), context, fs))
     | FileExtracted paths \<Rightarrow>
         (case paths of
            Some e \<Rightarrow>
              if e \<noteq> NO_ERROR then Some (FILEOP_ABORT, None, context\<lparr>failed := e\<rparr>, fs)
              else Some (NO_ERROR, None, context\<lparr>files_extracted := files_extracted context + 1\<rparr>, fs)
          | None \<Rightarrow>
              Some (NO_ERROR, None, context\<lparr>files_extracted := files_extracted context + 1\<rparr>, fs))
     | OtherNotification \<Rightarrow> Some (NO_ERROR, None, context, fs))"

section \<open>Components of a path\<close>

fun components :: "string \<Rightarrow> string list" where
  "components [] = [[]]"
| "components (c # cs) =
     (if is_sep c then [] # components cs
      else case components cs of
        [] \<Rightarrow> [[c]]
      | p # ps \<Rightarrow> (c # p) # ps)"

lemma components_ne [simp]: "components s \<noteq> []"
  by (cases s) (auto split: list.splits)

lemma components_append_sep:
  "is_sep x \<Longrightarrow> components (s @ x # t) = components s @ components t"
proof (induction s)
  case (Cons c s)
  then show ?case by (cases "components s") auto
qed simp

text \<open>A component \<open>..\<close> at the start of the text, or after a separator.\<close>

lemma hd_components_dotdot:
  "hd (components s) = ''..'' \<longleftrightarrow>
   (\<exists>ds. s = CHR ''.'' # CHR ''.'' # ds \<and> (case ds of [] \<Rightarrow> True | e # _ \<Rightarrow> is_sep e))"
proof -
  have dot: "\<not> is_sep CHR ''.''" by (simp add: is_sep_def)
  have nil: "hd (components s) = [] \<longleftrightarrow> (case s of [] \<Rightarrow> True | e # _ \<Rightarrow> is_sep e)" for s
    by (cases s) (auto split: list.splits)
  have cons: "hd (components s) = c # p \<longleftrightarrow>
      (\<exists>cs. s = c # cs \<and> \<not> is_sep c \<and> hd (components cs) = p)" for s c p
    by (cases s) (auto split: list.splits)
  show ?thesis by (auto simp: cons nil dot)
qed

lemma scan_name_iff:
  "scan_name at_start s \<longleftrightarrow>
     CHR '':'' \<notin> set s \<and>
     ''..'' \<notin> set (if at_start then components s else tl (components s))"
proof (induction s arbitrary: at_start)
  case (Cons c cs)
  have dd: "(c = CHR ''.'' \<and>
        (case cs of
           d # ds \<Rightarrow> d = CHR ''.'' \<and> (case ds of [] \<Rightarrow> True | e # _ \<Rightarrow> is_sep e)
         | [] \<Rightarrow> False)) \<longleftrightarrow> hd (components (c # cs)) = ''..''"
    unfolding hd_components_dotdot by (cases cs) auto
  have split: "set (components (c # cs)) = insert (hd (components (c # cs))) (set (tl (components (c # cs))))"
    using components_ne [of "c # cs"] by (metis list.exhaust_sel list.simps(15))
  have tl: "tl (components (c # cs)) = (if is_sep c then components cs else tl (components cs))"
    by (auto split: list.splits)
  show ?case
    unfolding scan_name.simps Cons.IH dd
    by (cases at_start; simp only: if_True if_False split tl) (auto simp del: components.simps)
qed simp

text \<open>
  \<open>safe_relative_name\<close> accepts a name exactly when it is not empty and shorter than
  258 characters, does not begin with a separator, begins with a dot only if it is the single
  dot, contains no colon anywhere and has no component \<open>..\<close> under either separator.
\<close>

theorem safe_relative_name_iff:
  "safe_relative_name (Some name) \<longleftrightarrow>
     name \<noteq> [] \<and> length name < 258 \<and> \<not> is_sep (hd name) \<and>
     (hd name = CHR ''.'' \<longrightarrow> name = ''.'') \<and>
     CHR '':'' \<notin> set name \<and> ''..'' \<notin> set (components name)"
proof (cases name)
  case (Cons c cs)
  show ?thesis unfolding safe_relative_name_def Cons option.case list.case scan_name_iff
    by (auto simp: is_sep_def simp del: components.simps)
qed (simp add: safe_relative_name_def)

theorem safe_relative_name_iff_witness:
  "safe_relative_name (Some ''a/b.txt'') \<and> \<not> safe_relative_name (Some ''a/../b'')"
proof
  show "safe_relative_name (Some ''a/b.txt'')"
    by (rule safe_relative_name_iff [THEN iffD2]) (simp add: is_sep_def)
  show "\<not> safe_relative_name (Some ''a/../b'')"
    by (simp add: safe_relative_name_def is_sep_def)
qed

section \<open>Targets stay below the destination\<close>

text \<open>Lexical resolution of a list of components, from the directory \<open>base\<close>.\<close>

fun resolve :: "string list \<Rightarrow> string list \<Rightarrow> string list" where
  "resolve base [] = base"
| "resolve base (c # cs) =
     (if c = [] \<or> c = ''.'' then resolve base cs
      else if c = ''..'' then resolve (butlast base) cs
      else resolve (base @ [c]) cs)"

lemma resolve_append: "resolve base (cs @ ds) = resolve (resolve base cs) ds"
  by (induction cs arbitrary: base) auto

lemma resolve_no_dotdot:
  "''..'' \<notin> set cs \<Longrightarrow> resolve base cs = base @ filter (\<lambda>c. c \<noteq> [] \<and> c \<noteq> ''.'') cs"
  by (induction cs arbitrary: base) auto

lemma is_sep_bslash [simp]: "is_sep bslash"
  by (simp add: is_sep_def)

lemma resolve_target:
  assumes "''..'' \<notin> set (components name)" and "dest \<noteq> []"
  shows "resolve [] (components (target_path dest name)) =
    resolve [] (components dest) @ filter (\<lambda>c. c \<noteq> [] \<and> c \<noteq> ''.'') (components name)"
proof (cases "last dest = bslash")
  case False
  with assms show ?thesis
    by (simp add: target_path_def components_append_sep resolve_append resolve_no_dotdot)
next
  case True
  with assms(2) obtain d where d: "dest = d @ [bslash]" by (metis append_butlast_last_id)
  have "components dest = components d @ [[]]"
    unfolding d by (subst components_append_sep) simp_all
  moreover have "components (target_path dest name) = components d @ components name"
    by (simp add: d target_path_def components_append_sep)
  ultimately show ?thesis using assms(1) by (simp add: resolve_append resolve_no_dotdot)
qed

lemma take_target [simp]:
  "length dest + 1 + length name < MAX_PATH \<Longrightarrow>
   take (MAX_PATH - 1) (target_path dest name) = target_path dest name"
  by (rule take_all) (simp add: target_path_def)

lemma upto_last_sep_prefix: "prefix (upto_last_sep path) path"
proof -
  have "suffix (dropWhile (\<lambda>c. \<not> is_sep c) (rev path)) (rev path)" by (rule suffix_dropWhile)
  then show ?thesis by (simp add: upto_last_sep_def suffix_to_prefix)
qed

text \<open>The parent is only walked when it has three characters, so the over-read is not reached.\<close>

lemma ensure_parent_directory_defined [simp]:
  "ensure_parent_directory env path fs \<noteq> None"
proof -
  have "length (upto_last_sep path) \<le> length path"
    using upto_last_sep_prefix by (rule prefix_length_le)
  then show ?thesis
    by (auto simp: ensure_parent_directory_def ensure_directory_tree_def Let_def)
qed

lemma cabinet_callback_defined [simp]:
  "cabinet_callback env n cfs \<noteq> None"
  by (auto simp: cabinet_callback_def Let_def
      split: prod.split cab_notification.split option.split)

lemma callback_target:
  assumes "cabinet_callback env n (context, fs) = Some (c, Some target, context', fs')"
  shows "\<exists>name. n = FileInCabinet (Some name) \<and> safe_relative_name (Some name) \<and>
    length (destination context) + 1 + length name < MAX_PATH \<and>
    target = target_path (destination context) name \<and> c = FILEOP_DOIT \<and>
    context' = context\<lparr>files_seen := files_seen context + 1\<rparr>"
proof -
  obtain name where name: "n = FileInCabinet (Some name)" "safe_relative_name (Some name)"
      "length (destination context) + 1 + length name < MAX_PATH"
    using assms
    by (auto simp: cabinet_callback_def Let_def not_le safe_relative_name_def
        split: cab_notification.splits option.splits if_splits)
  then show ?thesis using assms take_target [OF name(3)]
    by (auto simp: cabinet_callback_def Let_def split: option.splits if_splits)
qed

section \<open>A whole cabinet\<close>

text \<open>
  The notifications of one \<open>SetupIterateCabinetA\<close> in order, whatever the reader makes of
  the answers: the answers, and the context and file system at the end.
\<close>

fun iterate_cabinet ::
  "fs_env \<Rightarrow> cab_notification list \<Rightarrow> extract_context \<times> fs_state \<Rightarrow>
   ((u32 \<times> string option) list \<times> extract_context \<times> fs_state) option" where
  "iterate_cabinet env [] st = Some ([], st)"
| "iterate_cabinet env (n # ns) st =
     (case cabinet_callback env n st of
        None \<Rightarrow> None
      | Some (c, target, st') \<Rightarrow>
          (case iterate_cabinet env ns st' of
             None \<Rightarrow> None
           | Some (answers, st'') \<Rightarrow> Some ((c, target) # answers, st'')))"

lemma iterate_cabinet_defined [simp]: "iterate_cabinet env ns st \<noteq> None"
proof (induction ns arbitrary: st)
  case (Cons n ns)
  obtain c t st' where "cabinet_callback env n st = Some (c, t, st')"
    using cabinet_callback_defined [of env n st] by (metis not_Some_eq prod_cases3)
  with Cons.IH [of st'] show ?case by (auto simp del: not_None_eq split: option.split)
qed simp

lemma iterate_cabinet_Cons:
  assumes "iterate_cabinet env (n # ns) st = Some (answers, st'')"
  obtains c target st' answers' where "cabinet_callback env n st = Some (c, target, st')"
    "iterate_cabinet env ns st' = Some (answers', st'')" "answers = (c, target) # answers'"
  using assms by (auto split: option.splits prod.splits)

lemma callback_destination:
  "cabinet_callback env n (context, fs) = Some (c, target, context', fs') \<Longrightarrow>
   destination context' = destination context"
  by (auto simp: cabinet_callback_def Let_def
      split: cab_notification.splits option.splits if_splits prod.splits)

text \<open>Lexically below a directory, with no further \<open>..\<close> and no drive or stream colon.\<close>

definition below :: "string \<Rightarrow> string \<Rightarrow> bool" where
  "below dest path \<longleftrightarrow>
     (\<exists>name. path = target_path dest name \<and> CHR '':'' \<notin> set name \<and>
        resolve [] (components path) =
          resolve [] (components dest) @ filter (\<lambda>c. c \<noteq> [] \<and> c \<noteq> ''.'') (components name))"

lemma callback_target_below:
  assumes "cabinet_callback env n (context, fs) = Some (c, Some target, context', fs')"
    and "destination context \<noteq> []"
  shows "below (destination context) target \<and> length target < MAX_PATH"
proof -
  obtain name where n: "safe_relative_name (Some name)"
      "length (destination context) + 1 + length name < MAX_PATH"
      "target = target_path (destination context) name"
    using callback_target [OF assms(1)] by blast
  have "CHR '':'' \<notin> set name" "''..'' \<notin> set (components name)"
    using n(1) by (auto simp: safe_relative_name_def scan_name_iff
        split: list.splits if_splits simp del: components.simps)
  with assms(2) n show ?thesis
    using resolve_target [of name "destination context"]
    by (auto simp: below_def) (simp_all add: target_path_def)
qed

text \<open>
  C4: whatever a cabinet contains and whatever the file system answers, the callback is
  defined on every notification (no read past a path's end), and every target it hands to the
  reader fits \<open>FullTargetName\<close> and lies lexically below the destination directory.
\<close>

theorem cabinet_targets_contained:
  assumes "destination context \<noteq> []"
  shows "\<exists>answers context' fs'.
    iterate_cabinet env ns (context, fs) = Some (answers, context', fs') \<and>
    (\<forall>target. (FILEOP_DOIT, Some target) \<in> set answers \<longrightarrow>
       below (destination context) target \<and> length target < MAX_PATH)"
proof -
  have "(FILEOP_DOIT, Some target) \<in> set answers \<Longrightarrow>
      below (destination ctx) target \<and> length target < MAX_PATH"
    if "iterate_cabinet env ns (ctx, fs) = Some (answers, r)" "destination ctx \<noteq> []"
    for answers r target ctx fs using that
  proof (induction ns arbitrary: ctx fs answers)
    case (Cons n ns)
    from Cons.prems(2) obtain c t context' fs' answers' where *:
        "cabinet_callback env n (ctx, fs) = Some (c, t, context', fs')"
        "iterate_cabinet env ns (context', fs') = Some (answers', r)"
        "answers = (c, t) # answers'"
      by (metis iterate_cabinet_Cons prod.collapse)
    have d: "destination context' = destination ctx" using callback_destination *(1) by blast
    show ?case
      using Cons.IH [OF _ *(2)] Cons.prems(1,3) callback_target_below *(1,3) d by auto
  qed simp
  moreover obtain answers context' fs' where
    "iterate_cabinet env ns (context, fs) = Some (answers, context', fs')"
    using iterate_cabinet_defined [of env ns "(context, fs)"] by (metis not_Some_eq prod_cases3)
  ultimately show ?thesis using assms by blast
qed

theorem cabinet_targets_contained_witness:
  "\<exists>answers context' fs'.
    iterate_cabinet \<lparr>attr_error = \<lambda>_. 2, create_error = \<lambda>_. 0\<rparr>
      [FileInCabinet (Some ''a/b.txt''), FileExtracted (Some 0)]
      (\<lparr>destination = ''C:/out'', files_seen = 0, files_extracted = 0, failed = 0\<rparr>,
       \<lparr>existing = {}, last_error = 0\<rparr>) = Some (answers, context', fs') \<and>
    (\<forall>target. (FILEOP_DOIT, Some target) \<in> set answers \<longrightarrow>
       below ''C:/out'' target \<and> length target < MAX_PATH)"
  using cabinet_targets_contained
    [of "\<lparr>destination = ''C:/out'', files_seen = 0, files_extracted = 0, failed = 0\<rparr>"]
  by (simp del: iterate_cabinet.simps)

text \<open>What the callback requires of each notification, in the file system it finds.\<close>

definition accepted :: "extract_context \<Rightarrow> cab_notification \<Rightarrow> bool" where
  "accepted context n =
     (case n of
        FileInCabinet name_ptr \<Rightarrow>
          (case name_ptr of
             None \<Rightarrow> False
           | Some name \<Rightarrow> safe_relative_name (Some name) \<and>
               length (destination context) + 1 + length name < MAX_PATH)
      | FileExtracted (Some e) \<Rightarrow> e = NO_ERROR
      | _ \<Rightarrow> True)"

lemma directory_loop_error:
  "directory_loop env d cs fs = (False, fs') \<Longrightarrow> last_error fs' \<noteq> 0"
  by (induction env d cs fs rule: directory_loop.induct)
    (auto simp: make_directory_def Let_def split: if_splits prod.splits bool.splits)

lemma ensure_parent_directory_error:
  "ensure_parent_directory env path fs = Some (False, fs') \<Longrightarrow> length path < MAX_PATH \<Longrightarrow>
   last_error fs' \<noteq> 0"
  using upto_last_sep_prefix [of path, THEN prefix_length_le]
  by (auto simp: ensure_parent_directory_def ensure_directory_tree_def Let_def directory_loop_error
      split: if_splits)

text \<open>One notification: the mark stays unless it is refused, and a refusal leaves a mark.\<close>

lemma callback_failed:
  assumes "cabinet_callback env n (context, fs) = Some (c, t, context', fs')"
  shows "failed context' = (if accepted context n \<and> \<not> (c = FILEOP_ABORT \<and> (\<exists>f. n = FileInCabinet f))
    then failed context else failed context') \<and>
    (failed context' \<noteq> 0 \<longleftrightarrow>
      failed context \<noteq> 0 \<or> \<not> accepted context n \<or> (c = FILEOP_ABORT \<and> (\<exists>f. n = FileInCabinet f)))"
proof (cases n)
  case (FileInCabinet f)
  show ?thesis
  proof (cases "safe_relative_name f \<and> length (destination context) + 1 + length (case f of Some n \<Rightarrow> n | None \<Rightarrow> []) < MAX_PATH")
    case False
    then show ?thesis using assms FileInCabinet
      by (auto simp: cabinet_callback_def Let_def accepted_def not_less safe_relative_name_def
          split: option.splits if_splits)
  next
    case True
    then obtain name where f: "f = Some name" by (cases f) (auto simp: safe_relative_name_def)
    define full where "full = target_path (destination context) name"
    have len: "length full < MAX_PATH" using True by (simp add: f full_def target_path_def)
    obtain ok fs1 where e: "ensure_parent_directory env full fs = Some (ok, fs1)"
      using ensure_parent_directory_defined [of env full fs] by (metis not_Some_eq prod.exhaust)
    show ?thesis using assms FileInCabinet True ensure_parent_directory_error [OF _ len] e
      by (cases ok) (auto simp: cabinet_callback_def Let_def accepted_def f full_def [symmetric])
  qed
next
  case (FileExtracted p)
  then show ?thesis using assms
    by (auto simp: cabinet_callback_def accepted_def split: option.splits if_splits)
next
  case OtherNotification
  then show ?thesis using assms by (auto simp: cabinet_callback_def accepted_def)
qed

text \<open>The notifications all pass the name and error checks, and no file is refused.\<close>

definition all_accepted ::
  "extract_context \<Rightarrow> cab_notification list \<Rightarrow> (u32 \<times> string option) list \<Rightarrow> bool" where
  "all_accepted context ns answers \<longleftrightarrow>
     (\<forall>(n, c, t) \<in> set (zip ns answers). accepted context n \<and>
        (\<forall>f. n = FileInCabinet f \<longrightarrow> c = FILEOP_DOIT))"

definition extracted_count :: "cab_notification list \<Rightarrow> nat" where
  "extracted_count ns =
     length (filter (\<lambda>n. case n of FileExtracted (Some e) \<Rightarrow> e = 0 | FileExtracted None \<Rightarrow> True
       | _ \<Rightarrow> False) ns)"

lemma callback_answer:
  assumes "cabinet_callback env n (context, fs) = Some (c, t, context', fs')"
  shows "(c = FILEOP_ABORT \<or> (\<exists>f. n = FileInCabinet f) \<and> c = FILEOP_DOIT) \<and>
    files_seen context' = files_seen context + (case n of FileInCabinet _ \<Rightarrow> 1 | _ \<Rightarrow> 0) \<and>
    files_extracted context' = files_extracted context + of_nat (extracted_count [n])"
  using assms
  by (auto simp: cabinet_callback_def Let_def extracted_count_def
      split: cab_notification.splits option.splits if_splits prod.splits)

lemma accepted_cong: "destination a = destination b \<Longrightarrow> accepted a = accepted b"
  by (rule ext) (simp add: accepted_def split: cab_notification.split option.split)

lemma iterate_cabinet_effect:
  assumes "iterate_cabinet env ns (ctx, fs) = Some (answers, ctx', fs')"
  shows "length answers = length ns \<and>
    (failed ctx' \<noteq> 0 \<longleftrightarrow> failed ctx \<noteq> 0 \<or> \<not> all_accepted ctx ns answers) \<and>
    files_extracted ctx' = files_extracted ctx + of_nat (extracted_count ns)"
  using assms
proof (induction ns arbitrary: ctx fs answers)
  case (Cons n ns)
  from Cons.prems obtain c t ctx1 fs1 answers' where *:
      "cabinet_callback env n (ctx, fs) = Some (c, t, ctx1, fs1)"
      "iterate_cabinet env ns (ctx1, fs1) = Some (answers', ctx', fs')"
      "answers = (c, t) # answers'"
    by (metis iterate_cabinet_Cons prod.collapse)
  have acc: "accepted ctx1 = accepted ctx"
    using callback_destination [OF *(1)] by (rule accepted_cong)
  have count: "extracted_count (n # ns) = extracted_count [n] + extracted_count ns"
    by (simp add: extracted_count_def)
  have all: "all_accepted ctx (n # ns) answers \<longleftrightarrow>
      accepted ctx n \<and> \<not> (c = FILEOP_ABORT \<and> (\<exists>f. n = FileInCabinet f)) \<and>
      all_accepted ctx1 ns answers'"
    using callback_answer [OF *(1)] by (auto simp: all_accepted_def *(3) acc)
  have failed: "failed ctx1 \<noteq> 0 \<longleftrightarrow>
      failed ctx \<noteq> 0 \<or> \<not> accepted ctx n \<or> (c = FILEOP_ABORT \<and> (\<exists>f. n = FileInCabinet f))"
    using callback_failed [OF *(1)] by blast
  from Cons.IH [OF *(2)] show ?case
    unfolding all failed count using callback_answer [OF *(1)] *(3) failed by auto
qed (simp add: all_accepted_def extracted_count_def)

text \<open>
  After a whole cabinet \<open>failed\<close> is still 0 exactly when no notification was refused:
  every name passed the check and fitted, every parent directory could be made, and no
  extraction reported an error. No later notification clears the mark, and
  \<open>files_extracted\<close> is then the number of files extracted (modulo \<open>2^32\<close>).
\<close>

theorem cabinet_failed_iff:
  assumes "iterate_cabinet env ns (context, fs) = Some (answers, context', fs')"
    and "failed context = 0"
  shows "length answers = length ns \<and>
    (failed context' = 0 \<longleftrightarrow>
      (\<forall>i < length ns. accepted context (ns ! i) \<and>
        (\<forall>f. ns ! i = FileInCabinet f \<longrightarrow> fst (answers ! i) = FILEOP_DOIT))) \<and>
    files_extracted context' = files_extracted context + of_nat (extracted_count ns)"
proof -
  have "length answers = length ns" using iterate_cabinet_effect [OF assms(1)] by simp
  then have "all_accepted context ns answers \<longleftrightarrow>
      (\<forall>i < length ns. accepted context (ns ! i) \<and>
        (\<forall>f. ns ! i = FileInCabinet f \<longrightarrow> fst (answers ! i) = FILEOP_DOIT))"
    by (auto simp: all_accepted_def set_zip split: prod.splits) (metis fst_conv surj_pair)+
  then show ?thesis using iterate_cabinet_effect [OF assms(1)] assms(2) by auto
qed

abbreviation empty_context :: "string \<Rightarrow> extract_context" where
  "empty_context dest \<equiv>
     \<lparr>destination = dest, files_seen = 0, files_extracted = 0, failed = 0\<rparr>"

theorem cabinet_failed_iff_witness:
  "\<exists>answers context' fs'.
    iterate_cabinet \<lparr>attr_error = \<lambda>_. 2, create_error = \<lambda>_. 0\<rparr>
      [FileInCabinet (Some ''a''), FileExtracted (Some 112), FileInCabinet (Some ''b'')]
      (empty_context ''C:/out'', \<lparr>existing = {''C:/out''}, last_error = 0\<rparr>) =
      Some (answers, context', fs') \<and>
    (failed context' = 0 \<longleftrightarrow>
      (\<forall>i < 3. accepted (empty_context ''C:/out'')
          ([FileInCabinet (Some ''a''), FileExtracted (Some 112), FileInCabinet (Some ''b'')] ! i) \<and>
        (\<forall>f. [FileInCabinet (Some ''a''), FileExtracted (Some 112), FileInCabinet (Some ''b'')] ! i =
            FileInCabinet f \<longrightarrow> fst (answers ! i) = FILEOP_DOIT)))"
proof -
  let ?env = "\<lparr>attr_error = \<lambda>_. 2, create_error = \<lambda>_. 0\<rparr>"
  let ?ns = "[FileInCabinet (Some ''a''), FileExtracted (Some 112), FileInCabinet (Some ''b'')]"
  let ?fs = "\<lparr>existing = {''C:/out''}, last_error = 0\<rparr>"
  obtain answers context' fs' where
    r: "iterate_cabinet ?env ?ns (empty_context ''C:/out'', ?fs) = Some (answers, context', fs')"
    using iterate_cabinet_defined by (metis not_Some_eq prod_cases3)
  show ?thesis using r cabinet_failed_iff [OF r]
    by (simp del: iterate_cabinet.simps add: numeral_3_eq_3)
qed

text \<open>
  The answer to a finished extraction is 0 with and without an error: \<open>FILEOP_ABORT\<close> and
  \<open>NO_ERROR\<close> are the same number, so the reader cannot see the abort that the error branch
  asks for, and only the mark in the context reports it.
\<close>

theorem extracted_answer_is_zero:
  "\<exists>context'. cabinet_callback env (FileExtracted paths) (context, fs) =
     Some (NO_ERROR, None, context', fs)"
  by (auto simp: cabinet_callback_def split: option.split)

end
