(* ===== verification/Sfx_Footer.thy ===== *)
theory Sfx_Footer
  imports Sfx_Crc Sfx_Names
begin

text \<open>
  The 208-byte record at the end of a self-extractor (\<open>SfxFooter\<close> in
  \<open>sfx/w2k_sfx.c\<close>): how the stub finds and checks it, and how
  \<open>sfx/build_w2k_sfx.mjs\<close> writes it.
\<close>

abbreviation (input) "FOOTER_SIZE \<equiv> (208 :: nat)"
abbreviation (input) "INVALID_FILE_SIZE \<equiv> (0xFFFFFFFF :: u32)"
abbreviation (input) "ERROR_BAD_FORMAT \<equiv> (11 :: u32)"

section \<open>Fixed C strings\<close>

definition char_of_byte :: "u8 \<Rightarrow> char" where
  "char_of_byte b = char_of (unat b)"

definition byte_of_char :: "char \<Rightarrow> u8" where
  "byte_of_char c = of_nat (code c)"

lemma char_of_byte_of_char [simp]: "char_of_byte (byte_of_char c) = c"
  using code_less [of c]
  by (simp add: char_of_byte_def byte_of_char_def code_def unat_of_nat)

lemma byte_of_char_eq_0 [simp]: "byte_of_char c = 0 \<longleftrightarrow> c = CHR 0x00"
proof
  assume "byte_of_char c = 0"
  then have "char_of_byte (byte_of_char c) = char_of_byte 0" by (rule arg_cong)
  then show "c = CHR 0x00" by (simp add: char_of_byte_def [of 0] char_of_def)
qed (simp add: byte_of_char_def code_def)

text \<open>The C string that a byte array holds: the bytes before the first NUL.\<close>

definition c_string :: "u8 list \<Rightarrow> string" where
  "c_string bs = map char_of_byte (takeWhile (\<lambda>b. b \<noteq> 0) bs)"

lemma length_c_string: "length (c_string bs) \<le> length bs"
  by (simp add: c_string_def length_takeWhile_le)

lemma c_string_padded:
  "CHR 0x00 \<notin> set s \<Longrightarrow> c_string (map byte_of_char s @ replicate (Suc n) 0) = s"
proof (induction s)
  case (Cons c s)
  then show ?case by (auto simp: c_string_def)
qed (simp add: c_string_def)

section \<open>The footer in the stub\<close>

record sfx_footer =
  magic :: "u8 list"
  payload_size :: u32
  payload_crc32 :: u32
  folder_name :: "u8 list"
  display_name :: "u8 list"

definition FOOTER_MAGIC :: "u8 list" where
  "FOOTER_MAGIC = map byte_of_char ''W2KSFX1!''"

text \<open>The packed structure, as \<open>ReadFile\<close> fills it.\<close>

definition read_footer :: "u8 list \<Rightarrow> sfx_footer" where
  "read_footer bs =
     \<lparr>magic = take 8 bs,
      payload_size = le32_decode (drop 8 bs),
      payload_crc32 = le32_decode (drop 12 bs),
      folder_name = take 96 (drop 16 bs),
      display_name = take 96 (drop 112 bs)\<rparr>"

text \<open>
  The checks of \<open>WinMain\<close> on the footer, with the error that each failure reports. The
  names are checked for a first character before their last byte is cleared.
\<close>

definition check_footer :: "u32 \<Rightarrow> sfx_footer \<Rightarrow> u32 + sfx_footer" where
  "check_footer file_size footer =
     (if magic footer \<noteq> FOOTER_MAGIC \<or> payload_size footer = 0 \<or>
         payload_size footer > file_size - of_nat FOOTER_SIZE \<or>
         folder_name footer ! 0 = 0 \<or> display_name footer ! 0 = 0
      then Inl ERROR_BAD_FORMAT
      else
        let footer = footer\<lparr>folder_name := (folder_name footer)[95 := 0],
              display_name := (display_name footer)[95 := 0]\<rparr> in
          if \<not> safe_relative_name (Some (c_string (folder_name footer))) \<or>
             bslash \<in> set (c_string (folder_name footer)) \<or>
             CHR ''/'' \<in> set (c_string (folder_name footer))
          then Inl ERROR_INVALID_NAME
          else Inr footer)"

lemma check_footer_sizes:
  assumes "check_footer fsize footer = Inr f" and "of_nat FOOTER_SIZE \<le> fsize"
  shows "payload_size f = payload_size footer \<and> payload_crc32 f = payload_crc32 footer \<and>
    0 < unat (payload_size f) \<and> unat (payload_size f) + FOOTER_SIZE \<le> unat fsize"
proof -
  have "unat (fsize - 208) = unat fsize - 208"
    using assms(2) by (simp add: unat_sub word_le_nat_alt)
  moreover have "208 \<le> unat fsize" using assms(2) by (simp add: word_le_nat_alt)
  ultimately show ?thesis using assms(1)
    by (auto simp: check_footer_def Let_def word_less_nat_alt word_le_nat_alt not_less
        unat_gt_0 split: if_splits)
qed

text \<open>
  A folder that passes is one plain path component; it is at most 94 characters long only by
  the clearing of the last byte.
\<close>

lemma check_footer_names:
  assumes "check_footer fsize (read_footer bs) = Inr f" and "length bs = FOOTER_SIZE"
  shows "length (folder_name f) = 96 \<and> length (display_name f) = 96 \<and>
    length (c_string (folder_name f)) < 96 \<and> length (c_string (display_name f)) < 96 \<and>
    safe_relative_name (Some (c_string (folder_name f))) \<and>
    (\<forall>c \<in> set (c_string (folder_name f)). \<not> is_sep c)"
proof -
  have short: "length (c_string (bs[95 := 0])) < 96" if "length bs = 96" for bs :: "u8 list"
  proof -
    have "bs[95 := 0] = take 95 bs @ [0]"
      using that by (simp add: list_eq_iff_nth_eq nth_append nth_list_update)
    then have "takeWhile (\<lambda>b. b \<noteq> 0) (bs[95 := 0]) = takeWhile (\<lambda>b. b \<noteq> 0) (take 95 bs)"
      by (simp add: takeWhile_tail)
    then show ?thesis
      using length_takeWhile_le [of "\<lambda>b. b \<noteq> 0" "take 95 bs"] that by (simp add: c_string_def)
  qed
  show ?thesis using assms
    by (auto simp: check_footer_def Let_def read_footer_def is_sep_def split: if_splits
        intro!: short)
qed

section \<open>The footer in the builder\<close>

text \<open>\<open>fixedAscii\<close> on a zeroed field: \<open>None\<close> where the builder stops.\<close>

definition fixed_ascii :: "nat \<Rightarrow> string \<Rightarrow> u8 list option" where
  "fixed_ascii len value =
     (if value = [] \<or> \<not> list_all (\<lambda>c. 32 \<le> code c \<and> code c \<le> 126) value then None
      else if length value \<ge> len then None
      else Some (map byte_of_char value @ replicate (len - length value) 0))"

text \<open>The names that \<open>build_w2k_sfx.mjs\<close> refuses as a folder.\<close>

definition unsafe_folder :: "string \<Rightarrow> bool" where
  "unsafe_folder name \<longleftrightarrow>
     list_ex (\<lambda>c. c \<in> {bslash, CHR ''/'', CHR '':'', CHR ''*'', CHR ''?'', CHR 0x22,
       CHR ''<'', CHR ''>'', CHR ''|''}) name \<or> name = ''.'' \<or> name = ''..''"

definition build_footer :: "u8 list \<Rightarrow> string \<Rightarrow> string \<Rightarrow> u8 list option" where
  "build_footer cabinet folder display =
     (if unsafe_folder folder \<or> length cabinet > 0xFFFFFFFF then None
      else case (fixed_ascii 96 folder, fixed_ascii 96 display) of
        (Some f, Some d) \<Rightarrow>
          Some (FOOTER_MAGIC @ le32_encode (of_nat (length cabinet)) @
            le32_encode (builder_crc32 cabinet) @ f @ d)
      | _ \<Rightarrow> None)"

definition build_image :: "u8 list \<Rightarrow> u8 list \<Rightarrow> string \<Rightarrow> string \<Rightarrow> u8 list option" where
  "build_image stub cabinet folder display =
     map_option (\<lambda>footer. stub @ cabinet @ footer) (build_footer cabinet folder display)"

lemma fixed_ascii_Some:
  assumes "fixed_ascii 96 s = Some f"
  shows "length f = 96 \<and> f ! 0 \<noteq> 0 \<and> f[95 := 0] = f \<and> c_string f = s \<and> s \<noteq> [] \<and> length s < 96"
proof -
  from assms have ne: "\<not> (s = [] \<or> \<not> list_all (\<lambda>c. 32 \<le> code c \<and> code c \<le> 126) s)"
    and len: "\<not> length s \<ge> 96"
    unfolding fixed_ascii_def by (meson option.distinct(1))+
  from assms have f: "f = map byte_of_char s @ replicate (96 - length s) 0"
    unfolding fixed_ascii_def if_not_P [OF ne] if_not_P [OF len] by simp
  have s: "s \<noteq> []" "length s < 96" "\<forall>c \<in> set s. 32 \<le> code c"
      "f = map byte_of_char s @ replicate (96 - length s) 0"
    using ne len f by (simp_all add: list_all_iff)
  have nul: "CHR 0x00 \<notin> set s" using s(3) by (auto simp: code_def)
  obtain n where n: "96 - length s = Suc n" using s(2) by (cases "96 - length s") auto
  have "f ! 0 = byte_of_char (hd s)" using s(1) f by (cases s) simp_all
  then have "f ! 0 \<noteq> 0" using s(1) nul by (metis byte_of_char_eq_0 list.set_sel(1))
  moreover have "f[95 := 0] = f"
  proof -
    have "length f = 96" and "f ! 95 = 0" using f len by (simp_all add: nth_append)
    then show ?thesis by (simp add: list_update_same_conv)
  qed
  moreover have "c_string f = s" using c_string_padded [OF nul, of n] s(4) n by simp
  ultimately show ?thesis using s by simp
qed

lemma length_FOOTER_MAGIC [simp]: "length FOOTER_MAGIC = 8"
  by (simp add: FOOTER_MAGIC_def)

lemma read_built_footer:
  assumes "build_footer cabinet folder display = Some bs"
  shows "length bs = FOOTER_SIZE \<and> magic (read_footer bs) = FOOTER_MAGIC \<and>
    payload_size (read_footer bs) = of_nat (length cabinet) \<and> length cabinet < 2 ^ 32 \<and>
    payload_crc32 (read_footer bs) = builder_crc32 cabinet \<and>
    fixed_ascii 96 folder = Some (folder_name (read_footer bs)) \<and>
    fixed_ascii 96 display = Some (display_name (read_footer bs))"
proof -
  from assms obtain f d where *: "fixed_ascii 96 folder = Some f" "fixed_ascii 96 display = Some d"
      "bs = FOOTER_MAGIC @ le32_encode (of_nat (length cabinet)) @
            le32_encode (builder_crc32 cabinet) @ f @ d" "length cabinet < 2 ^ 32"
    by (auto simp: build_footer_def split: if_splits option.splits)
  then have "length f = 96" "length d = 96" using fixed_ascii_Some by blast+
  with * show ?thesis by (simp add: read_footer_def)
qed

lemma folder_component:
  "(\<forall>c \<in> set s. \<not> is_sep c) \<Longrightarrow> components s = [s]"
  by (induction s) auto

lemma built_footer_checks:
  assumes "build_image stub cabinet folder display = Some img"
    and "cabinet \<noteq> []" and "length img < 2 ^ 32"
  shows "check_footer (of_nat (length img)) (read_footer (drop (length img - FOOTER_SIZE) img)) =
      (if hd folder = CHR ''.'' then Inl ERROR_INVALID_NAME
       else Inr (read_footer (drop (length img - FOOTER_SIZE) img))) \<and>
    (let footer = read_footer (drop (length img - FOOTER_SIZE) img) in
       unat (payload_size footer) = length cabinet \<and>
       payload_crc32 footer = builder_crc32 cabinet \<and>
       c_string (folder_name footer) = folder \<and> c_string (display_name footer) = display)"
proof -
  from assms(1) obtain bs where bs: "build_footer cabinet folder display = Some bs"
      "img = stub @ cabinet @ bs" by (auto simp: build_image_def)
  note r = read_built_footer [OF bs(1)]
  have tail: "drop (length img - FOOTER_SIZE) img = bs" using bs(2) r by simp
  let ?f = "read_footer bs"
  from r have fo: "fixed_ascii 96 folder = Some (folder_name ?f)"
    and di: "fixed_ascii 96 display = Some (display_name ?f)" by blast+
  note f = fixed_ascii_Some [OF fo] fixed_ascii_Some [OF di]
  have size: "unat (payload_size ?f) = length cabinet"
    using r by (simp add: unat_of_nat_small)
  then have size_pos: "payload_size ?f \<noteq> 0" using assms(2) by (metis length_0_conv unat_0)
  have fits: "\<not> payload_size ?f > of_nat (length img) - of_nat 208"
  proof -
    have "unat (of_nat (length img) :: u32) = length img"
      using assms(3) by (intro unat_of_nat_small) simp
    then have "unat (of_nat (length img) - of_nat 208 :: u32) = length img - 208"
      using bs(2) r by (subst unat_minus_of_nat) simp_all
    then show ?thesis using size bs(2) r by (simp add: word_less_nat_alt)
  qed
  have upd: "?f\<lparr>folder_name := (folder_name ?f)[95 := 0],
              display_name := (display_name ?f)[95 := 0]\<rparr> = ?f" using f by simp
  have safe: "\<not> unsafe_folder folder" using bs(1) by (auto simp: build_footer_def)
  then have sep: "\<forall>c \<in> set folder. \<not> is_sep c" "CHR '':'' \<notin> set folder" "folder \<noteq> ''.''" "folder \<noteq> ''..''"
    by (auto simp: unsafe_folder_def list_ex_iff is_sep_def)
  have name: "safe_relative_name (Some folder) \<longleftrightarrow> hd folder \<noteq> CHR ''.''"
    using f(1) sep folder_component [OF sep(1)]
    by (cases folder) (auto simp: safe_relative_name_def scan_name_iff is_sep_def
        simp del: components.simps scan_name.simps)
  show ?thesis unfolding tail using r f size size_pos fits sep upd name
    by (auto simp: check_footer_def Let_def is_sep_def)
qed

text \<open>
  C26: what the builder writes, the stub accepts: on the image of a stub, a non-empty cabinet
  and names that the builder does not refuse, the last 208 bytes pass every check of
  \<open>WinMain\<close> exactly when the folder name does not begin with a dot, and the footer then
  gives back the payload's length and checksum and the two names.
\<close>

theorem footer_roundtrip:
  assumes "build_image stub cabinet folder display = Some img"
    and "cabinet \<noteq> []" and "length img < 2 ^ 32"
  shows "check_footer (of_nat (length img)) (read_footer (drop (length img - FOOTER_SIZE) img)) =
      (if hd folder = CHR ''.'' then Inl ERROR_INVALID_NAME
       else Inr (read_footer (drop (length img - FOOTER_SIZE) img))) \<and>
    (let footer = read_footer (drop (length img - FOOTER_SIZE) img) in
       unat (payload_size footer) = length cabinet \<and>
       payload_crc32 footer = builder_crc32 cabinet \<and>
       c_string (folder_name footer) = folder \<and> c_string (display_name footer) = display)"
  by (rule built_footer_checks [OF assms])

theorem footer_roundtrip_witness:
  "\<exists>img. build_image [77, 90] [77, 83, 67, 70] ''out'' ''Demo'' = Some img \<and>
    check_footer (of_nat (length img)) (read_footer (drop (length img - FOOTER_SIZE) img)) =
      Inr (read_footer (drop (length img - FOOTER_SIZE) img)) \<and>
    c_string (folder_name (read_footer (drop (length img - FOOTER_SIZE) img))) = ''out''"
proof -
  obtain f where f: "build_footer [77, 83, 67, 70] ''out'' ''Demo'' = Some f"
    by (simp add: build_footer_def unsafe_folder_def fixed_ascii_def code_def)
  define img where "img = [77, 90] @ [77, 83, 67, 70] @ f"
  have b: "build_image [77, 90] [77, 83, 67, 70] ''out'' ''Demo'' = Some img"
    by (simp add: build_image_def f img_def)
  have "length img < 2 ^ 32" using read_built_footer [OF f] by (simp add: img_def)
  from footer_roundtrip [OF b _ this] b show ?thesis by (auto simp: Let_def)
qed

end
