(* ===== verification/Sfx_Extract.thy ===== *)
theory Sfx_Extract
  imports Sfx_Footer
begin

text \<open>
  \<open>WinMain\<close> of the self-extractor (\<open>sfx/w2k_sfx.c\<close>): every call it makes, in order, as
  stages over its local variables, with the two failure labels at the end. What the system
  answers is a parameter; what the program acquires, releases and reports is a trace.
\<close>

abbreviation (input) "COPY_BUFFER_SIZE \<equiv> (65536 :: u32)"
abbreviation (input) "ERROR_NOT_ENOUGH_MEMORY \<equiv> (8 :: u32)"
abbreviation (input) "ERROR_INVALID_DATA \<equiv> (13 :: u32)"
abbreviation (input) "ERROR_CRC \<equiv> (23 :: u32)"
abbreviation (input) "ERROR_WRITE_FAULT \<equiv> (29 :: u32)"
abbreviation (input) "ERROR_READ_FAULT \<equiv> (30 :: u32)"
abbreviation (input) "ERROR_NEGATIVE_SEEK \<equiv> (131 :: u32)"
abbreviation (input) "ERROR_INVALID_PARAMETER \<equiv> (87 :: u32)"

section \<open>What the system answers\<close>

datatype resource = InputFile | OutputFile | CopyBuffer | SetupApi | ShellDll | TempFile

datatype sfx_event =
    Acquire resource
  | Release resource
  | ShowError u32
  | ShowDone u32 string

text \<open>
  An error of \<open>None\<close> is success. A read at an offset of the image may fail or come back
  short (the last error is then \<open>short_read_error\<close>), a write at an offset of the temporary file likewise; the error is what
  \<open>GetLastError\<close> then gives. \<open>cabinet_reader\<close> is \<open>SetupIterateCabinetA\<close>: from
  the file it opens, the notifications it sends, its result and the last error.
\<close>

record sfx_world =
  module_error :: "u32 option"
  open_error :: "u32 option"
  self_image :: "u8 list"
  read_error :: "nat \<Rightarrow> u32 option"
  short_read_error :: u32
  start_confirmed :: bool
  shell_loads :: bool
  shell_procs :: bool
  picked_folder :: "string option"
  overwrite_confirmed :: bool
  file_system :: fs_env
  initial_fs :: fs_state
  temp_error :: "u32 option"
  output_error :: "u32 option"
  heap_available :: bool
  write_error :: "nat \<Rightarrow> u32 option"
  setupapi_error :: "u32 option"
  proc_error :: "u32 option"
  cabinet_reader :: "u8 list \<Rightarrow> cab_notification list \<times> bool \<times> u32"

text \<open>
  The local variables: which handles and pointers are set, the position in the input, what
  the temporary file holds, and the file system that the directories change.
\<close>

record sfx_vars =
  input_open :: bool
  output_open :: bool
  buffer_set :: bool
  setupapi_loaded :: bool
  temp_cab_set :: bool
  input_pos :: nat
  temp_data :: "u8 list"
  footer_var :: sfx_footer
  selected_var :: string
  destination_var :: string
  fs_var :: fs_state
  events :: "sfx_event list"

definition initial_vars :: "sfx_world \<Rightarrow> sfx_vars" where
  "initial_vars w =
     \<lparr>input_open = False, output_open = False, buffer_set = False, setupapi_loaded = False,
      temp_cab_set = False,
      input_pos = 0, temp_data = [], footer_var = read_footer (replicate FOOTER_SIZE 0),
      selected_var = [], destination_var = [], fs_var = initial_fs w, events = []\<rparr>"

definition emit :: "sfx_event \<Rightarrow> sfx_vars \<Rightarrow> sfx_vars" where
  "emit e v = v\<lparr>events := events v @ [e]\<rparr>"

text \<open>How a stage ends: it goes on, returns, jumps to one of the labels with an error, or reads out
  of bounds.\<close>

datatype sfx_exit =
    Continue
  | Return int
  | Fail u32
  | Undefined
  | FailNoTemp u32

type_synonym stage = "sfx_vars \<Rightarrow> sfx_exit \<times> sfx_vars"

definition andthen :: "stage \<Rightarrow> stage \<Rightarrow> stage" where
  "andthen f g v = (case f v of (Continue, v) \<Rightarrow> g v | r \<Rightarrow> r)"

section \<open>The stages\<close>

definition open_self :: "sfx_world \<Rightarrow> stage" where
  "open_self w v =
     (case module_error w of
        Some e \<Rightarrow> (Return 2, emit (ShowError e) v)
      | None \<Rightarrow>
          (case open_error w of
             Some e \<Rightarrow> (Return 3, emit (ShowError e) v)
           | None \<Rightarrow> (Continue, emit (Acquire InputFile) (v\<lparr>input_open := True\<rparr>))))"

text \<open>
  \<open>SetFilePointer\<close> with a 32-bit distance and no high word: a position that is negative or
  does not fit is an error, and so is \<open>0xFFFFFFFF\<close>, which the program takes for one.
\<close>

definition set_file_pointer :: "int \<Rightarrow> sfx_vars \<Rightarrow> u32 option \<times> sfx_vars" where
  "set_file_pointer pos v =
     (if pos < 0 then (Some ERROR_NEGATIVE_SEEK, v)
      else if pos \<ge> 0xFFFFFFFF then (Some ERROR_INVALID_PARAMETER, v)
      else (None, v\<lparr>input_pos := nat pos\<rparr>))"

text \<open>\<open>ReadFile\<close>: an error, or the bytes that are there.\<close>

definition read_input :: "sfx_world \<Rightarrow> nat \<Rightarrow> sfx_vars \<Rightarrow> (u32 + u8 list) \<times> sfx_vars" where
  "read_input w n v =
     (case read_error w (input_pos v) of
        Some e \<Rightarrow> (Inl e, v)
      | None \<Rightarrow>
          let bs = take n (drop (input_pos v) (self_image w)) in
            (Inr bs, v\<lparr>input_pos := input_pos v + length bs\<rparr>))"

definition load_footer :: "sfx_world \<Rightarrow> stage" where
  "load_footer w v =
     (let file_size = (of_nat (length (self_image w)) :: u32) in
        if file_size = INVALID_FILE_SIZE \<or> file_size < of_nat FOOTER_SIZE
        then (Fail ERROR_BAD_FORMAT, v)
        else
          case set_file_pointer (int (length (self_image w)) - int FOOTER_SIZE) v of
            (Some _, v) \<Rightarrow> (Fail ERROR_BAD_FORMAT, v)
          | (None, v) \<Rightarrow>
              (case read_input w FOOTER_SIZE v of
                 (Inl _, v) \<Rightarrow> (Fail ERROR_BAD_FORMAT, v)
               | (Inr bs, v) \<Rightarrow>
                   if length bs \<noteq> FOOTER_SIZE then (Fail ERROR_BAD_FORMAT, v)
                   else (case check_footer file_size (read_footer bs) of
                           Inl e \<Rightarrow> (Fail e, v)
                         | Inr footer \<Rightarrow> (Continue, v\<lparr>footer_var := footer\<rparr>))))"

definition close_input :: "sfx_vars \<Rightarrow> sfx_vars" where
  "close_input v = emit (Release InputFile) v"

text \<open>\<open>choose_destination\<close>: the library is freed on every path that loaded it.\<close>

definition choose_destination :: "sfx_world \<Rightarrow> sfx_vars \<Rightarrow> bool \<times> sfx_vars" where
  "choose_destination w v =
     (if \<not> shell_loads w then (False, v)
      else
        let v = emit (Acquire ShellDll) v in
          if \<not> shell_procs w then (False, emit (Release ShellDll) v)
          else (case picked_folder w of
                  None \<Rightarrow> (False, emit (Release ShellDll) v)
                | Some path \<Rightarrow> (True, emit (Release ShellDll) (v\<lparr>selected_var := path\<rparr>))))"

definition confirm_and_choose :: "sfx_world \<Rightarrow> stage" where
  "confirm_and_choose w v =
     (if \<not> start_confirmed w then (Return 0, close_input v)
      else case choose_destination w v of
        (False, v) \<Rightarrow> (Return 0, close_input v)
      | (True, v) \<Rightarrow> (Continue, v))"

text \<open>
  The destination directory. \<open>destination[lstrlenA(destination) - 1]\<close> looks at the last
  character, so an empty selection is undefined, as is the over-read of
  \<open>ensure_directory_tree\<close>.
\<close>

definition prepare_destination :: "sfx_world \<Rightarrow> stage" where
  "prepare_destination w v =
     (let folder = c_string (folder_name (footer_var v)) in
        if length (selected_var v) + 1 + length folder \<ge> MAX_PATH
        then (Fail ERROR_FILENAME_EXCED_RANGE, v)
        else if selected_var v = [] then (Undefined, v)
        else
          let v = v\<lparr>destination_var := target_path (selected_var v) folder\<rparr> in
            if destination_var v \<in> existing (fs_var v) \<and> \<not> overwrite_confirmed w
            then (Return 0, close_input v)
            else case ensure_directory_tree (file_system w) (destination_var v) (fs_var v) of
                None \<Rightarrow> (Undefined, v)
              | Some (ok, fs) \<Rightarrow>
                  let v = v\<lparr>fs_var := fs\<rparr> in
                    if ok then (Continue, v) else (Fail (last_error fs), v))"

definition create_temp :: "sfx_world \<Rightarrow> stage" where
  "create_temp w v =
     (case temp_error w of
        Some e \<Rightarrow> (Fail e, v)
      | None \<Rightarrow>
          let v = emit (Acquire TempFile) (v\<lparr>temp_cab_set := True\<rparr>) in
            case output_error w of
              Some e \<Rightarrow> (Fail e, v)
            | None \<Rightarrow>
                let v = emit (Acquire OutputFile) (v\<lparr>output_open := True\<rparr>) in
                  if \<not> heap_available w then (Fail ERROR_NOT_ENOUGH_MEMORY, v)
                  else (Continue, emit (Acquire CopyBuffer) (v\<lparr>buffer_set := True\<rparr>)))"

text \<open>\<open>WriteFile\<close> at the end of the temporary file; an error, or everything is written.\<close>

definition write_output :: "sfx_world \<Rightarrow> u8 list \<Rightarrow> sfx_vars \<Rightarrow> u32 option \<times> sfx_vars" where
  "write_output w bs v =
     (case write_error w (length (temp_data v)) of
        Some e \<Rightarrow> (Some e, v)
      | None \<Rightarrow> (None, v\<lparr>temp_data := temp_data v @ bs\<rparr>))"

text \<open>
  The loop that copies the payload: at most 65536 bytes a round, folded into the checksum
  before they are written. A round that does not get every byte it asked for fails with the
  last error, or with a read or write fault when there is none.
\<close>

function copy_loop :: "sfx_world \<Rightarrow> u32 \<Rightarrow> u32 \<Rightarrow> sfx_vars \<Rightarrow> (u32 + u32) \<times> sfx_vars" where
  "copy_loop w remaining crc v =
     (if remaining = 0 then (Inr crc, v)
      else
        let request = (if remaining > COPY_BUFFER_SIZE then COPY_BUFFER_SIZE else remaining) in
          case read_input w (unat request) v of
            (Inl e, v) \<Rightarrow> (Inl (if e = 0 then ERROR_READ_FAULT else e), v)
          | (Inr bs, v) \<Rightarrow>
              if length bs \<noteq> unat request then (Inl (if short_read_error w = 0 then ERROR_READ_FAULT else short_read_error w), v)
              else
                let crc = update_crc32 init_crc32 crc bs in
                  case write_output w bs v of
                    (Some e, v) \<Rightarrow> (Inl (if e = 0 then ERROR_WRITE_FAULT else e), v)
                  | (None, v) \<Rightarrow> copy_loop w (remaining - of_nat (length bs)) crc v)"
  by pat_completeness auto

termination
proof (relation "measure (\<lambda>(w, remaining, crc, v). unat remaining)")
  fix w and remaining crc :: u32 and v :: sfx_vars and request bs
  assume "remaining \<noteq> 0"
    and "request = (if remaining > COPY_BUFFER_SIZE then COPY_BUFFER_SIZE else remaining)"
    and "\<not> length (bs :: u8 list) \<noteq> unat request"
  then have "0 < length bs" and le: "length bs \<le> unat remaining"
    by (auto simp: word_less_nat_alt unat_gt_0 split: if_splits)
  with unat_minus_of_nat [OF le]
  show "((w, remaining - of_nat (length bs), c, v'), (w, remaining, crc, v))
      \<in> measure (\<lambda>(w, remaining, crc, v). unat remaining)" for c v'
    by (cases bs) auto
qed simp

declare copy_loop.simps [simp del]

definition copy_payload :: "sfx_world \<Rightarrow> stage" where
  "copy_payload w v =
     (let file_size = (of_nat (length (self_image w)) :: u32);
          payload_offset = sint (file_size - of_nat FOOTER_SIZE - payload_size (footer_var v)) in
        case set_file_pointer payload_offset v of
          (Some e, v) \<Rightarrow> (Fail e, v)
        | (None, v) \<Rightarrow>
            (case copy_loop w (payload_size (footer_var v)) 0xFFFFFFFF v of
               (Inl e, v) \<Rightarrow> (Fail e, v)
             | (Inr crc, v) \<Rightarrow>
                 let v = emit (Release OutputFile) (v\<lparr>output_open := False\<rparr>);
                     v = emit (Release InputFile) (v\<lparr>input_open := False\<rparr>);
                     v = emit (Release CopyBuffer) (v\<lparr>buffer_set := False\<rparr>) in
                   if crc XOR 0xFFFFFFFF \<noteq> payload_crc32 (footer_var v) then (Fail ERROR_CRC, v)
                   else (Continue, v)))"

text \<open>
  The cabinet reader over the temporary file. \<open>setupapi\<close> is released inside the stage, or by
  the label when the entry point is missing; \<open>setupapi_loaded\<close> says which.
\<close>

definition extract_cabinet :: "sfx_world \<Rightarrow> stage" where
  "extract_cabinet w v =
     (case setupapi_error w of
        Some e \<Rightarrow> (Fail e, v)
      | None \<Rightarrow>
          let v = emit (Acquire SetupApi) v in
            case proc_error w of
              Some e \<Rightarrow> (Fail e, v\<lparr>setupapi_loaded := True\<rparr>)
            | None \<Rightarrow>
                let context = empty_context (take (MAX_PATH - 1) (destination_var v));
                    (notifications, iterated, e) = cabinet_reader w (temp_data v) in
                  case iterate_cabinet (file_system w) notifications (context, fs_var v) of
                    None \<Rightarrow> (Undefined, v)
                  | Some (_, context, fs) \<Rightarrow>
                      let v = emit (Release SetupApi) (v\<lparr>fs_var := fs\<rparr>);
                          v = emit (Release TempFile) (v\<lparr>temp_cab_set := False\<rparr>) in
                        if \<not> iterated \<or> failed context \<noteq> 0
                        then
                          let error = (if failed context \<noteq> 0 then failed context else e) in
                            (FailNoTemp (if error = 0 then ERROR_INVALID_DATA else error), v)
                        else
                          (Return 0,
                           emit (ShowDone (files_extracted context) (destination_var v)) v))"

section \<open>The labels and the whole program\<close>

definition cleanup :: "sfx_vars \<Rightarrow> sfx_vars" where
  "cleanup v =
     (let v = (if output_open v then emit (Release OutputFile) v else v);
          v = (if input_open v then emit (Release InputFile) v else v);
          v = (if buffer_set v then emit (Release CopyBuffer) v else v);
          v = (if setupapi_loaded v then emit (Release SetupApi) v else v) in
        if temp_cab_set v then emit (Release TempFile) v else v)"

text \<open>\<open>None\<close> is an out-of-bounds read.\<close>

definition finish :: "sfx_exit \<times> sfx_vars \<Rightarrow> (int \<times> sfx_vars) option" where
  "finish r =
     (case r of
        (Continue, v) \<Rightarrow> Some (0, v)
      | (Return n, v) \<Rightarrow> Some (n, v)
      | (Fail e, v) \<Rightarrow> Some (1, emit (ShowError e) (cleanup v))
      | (FailNoTemp e, v) \<Rightarrow> Some (1, emit (ShowError e) v)
      | (Undefined, v) \<Rightarrow> None)"

definition main_stages :: "sfx_world \<Rightarrow> stage" where
  "main_stages w =
     andthen (open_self w)
     (andthen (load_footer w)
     (andthen (confirm_and_choose w)
     (andthen (prepare_destination w)
     (andthen (create_temp w)
     (andthen (copy_payload w)
       (extract_cabinet w))))))"

definition WinMain :: "sfx_world \<Rightarrow> (int \<times> sfx_vars) option" where
  "WinMain w = finish (main_stages w (initial_vars w))"

section \<open>The copy loop\<close>

text \<open>The bytes that a round adds are those at the position of the input.\<close>

lemma read_input_Inr:
  assumes "read_input w n v = (Inr bs, v')"
  shows "bs = take n (drop (input_pos v) (self_image w)) \<and>
    v' = v\<lparr>input_pos := input_pos v + length bs\<rparr> \<and> read_error w (input_pos v) = None"
  using assms by (auto simp: read_input_def Let_def split: option.splits)

lemma write_output_None:
  assumes "write_output w bs v = (None, v')"
  shows "v' = v\<lparr>temp_data := temp_data v @ bs\<rparr>"
  using assms by (auto simp: write_output_def split: option.splits)

definition copies :: "sfx_vars \<Rightarrow> sfx_vars \<Rightarrow> bool" where
  "copies v v' \<longleftrightarrow> v' = v\<lparr>input_pos := input_pos v', temp_data := temp_data v'\<rparr>"

lemma copies_frame:
  assumes "copies v v'"
  shows "input_open v' = input_open v \<and> output_open v' = output_open v \<and>
    buffer_set v' = buffer_set v \<and> setupapi_loaded v' = setupapi_loaded v \<and>
    temp_cab_set v' = temp_cab_set v \<and> footer_var v' = footer_var v \<and>
    selected_var v' = selected_var v \<and> destination_var v' = destination_var v \<and>
    fs_var v' = fs_var v \<and> events v' = events v"
  using assms by (cases v, cases v') (simp add: copies_def)

text \<open>A round, unfolded: what it copies, or its error.\<close>

definition chunk :: "u32 \<Rightarrow> u32" where
  "chunk remaining = (if remaining > COPY_BUFFER_SIZE then COPY_BUFFER_SIZE else remaining)"

lemma copy_loop_cases:
  assumes "copy_loop w remaining crc v = (r, v')"
  obtains (done_) "remaining = 0" "r = Inr crc" "v' = v"
  | (failed_) e where "r = Inl e" "e \<noteq> 0" "copies v v'"
  | (round) bs where "remaining \<noteq> 0" "length bs = unat (chunk remaining)"
      "bs = take (unat (chunk remaining)) (drop (input_pos v) (self_image w))"
      "copy_loop w (remaining - of_nat (length bs)) (update_crc32 init_crc32 crc bs)
         (v\<lparr>input_pos := input_pos v + length bs, temp_data := temp_data v @ bs\<rparr>) = (r, v')"
proof (cases "remaining = 0")
  case True
  with assms show ?thesis by (intro done_) (simp_all add: copy_loop.simps [of w 0])
next
  case False
  obtain x v1 where rd: "read_input w (unat (chunk remaining)) v = (x, v1)" by force
  show ?thesis
  proof (cases x)
    case (Inl e)
    then show ?thesis using assms False rd
      by (intro failed_ [of "if e = 0 then ERROR_READ_FAULT else e"]) (auto simp: copy_loop.simps [of w remaining] chunk_def [symmetric] copies_def
          read_input_def Let_def split: option.splits if_splits)
  next
    case (Inr bs)
    note bs = read_input_Inr [OF rd [unfolded Inr]]
    show ?thesis
    proof (cases "length bs = unat (chunk remaining)")
      case short: False
      then show ?thesis using assms False rd Inr bs
        by (intro failed_ [of "if short_read_error w = 0 then ERROR_READ_FAULT else short_read_error w"])
            (auto simp: copy_loop.simps [of w remaining] chunk_def [symmetric]
            copies_def Let_def split: if_splits)
    next
      case full: True
      obtain y v2 where wr: "write_output w bs v1 = (y, v2)" by force
      show ?thesis
      proof (cases y)
        case (Some e)
        then have "v2 = v1" using wr by (auto simp: write_output_def split: option.splits)
        then show ?thesis using assms False rd Inr bs full wr Some
          by (intro failed_ [of "if e = 0 then ERROR_WRITE_FAULT else e"])
            (auto simp: copy_loop.simps [of w remaining] chunk_def [symmetric]
              copies_def Let_def split: if_splits)
      next
        case None
        have "copy_loop w (remaining - of_nat (length bs)) (update_crc32 init_crc32 crc bs) v2 = (r, v')"
          using assms False rd Inr full wr None
          by (simp add: copy_loop.simps [of w remaining] chunk_def [symmetric] Let_def)
        then show ?thesis using round [OF False full] bs write_output_None [OF wr [unfolded None]] by simp
      qed
    qed
  qed
qed

lemma copies_refl [simp]: "copies v v"
  by (simp add: copies_def)

lemma copies_round:
  "copies (v\<lparr>input_pos := p, temp_data := d\<rparr>) v' \<Longrightarrow> copies v v'"
  by (simp add: copies_def)

lemma chunk_bounds: "r \<noteq> 0 \<Longrightarrow> 0 < unat (chunk r) \<and> unat (chunk r) \<le> unat r"
  by (auto simp: chunk_def word_less_nat_alt unat_gt_0)

lemma copy_round_measure:
  assumes "r \<noteq> 0" and "length bs = unat (chunk r)"
  shows "unat (r - of_nat (length bs)) = unat r - length bs \<and>
    unat (r - of_nat (length bs)) < unat r"
  using chunk_bounds [OF assms(1)] unat_minus_of_nat [of "length bs" r] assms(2) by simp

lemma copy_loop_effect:
  assumes "copy_loop w remaining crc v = (r, v')"
  shows "copies v v' \<and> (\<forall>e. r = Inl e \<longrightarrow> e \<noteq> 0) \<and>
    (\<forall>crc'. r = Inr crc' \<longrightarrow>
      (let bs = take (unat remaining) (drop (input_pos v) (self_image w)) in
         length bs = unat remaining \<and> temp_data v' = temp_data v @ bs \<and>
         crc' = update_crc32 init_crc32 crc bs))"
  using assms
proof (induction "unat remaining" arbitrary: remaining crc v rule: less_induct)
  case less
  from less.prems show ?case
  proof (cases rule: copy_loop_cases)
    case (round bs)
    let ?v = "v\<lparr>input_pos := input_pos v + length bs, temp_data := temp_data v @ bs\<rparr>"
    let ?rest = "remaining - of_nat (length bs)"
    note m = copy_round_measure [OF round(1,2)]
    note ih = less.hyps [OF m [THEN conjunct2] round(4)]
    have n: "unat remaining = length bs + unat ?rest"
      using m chunk_bounds [OF round(1)] round(2) by simp
    have img: "take (unat remaining) (drop (input_pos v) (self_image w)) =
        bs @ take (unat ?rest) (drop (input_pos ?v) (self_image w))"
      using round(2,3) unfolding n by (simp add: take_add add.commute)
    show ?thesis using ih n copies_round
      unfolding img by (auto simp: Let_def crc.fold_in_append)
  qed simp_all
qed

text \<open>Without faults, and when the image has the bytes, the loop comes to its end.\<close>

lemma copy_loop_ends:
  assumes "\<And>p. read_error w p = None" and "\<And>p. write_error w p = None"
    and "input_pos v + unat remaining \<le> length (self_image w)"
  shows "\<exists>crc'. fst (copy_loop w remaining crc v) = Inr crc'"
  using assms(3)
proof (induction "unat remaining" arbitrary: remaining crc v rule: less_induct)
  case less
  show ?case
  proof (cases "remaining = 0")
    case True
    then show ?thesis by (simp add: copy_loop.simps [of w 0])
  next
    case False
    let ?bs = "take (unat (chunk remaining)) (drop (input_pos v) (self_image w))"
    have len: "length ?bs = unat (chunk remaining)"
      using less.prems chunk_bounds [OF False] by (simp only: length_take length_drop) linarith
    note m = copy_round_measure [OF False len]
    have "copy_loop w remaining crc v =
        copy_loop w (remaining - of_nat (length ?bs)) (update_crc32 init_crc32 crc ?bs)
          (v\<lparr>input_pos := input_pos v + length ?bs, temp_data := temp_data v @ ?bs\<rparr>)"
      using False len assms(1,2)
      by (simp add: copy_loop.simps [of w remaining] chunk_def [symmetric] read_input_def
          write_output_def Let_def)
    moreover have "\<exists>crc'. fst (copy_loop w (remaining - of_nat (length ?bs))
        (update_crc32 init_crc32 crc ?bs)
        (v\<lparr>input_pos := input_pos v + length ?bs, temp_data := temp_data v @ ?bs\<rparr>)) = Inr crc'"
      using less.prems m chunk_bounds [OF False] len
      by (intro less.hyps) (simp_all del: length_take)
    ultimately show ?thesis by (simp only:)
  qed
qed

section \<open>Rules for stages\<close>

text \<open>From \<open>P\<close>, going on establishes \<open>Q\<close> and any other end satisfies \<open>E\<close>.\<close>

definition stage_triple ::
  "(sfx_vars \<Rightarrow> bool) \<Rightarrow> stage \<Rightarrow> (sfx_vars \<Rightarrow> bool) \<Rightarrow> (sfx_exit \<Rightarrow> sfx_vars \<Rightarrow> bool) \<Rightarrow> bool" where
  "stage_triple P f Q E \<longleftrightarrow>
     (\<forall>v x v'. P v \<longrightarrow> f v = (x, v') \<longrightarrow> (if x = Continue then Q v' else E x v'))"

lemma stage_tripleI:
  "(\<And>v x v'. P v \<Longrightarrow> f v = (x, v') \<Longrightarrow> if x = Continue then Q v' else E x v') \<Longrightarrow>
   stage_triple P f Q E"
  by (simp add: stage_triple_def)

lemma stage_triple_andthen:
  assumes "stage_triple P f Q E" and "stage_triple Q g R E"
  shows "stage_triple P (andthen f g) R E"
proof (rule stage_tripleI)
  fix v x v' assume "P v" "andthen f g v = (x, v')"
  moreover obtain y u where y: "f v = (y, u)" by force
  ultimately show "if x = Continue then R v' else E x v'"
    using assms unfolding stage_triple_def andthen_def
    by (cases y) (auto split: if_splits)
qed

lemma stage_tripleD:
  "stage_triple P f Q E \<Longrightarrow> P v \<Longrightarrow> f v = (x, v') \<Longrightarrow> if x = Continue then Q v' else E x v'"
  by (simp add: stage_triple_def)

section \<open>The phases of a run\<close>

text \<open>The footer that the checks let through, and the payload it describes.\<close>

definition checked_footer :: "sfx_world \<Rightarrow> sfx_footer \<Rightarrow> bool" where
  "checked_footer w f \<longleftrightarrow>
     (let img = self_image w in
        FOOTER_SIZE \<le> length img \<and> length img < 2 ^ 32 \<and>
        check_footer (of_nat (length img)) (read_footer (drop (length img - FOOTER_SIZE) img)) = Inr f)"

definition payload_of :: "sfx_world \<Rightarrow> sfx_footer \<Rightarrow> u8 list" where
  "payload_of w f =
     (let n = unat (payload_size f) in
        take n (drop (length (self_image w) - FOOTER_SIZE - n) (self_image w)))"

definition flags :: "sfx_vars \<Rightarrow> bool list" where
  "flags v = [input_open v, output_open v, buffer_set v, setupapi_loaded v, temp_cab_set v]"

abbreviation after_choice :: "sfx_event list" where
  "after_choice \<equiv> [Acquire InputFile, Acquire ShellDll, Release ShellDll]"

abbreviation after_temp :: "sfx_event list" where
  "after_temp \<equiv> after_choice @ [Acquire TempFile, Acquire OutputFile, Acquire CopyBuffer]"

abbreviation after_copy :: "sfx_event list" where
  "after_copy \<equiv> after_temp @ [Release OutputFile, Release InputFile, Release CopyBuffer]"

definition opened :: "sfx_world \<Rightarrow> sfx_vars \<Rightarrow> bool" where
  "opened w v \<longleftrightarrow> flags v = [True, False, False, False, False] \<and>
     events v = [Acquire InputFile] \<and> temp_data v = []"

definition checked :: "sfx_world \<Rightarrow> sfx_vars \<Rightarrow> bool" where
  "checked w v \<longleftrightarrow> opened w v \<and> checked_footer w (footer_var v)"

definition chosen :: "sfx_world \<Rightarrow> sfx_vars \<Rightarrow> bool" where
  "chosen w v \<longleftrightarrow> flags v = [True, False, False, False, False] \<and> events v = after_choice \<and>
     temp_data v = [] \<and> checked_footer w (footer_var v) \<and> picked_folder w = Some (selected_var v)"

definition prepared :: "sfx_world \<Rightarrow> sfx_vars \<Rightarrow> bool" where
  "prepared w v \<longleftrightarrow> chosen w v \<and> selected_var v \<noteq> [] \<and> length (destination_var v) < MAX_PATH \<and>
     destination_var v = target_path (selected_var v) (c_string (folder_name (footer_var v)))"

definition staged :: "sfx_world \<Rightarrow> sfx_vars \<Rightarrow> bool" where
  "staged w v \<longleftrightarrow> flags v = [True, True, True, False, True] \<and> events v = after_temp \<and>
     temp_data v = [] \<and> checked_footer w (footer_var v) \<and> picked_folder w = Some (selected_var v) \<and>
     selected_var v \<noteq> [] \<and> length (destination_var v) < MAX_PATH \<and>
     destination_var v = target_path (selected_var v) (c_string (folder_name (footer_var v)))"

definition copied :: "sfx_world \<Rightarrow> sfx_vars \<Rightarrow> bool" where
  "copied w v \<longleftrightarrow> flags v = [False, False, False, False, True] \<and> events v = after_copy \<and>
     temp_data v = payload_of w (footer_var v) \<and>
     builder_crc32 (temp_data v) = payload_crc32 (footer_var v) \<and>
     checked_footer w (footer_var v) \<and> picked_folder w = Some (selected_var v) \<and>
     selected_var v \<noteq> [] \<and> length (destination_var v) < MAX_PATH \<and>
     destination_var v = target_path (selected_var v) (c_string (folder_name (footer_var v)))"

section \<open>What holds at the end\<close>

text \<open>
  Every resource is acquired at most once and released exactly once after that, and the
  temporary file is deleted only after its handle is closed.
\<close>

definition tidy :: "sfx_event list \<Rightarrow> bool" where
  "tidy evs \<longleftrightarrow>
     (\<forall>r. filter (\<lambda>e. e = Acquire r \<or> e = Release r) evs \<in> {[], [Acquire r, Release r]}) \<and>
     Release OutputFile \<notin> set (dropWhile (\<lambda>e. e \<noteq> Release TempFile) evs)"

definition reports :: "sfx_event list \<Rightarrow> sfx_event list" where
  "reports evs = filter (\<lambda>e. case e of ShowError _ \<Rightarrow> True | ShowDone _ _ \<Rightarrow> True | _ \<Rightarrow> False) evs"

text \<open>A reported success: a payload with the right checksum, every file of it extracted.\<close>

definition extraction_succeeded :: "sfx_world \<Rightarrow> sfx_vars \<Rightarrow> u32 \<Rightarrow> string \<Rightarrow> bool" where
  "extraction_succeeded w v n dest \<longleftrightarrow>
     (\<exists>f sel ns e answers context fs0 fs1.
        checked_footer w f \<and> picked_folder w = Some sel \<and>
        dest = target_path sel (c_string (folder_name f)) \<and> length dest < MAX_PATH \<and>
        temp_data v = payload_of w f \<and> builder_crc32 (payload_of w f) = payload_crc32 f \<and>
        cabinet_reader w (payload_of w f) = (ns, True, e) \<and>
        iterate_cabinet (file_system w) ns (empty_context dest, fs0) = Some (answers, context, fs1) \<and>
        all_accepted (empty_context dest) ns answers \<and> n = of_nat (extracted_count ns))"

definition good_exit :: "sfx_world \<Rightarrow> sfx_exit \<Rightarrow> sfx_vars \<Rightarrow> bool" where
  "good_exit w x v \<longleftrightarrow>
     (case finish (x, v) of
        None \<Rightarrow> (\<exists>sel. picked_folder w = Some sel \<and> length sel < 2)
      | Some (exit_code, v') \<Rightarrow>
          exit_code \<in> {0, 1, 2, 3} \<and> tidy (events v') \<and>
          (if exit_code = 0
           then reports (events v') = [] \<or>
             (\<exists>n dest. reports (events v') = [ShowDone n dest] \<and> extraction_succeeded w v' n dest)
           else \<exists>e. reports (events v') = [ShowError e]))"

lemma resource_all: "(\<forall>r. P r) \<longleftrightarrow>
    P InputFile \<and> P OutputFile \<and> P CopyBuffer \<and> P SetupApi \<and> P ShellDll \<and> P TempFile"
  by (metis resource.exhaust)

lemmas exit_simps = good_exit_def finish_def cleanup_def emit_def flags_def tidy_def reports_def
  resource_all close_input_def

lemma open_self_rule: "stage_triple (\<lambda>v. v = initial_vars w) (open_self w) (opened w) (good_exit w)"
  by (rule stage_tripleI)
    (auto simp: open_self_def opened_def exit_simps initial_vars_def split: option.splits)

lemma failed_early: "opened w v \<Longrightarrow> good_exit w (Fail e) v"
  by (auto simp: opened_def exit_simps Let_def)

lemma failed_chosen: "chosen w v \<Longrightarrow> good_exit w (Fail e) v"
  by (auto simp: chosen_def exit_simps Let_def)

lemma failed_staged: "staged w v \<Longrightarrow> good_exit w (Fail e) v"
  by (auto simp: staged_def exit_simps Let_def)

lemma closed_early: "opened w v \<Longrightarrow> good_exit w (Return 0) (close_input v)"
  by (auto simp: opened_def exit_simps)

lemma closed_chosen: "chosen w v \<Longrightarrow> good_exit w (Return 0) (close_input v)"
  by (auto simp: chosen_def exit_simps)

lemma opened_pos [simp]:
  "opened w (v\<lparr>input_pos := p\<rparr>) = opened w v" "opened w (v\<lparr>footer_var := f\<rparr>) = opened w v"
  by (simp_all add: opened_def flags_def)

lemma load_footer_rule: "stage_triple (opened w) (load_footer w) (checked w) (good_exit w)"
proof (rule stage_tripleI)
  fix v x v' assume *: "opened w v" "load_footer w v = (x, v')"
  let ?size = "of_nat (length (self_image w)) :: u32"
  have len: "FOOTER_SIZE \<le> length (self_image w) \<and> length (self_image w) < 2 ^ 32"
    if "\<not> ?size < of_nat FOOTER_SIZE" "\<not> int (length (self_image w)) - int FOOTER_SIZE \<ge> 0xFFFFFFFF"
  proof -
    have size: "unat ?size = length (self_image w) mod 2 ^ 32"
      by (simp add: unat_of_nat take_bit_eq_mod)
    then have *: "208 \<le> length (self_image w) mod 2 ^ 32" using that(1) by (simp add: word_less_nat_alt)
    have "\<not> 2 ^ 32 \<le> length (self_image w)"
    proof
      assume big: "2 ^ 32 \<le> length (self_image w)"
      have "length (self_image w) < 2 ^ 32 + 208" using that(2) by simp
      with big have "length (self_image w) mod 2 ^ 32 = length (self_image w) - 2 ^ 32"
        by (simp add: mod_if)
      with * \<open>length (self_image w) < 2 ^ 32 + 208\<close> show False by simp
    qed
    with * show ?thesis by simp
  qed
  show "if x = Continue then checked w v' else good_exit w x v'"
    using * len
    by (auto simp: load_footer_def Let_def set_file_pointer_def read_input_def checked_def
        checked_footer_def failed_early nat_diff_distrib
        split: if_splits option.splits sum.splits)
qed

lemma confirm_and_choose_rule:
  "stage_triple (checked w) (confirm_and_choose w) (chosen w) (good_exit w)"
proof (rule stage_tripleI)
  fix v x v' assume *: "checked w v" "confirm_and_choose w v = (x, v')"
  then have o: "opened w v" by (simp add: checked_def)
  show "if x = Continue then chosen w v' else good_exit w x v'"
    using * closed_early [OF o]
    by (auto simp: confirm_and_choose_def choose_destination_def Let_def chosen_def checked_def
        opened_def exit_simps split: if_splits option.splits)
qed

lemma checked_folder:
  assumes "checked_footer w f"
  shows "c_string (folder_name f) \<noteq> [] \<and> (\<forall>c \<in> set (c_string (folder_name f)). \<not> is_sep c) \<and>
    safe_relative_name (Some (c_string (folder_name f)))"
proof -
  let ?bs = "drop (length (self_image w) - FOOTER_SIZE) (self_image w)"
  have len: "length ?bs = FOOTER_SIZE" using assms by (simp add: checked_footer_def Let_def)
  have c: "check_footer (of_nat (length (self_image w))) (read_footer ?bs) = Inr f"
    using assms by (simp add: checked_footer_def Let_def)
  have "safe_relative_name (Some (c_string (folder_name f)))" "\<forall>c \<in> set (c_string (folder_name f)). \<not> is_sep c"
    using check_footer_names [OF c len] by blast+
  then show ?thesis by (auto simp: safe_relative_name_def)
qed

lemma chosen_fs [simp]: "chosen w (v\<lparr>fs_var := fs, destination_var := d\<rparr>) = chosen w v"
  "chosen w (v\<lparr>fs_var := fs\<rparr>) = chosen w v" "chosen w (v\<lparr>destination_var := d\<rparr>) = chosen w v"
  by (simp_all add: chosen_def flags_def)

lemma prepare_destination_rule:
  "stage_triple (chosen w) (prepare_destination w) (prepared w) (good_exit w)"
proof (rule stage_tripleI)
  fix v x v' assume c: "chosen w v" and p: "prepare_destination w v = (x, v')"
  let ?folder = "c_string (folder_name (footer_var v))"
  let ?dest = "target_path (selected_var v) ?folder"
  have sel: "picked_folder w = Some (selected_var v)" and cf: "checked_footer w (footer_var v)"
    using c by (simp_all add: chosen_def)
  have undef: "good_exit w Undefined u" if "length (selected_var v) < 2" for u
    using sel that by (auto simp: good_exit_def finish_def)
  have short: "length (selected_var v) < 2" if "ensure_directory_tree env ?dest fs = None" for env fs
  proof -
    have "length ?dest < 3" using that by (auto simp: ensure_directory_tree_def split: if_splits)
    moreover have "0 < length ?folder" using checked_folder [OF cf] by simp
    ultimately show ?thesis unfolding target_path_def by (simp split: if_splits; linarith)
  qed
  consider "length (selected_var v) + 1 + length ?folder \<ge> MAX_PATH"
    | "\<not> length (selected_var v) + 1 + length ?folder \<ge> MAX_PATH" "selected_var v = []"
    | "\<not> length (selected_var v) + 1 + length ?folder \<ge> MAX_PATH" "selected_var v \<noteq> []"
    by blast
  then show "if x = Continue then prepared w v' else good_exit w x v'"
  proof cases
    case 1
    then show ?thesis using p failed_chosen [OF c] by (auto simp: prepare_destination_def Let_def)
  next
    case 2
    then show ?thesis using p undef by (auto simp: prepare_destination_def Let_def)
  next
    case 3
    then have len: "length ?dest < MAX_PATH" by (simp add: target_path_def)
    have closed: "good_exit w (Return 0) (close_input (v\<lparr>destination_var := ?dest\<rparr>))"
      using c by (intro closed_chosen) simp
    have failed: "good_exit w (Fail e) (v\<lparr>destination_var := ?dest, fs_var := fs\<rparr>)" for e fs
      using c by (intro failed_chosen) simp
    have goes: "prepared w (v\<lparr>destination_var := ?dest, fs_var := fs\<rparr>)" for fs
      using c 3(2) len by (simp add: prepared_def)
    show ?thesis using p 3
      unfolding prepare_destination_def Let_def
      by (auto simp: closed failed goes undef dest: short split: if_splits option.splits)
  qed
qed

lemma create_temp_rule: "stage_triple (prepared w) (create_temp w) (staged w) (good_exit w)"
  by (rule stage_tripleI)
    (auto simp: create_temp_def prepared_def chosen_def staged_def exit_simps Let_def
      split: if_splits option.splits)

text \<open>The offset of the payload is exact when it is not negative as a 32-bit number.\<close>

lemma checked_offset:
  fixes f :: sfx_footer
  assumes "checked_footer w f"
  defines "off \<equiv> of_nat (length (self_image w)) - of_nat FOOTER_SIZE - payload_size f :: u32"
  shows "unat off = length (self_image w) - FOOTER_SIZE - unat (payload_size f) \<and>
    unat off + unat (payload_size f) + FOOTER_SIZE = length (self_image w)"
proof -
  let ?size = "of_nat (length (self_image w)) :: u32"
  have l: "unat ?size = length (self_image w)" "208 \<le> length (self_image w)"
    using assms(1) by (simp_all add: checked_footer_def Let_def unat_of_nat_small)
  have c: "check_footer ?size (read_footer (drop (length (self_image w) - FOOTER_SIZE) (self_image w)))
      = Inr f" using assms(1) by (simp add: checked_footer_def Let_def)
  have "of_nat FOOTER_SIZE \<le> ?size" using l by (simp add: word_le_nat_alt)
  then have fits: "unat (payload_size f) + 208 \<le> length (self_image w)"
    using check_footer_sizes [OF c] unfolding l(1) by blast
  have a: "unat (?size - of_nat FOOTER_SIZE) = length (self_image w) - 208"
    using l by (subst unat_minus_of_nat) simp_all
  have "unat (?size - of_nat FOOTER_SIZE - of_nat (unat (payload_size f))) =
      length (self_image w) - 208 - unat (payload_size f)"
    using fits a by (subst unat_minus_of_nat) simp_all
  then show ?thesis using fits by (simp add: off_def)
qed

lemma sint_unat:
  assumes "0 \<le> sint (x :: u32)"
  shows "nat (sint x) = unat x"
proof -
  have "\<not> bit (uint x) 31" using assms by (simp add: sint_uint)
  then have "sint x = take_bit 32 (uint x)"
    by (simp add: sint_uint signed_take_bit_eq_take_bit_minus)
  also have "\<dots> = uint x" using uint_bounded [of x] by (simp add: take_bit_int_eq_self)
  finally show ?thesis by simp
qed

lemma copy_payload_rule: "stage_triple (staged w) (copy_payload w) (copied w) (good_exit w)"
proof (rule stage_tripleI)
  fix v x v' assume s: "staged w v" and p: "copy_payload w v = (x, v')"
  let ?f = "footer_var v"
  let ?off = "of_nat (length (self_image w)) - 208 - payload_size ?f :: u32"
  have cf: "checked_footer w ?f" using s by (simp add: staged_def)
  note off = checked_offset [OF cf, simplified]
  show "if x = Continue then copied w v' else good_exit w x v'"
  proof (cases "0 \<le> sint ?off \<and> sint ?off < 0xFFFFFFFF")
    case False
    then show ?thesis using p failed_staged [OF s]
      by (auto simp: copy_payload_def set_file_pointer_def Let_def)
  next
    case True
    then have pos: "nat (sint ?off) = unat ?off" using sint_unat by blast
    let ?v = "v\<lparr>input_pos := unat ?off\<rparr>"
    obtain r u where loop: "copy_loop w (payload_size ?f) 0xFFFFFFFF ?v = (r, u)" by force
    note eff = copy_loop_effect [OF loop]
    have frame: "copies ?v u" using eff by blast
    note fr = copies_frame [OF frame]
    have body: "copy_payload w v = (case (r, u) of (Inl e, v) \<Rightarrow> (Fail e, v)
        | (Inr crc, v) \<Rightarrow>
           (let v = emit (Release OutputFile) (v\<lparr>output_open := False\<rparr>);
                v = emit (Release InputFile) (v\<lparr>input_open := False\<rparr>);
                v = emit (Release CopyBuffer) (v\<lparr>buffer_set := False\<rparr>) in
             if crc XOR 0xFFFFFFFF \<noteq> payload_crc32 (footer_var v) then (Fail ERROR_CRC, v)
             else (Continue, v)))"
      using True pos by (simp add: copy_payload_def set_file_pointer_def Let_def not_less loop)
    show ?thesis
    proof (cases r)
      case (Inl e)
      then have "x = Fail e" "v' = u" using p body by simp_all
      then show ?thesis using s fr by (auto simp: staged_def exit_simps Let_def)
    next
      case (Inr crc)
      have data: "temp_data u = payload_of w ?f" and crc: "crc = update_crc32 init_crc32 0xFFFFFFFF (payload_of w ?f)"
        using eff Inr s off by (simp_all add: Let_def payload_of_def staged_def)
      have built: "crc XOR 0xFFFFFFFF = builder_crc32 (temp_data u)"
        by (simp add: crc data update_crc32_builder builder_crc32_def)
      show ?thesis
        using p body s fr data built unfolding Inr
        by (auto simp: staged_def copied_def exit_simps Let_def split: if_splits)
    qed
  qed
qed

lemma extract_cabinet_rule:
  "stage_triple (copied w) (extract_cabinet w) (\<lambda>_. False) (good_exit w)"
proof (rule stage_tripleI)
  fix v x v' assume c: "copied w v" and p: "extract_cabinet w v = (x, v')"
  let ?d = "destination_var v"
  have "length ?d < MAX_PATH" using c unfolding copied_def by blast
  then have d: "take 259 ?d = ?d" by (intro take_all) linarith
  have ev: "events v = after_copy" and fl: "flags v = [False, False, False, False, True]"
    using c unfolding copied_def by blast+
  obtain ns ok e where rd: "cabinet_reader w (temp_data v) = (ns, ok, e)" by (metis prod_cases3)
  obtain answers ctx fs where it: "iterate_cabinet (file_system w) ns (empty_context ?d, fs_var v) =
      Some (answers, ctx, fs)" using iterate_cabinet_defined by (metis not_Some_eq prod_cases3)
  note eff = iterate_cabinet_effect [OF it, simplified]
  consider "setupapi_error w \<noteq> None" | "setupapi_error w = None" "proc_error w \<noteq> None"
    | "setupapi_error w = None" "proc_error w = None" "\<not> ok \<or> failed ctx \<noteq> 0"
    | "setupapi_error w = None" "proc_error w = None" "ok" "failed ctx = 0" by blast
  then show "if x = Continue then False else good_exit w x v'"
  proof cases
    case 4
    have run: "extract_cabinet w v = (Return 0,
        emit (ShowDone (files_extracted ctx) ?d)
          (emit (Release TempFile) ((emit (Release SetupApi)
            ((emit (Acquire SetupApi) v)\<lparr>fs_var := fs\<rparr>))\<lparr>temp_cab_set := False\<rparr>)))"
      using d rd it 4 by (simp add: extract_cabinet_def emit_def)
    then have x: "x = Return 0" and u: "events v' = after_copy @ [Acquire SetupApi, Release SetupApi,
        Release TempFile, ShowDone (files_extracted ctx) ?d]" "temp_data v' = temp_data v"
      using p by (auto simp: ev emit_def)
    have "extraction_succeeded w v' (files_extracted ctx) ?d"
      unfolding extraction_succeeded_def
    proof (intro exI conjI)
      note cc = c [unfolded copied_def]
      show "checked_footer w (footer_var v)" "picked_folder w = Some (selected_var v)"
        "?d = target_path (selected_var v) (c_string (folder_name (footer_var v)))"
        "length ?d < MAX_PATH" using cc by blast+
      have data: "temp_data v = payload_of w (footer_var v)" using cc by blast
      then show "temp_data v' = payload_of w (footer_var v)" using u(2) by simp
      show "builder_crc32 (payload_of w (footer_var v)) = payload_crc32 (footer_var v)"
        using cc unfolding data by blast
      show "cabinet_reader w (payload_of w (footer_var v)) = (ns, True, e)"
        using rd 4(3) unfolding data by simp
      show "iterate_cabinet (file_system w) ns (empty_context ?d, fs_var v) = Some (answers, ctx, fs)"
        by (rule it)
      show "all_accepted (empty_context ?d) ns answers" and
        "files_extracted ctx = of_nat (extracted_count ns)" using eff 4(4) by simp_all
    qed
    then show ?thesis unfolding x good_exit_def finish_def
      using u by (auto simp: tidy_def reports_def resource_all)
  qed (use p fl ev in \<open>auto simp: extract_cabinet_def d rd it Let_def exit_simps\<close>)
qed

lemma main_stages_rule:
  "stage_triple (\<lambda>v. v = initial_vars w) (main_stages w) (\<lambda>_. False) (good_exit w)"
  unfolding main_stages_def
  by (intro stage_triple_andthen [OF open_self_rule] stage_triple_andthen [OF load_footer_rule]
      stage_triple_andthen [OF confirm_and_choose_rule]
      stage_triple_andthen [OF prepare_destination_rule]
      stage_triple_andthen [OF create_temp_rule] stage_triple_andthen [OF copy_payload_rule]
      extract_cabinet_rule)

lemma WinMain_good:
  "\<exists>x v. WinMain w = finish (x, v) \<and> x \<noteq> Continue \<and> good_exit w x v"
proof -
  obtain x v where m: "main_stages w (initial_vars w) = (x, v)" by force
  from stage_tripleD [OF main_stages_rule refl this] have "x \<noteq> Continue" "good_exit w x v"
    by (auto split: if_splits)
  then show ?thesis by (auto simp: WinMain_def m)
qed

section \<open>Runs without faults\<close>

text \<open>Nothing fails, the user agrees to everything, and directories can be created.\<close>

definition no_faults :: "sfx_world \<Rightarrow> bool" where
  "no_faults w \<longleftrightarrow>
     module_error w = None \<and> open_error w = None \<and> (\<forall>p. read_error w p = None) \<and>
     start_confirmed w \<and> shell_loads w \<and> shell_procs w \<and> overwrite_confirmed w \<and>
     (\<forall>p. create_error (file_system w) p = 0) \<and> temp_error w = None \<and>
     output_error w = None \<and> heap_available w \<and> (\<forall>p. write_error w p = None) \<and>
     setupapi_error w = None \<and> proc_error w = None"

lemma make_directory_ok:
  "create_error env p = 0 \<Longrightarrow> fst (make_directory env p fs)"
  by (simp add: make_directory_def Let_def)

lemma directory_loop_ok:
  "(\<And>p. create_error env p = 0) \<Longrightarrow> fst (directory_loop env d cs fs)"
proof (induction env d cs fs rule: directory_loop.induct)
  case (2 env d c cs fs)
  obtain ok fs' where m: "make_directory env d fs = (ok, fs')" by force
  with make_directory_ok [of env d fs] 2(3) have ok by simp
  with 2 m show ?case by simp
qed (simp add: make_directory_ok)

lemma ensure_directory_tree_ok:
  assumes "\<And>p. create_error env p = 0" and "3 \<le> length path" and "length path < MAX_PATH"
  obtains fs' where "ensure_directory_tree env path fs = Some (True, fs')"
  using directory_loop_ok [OF assms(1), of "take 3 path" "drop 3 path" fs] assms(2,3)
  by (cases "directory_loop env (take 3 path) (drop 3 path) fs")
    (auto simp: ensure_directory_tree_def)

lemma ensure_parent_directory_ok:
  assumes "\<And>p. create_error env p = 0" and "length path < MAX_PATH"
  obtains fs' where "ensure_parent_directory env path fs = Some (True, fs')"
proof (cases "length (upto_last_sep path) \<le> 3")
  case True
  then show ?thesis using assms(2) that by (simp add: ensure_parent_directory_def)
next
  case False
  have "length (upto_last_sep path) \<le> length path"
    using upto_last_sep_prefix by (rule prefix_length_le)
  with False assms(2) obtain fs' where
    "ensure_directory_tree env (butlast (upto_last_sep path)) fs = Some (True, fs')"
    by (auto intro: ensure_directory_tree_ok [OF assms(1), of "butlast (upto_last_sep path)" fs])
  with False assms(2) that show ?thesis by (simp add: ensure_parent_directory_def)
qed

lemma callback_accepts:
  assumes "\<And>p. create_error env p = 0" and "accepted ctx (FileInCabinet f)"
    and "cabinet_callback env (FileInCabinet f) (ctx, fs) = Some (c, t, ctx', fs')"
  shows "c = FILEOP_DOIT"
proof -
  obtain name where n: "f = Some name" "safe_relative_name (Some name)"
      "length (destination ctx) + 1 + length name < MAX_PATH"
    using assms(2) by (auto simp: accepted_def split: option.splits)
  then have "length (target_path (destination ctx) name) < MAX_PATH" by (simp add: target_path_def)
  then obtain fs1 where "ensure_parent_directory env (target_path (destination ctx) name) fs = Some (True, fs1)"
    using ensure_parent_directory_ok [OF assms(1)] by blast
  with n assms(3) show ?thesis by (simp add: cabinet_callback_def Let_def)
qed

lemma iterate_accepts:
  assumes "\<And>p. create_error env p = 0" and "\<forall>n \<in> set ns. accepted ctx n"
    and "iterate_cabinet env ns (ctx, fs) = Some (answers, r)"
  shows "all_accepted ctx ns answers"
  using assms(2,3)
proof (induction ns arbitrary: ctx fs answers)
  case (Cons n ns)
  from Cons.prems(2) obtain c t ctx1 fs1 answers' where *:
      "cabinet_callback env n (ctx, fs) = Some (c, t, ctx1, fs1)"
      "iterate_cabinet env ns (ctx1, fs1) = Some (answers', r)" "answers = (c, t) # answers'"
    by (metis iterate_cabinet_Cons prod.collapse)
  have acc: "accepted ctx1 = accepted ctx"
    using callback_destination [OF *(1)] by (rule accepted_cong)
  have "all_accepted ctx1 ns answers'" using Cons.IH [OF _ *(2)] Cons.prems(1) acc by simp
  moreover have "c = FILEOP_DOIT" if "n = FileInCabinet f" for f
    using callback_accepts [OF assms(1)] Cons.prems(1) *(1) that by (metis list.set_intros(1))
  ultimately show ?case using Cons.prems(1) by (auto simp: all_accepted_def acc *(3))
qed (simp add: all_accepted_def)

lemma load_footer_built:
  assumes "build_image stub cabinet folder display = Some (self_image w)"
    and "cabinet \<noteq> []" and "length (self_image w) < 2 ^ 31" and "hd folder \<noteq> CHR ''.''"
    and "\<And>p. read_error w p = None"
  defines "f \<equiv> read_footer (drop (length (self_image w) - FOOTER_SIZE) (self_image w))"
  shows "load_footer w v = (Continue, v\<lparr>input_pos := length (self_image w), footer_var := f\<rparr>) \<and>
    checked_footer w f \<and> c_string (folder_name f) = folder \<and> payload_of w f = cabinet \<and>
    unat (payload_size f) = length cabinet \<and> payload_crc32 f = builder_crc32 cabinet \<and>
    length (self_image w) = length stub + length cabinet + FOOTER_SIZE"
proof -
  let ?img = "self_image w"
  note b = built_footer_checks [OF assms(1,2)]
  have l32: "length ?img < 2 ^ 32" using assms(3) by simp
  obtain bs where bs: "build_footer cabinet folder display = Some bs" "?img = stub @ cabinet @ bs"
    using assms(1) by (auto simp: build_image_def)
  have len: "length ?img = length stub + length cabinet + FOOTER_SIZE"
    using read_built_footer [OF bs(1)] bs(2) by simp
  have chk: "check_footer (of_nat (length ?img)) f = Inr f" "c_string (folder_name f) = folder"
      "unat (payload_size f) = length cabinet" "payload_crc32 f = builder_crc32 cabinet"
    using b [OF l32] assms(4) by (simp_all add: f_def Let_def)
  have size: "unat (of_nat (length ?img) :: u32) = length ?img"
    using l32 by (simp add: unat_of_nat_small)
  have ok: "(of_nat (length ?img) :: u32) \<noteq> 0xFFFFFFFF" "\<not> (of_nat (length ?img) :: u32) < 208"
    using size assms(3) len by (auto simp: word_less_nat_alt)
  have tail: "take 208 (drop (length ?img - 208) ?img) = drop (length ?img - 208) ?img"
    by simp
  have "length stub = length ?img - FOOTER_SIZE - length cabinet" using len by simp
  then have pay: "payload_of w f = cabinet" by (simp add: payload_of_def chk(3) bs(2))
  have ptr: "set_file_pointer (int (length ?img) - int FOOTER_SIZE) v =
      (None, v\<lparr>input_pos := length ?img - FOOTER_SIZE\<rparr>)"
    using assms(3) len by (simp add: set_file_pointer_def nat_diff_distrib)
  have rd: "read_input w FOOTER_SIZE (v\<lparr>input_pos := length ?img - FOOTER_SIZE\<rparr>) =
      (Inr (drop (length ?img - FOOTER_SIZE) ?img), v\<lparr>input_pos := length ?img\<rparr>)"
    using len by (simp add: read_input_def assms(5))
  have dl: "length (drop (length ?img - FOOTER_SIZE) ?img) = FOOTER_SIZE" using len by simp
  have "load_footer w v = (Continue, v\<lparr>input_pos := length ?img, footer_var := f\<rparr>)"
    using ok unfolding load_footer_def Let_def ptr
    by (simp only: rd prod.case option.case sum.case dl of_nat_numeral simp_thms if_False
        chk(1) [unfolded f_def] f_def)
  then show ?thesis using chk len l32 pay
    unfolding checked_footer_def f_def [symmetric] Let_def by simp
qed

lemma copy_payload_built:
  assumes "no_faults w" and "checked_footer w (footer_var v)" and "temp_data v = []"
    and "length (self_image w) < 2 ^ 31"
    and "builder_crc32 (payload_of w (footer_var v)) = payload_crc32 (footer_var v)"
  obtains v' where "copy_payload w v = (Continue, v')"
    "temp_data v' = payload_of w (footer_var v)" "destination_var v' = destination_var v"
    "fs_var v' = fs_var v"
proof -
  let ?f = "footer_var v"
  let ?off = "of_nat (length (self_image w)) - 208 - payload_size ?f :: u32"
  note off = checked_offset [OF assms(2), simplified]
  have "unat ?off < 2147483648" using conjunct2 [OF off] assms(4) [simplified] by linarith
  then have "int (unat ?off) < 2147483648" by linarith
  then have small: "uint ?off < 2147483648" unfolding uint_nat .
  then have "sint ?off = uint ?off"
    using signed_take_bit_int_eq_self [of 31 "uint ?off"]
      order_trans [OF _ uint_ge_0 [of ?off], of "- (2 ^ 31)"] by (simp add: sint_uint)
  then have pos: "set_file_pointer (sint ?off) v = (None, v\<lparr>input_pos := unat ?off\<rparr>)"
    using small by (simp add: set_file_pointer_def)
  let ?v = "v\<lparr>input_pos := unat ?off\<rparr>"
  have "\<exists>crc. fst (copy_loop w (payload_size ?f) 0xFFFFFFFF ?v) = Inr crc"
    using assms(1) off by (intro copy_loop_ends) (simp_all add: no_faults_def)
  then obtain crc u where loop: "copy_loop w (payload_size ?f) 0xFFFFFFFF ?v = (Inr crc, u)"
    by (metis prod.collapse)
  note eff = copy_loop_effect [OF loop]
  have fr: "footer_var u = ?f \<and> destination_var u = destination_var v \<and> fs_var u = fs_var v"
    using copies_frame [of ?v u] eff by simp
  have data: "temp_data u = payload_of w ?f" "crc = update_crc32 init_crc32 0xFFFFFFFF (payload_of w ?f)"
    using eff assms(3) off by (simp_all add: Let_def payload_of_def)
  have "crc XOR 0xFFFFFFFF = payload_crc32 ?f"
    using assms(5) by (simp add: data(2) update_crc32_builder builder_crc32_def)
  then show ?thesis using that fr data(1)
    by (simp add: copy_payload_def pos loop Let_def emit_def)
qed

lemma extract_cabinet_built:
  assumes "no_faults w" and "cabinet_reader w (temp_data v) = (ns, True, e)"
    and "length (destination_var v) < MAX_PATH"
    and "\<forall>n \<in> set ns. accepted (empty_context (destination_var v)) n"
  obtains v' where "extract_cabinet w v = (Return 0, v')" "temp_data v' = temp_data v"
    "ShowDone (of_nat (extracted_count ns)) (destination_var v) \<in> set (events v')"
proof -
  let ?d = "destination_var v"
  have d: "take 259 ?d = ?d" using assms(3) by (intro take_all) linarith
  obtain answers ctx fs where it: "iterate_cabinet (file_system w) ns (empty_context ?d, fs_var v) =
      Some (answers, ctx, fs)" using iterate_cabinet_defined by (metis not_Some_eq prod_cases3)
  have create: "\<And>p. create_error (file_system w) p = 0" using assms(1) by (simp add: no_faults_def)
  have "all_accepted (empty_context ?d) ns answers"
    using iterate_accepts [OF create assms(4) it] .
  then have ok: "failed ctx = 0" "files_extracted ctx = of_nat (extracted_count ns)"
    using iterate_cabinet_effect [OF it] by simp_all
  have err: "setupapi_error w = None" "proc_error w = None" using assms(1) by (simp_all add: no_faults_def)
  show ?thesis
  proof (rule that)
    show "extract_cabinet w v = (Return 0,
        emit (ShowDone (files_extracted ctx) ?d)
          (emit (Release TempFile) ((emit (Release SetupApi)
            ((emit (Acquire SetupApi) v)\<lparr>fs_var := fs\<rparr>))\<lparr>temp_cab_set := False\<rparr>)))"
      using d it assms(2) ok err by (simp add: extract_cabinet_def emit_def)
  qed (simp_all add: emit_def ok)
qed

lemma WinMain_built:
  assumes faults: "no_faults w"
    and built: "build_image stub cabinet folder display = Some (self_image w)" "cabinet \<noteq> []"
      "length (self_image w) < 2 ^ 31" "hd folder \<noteq> CHR ''.''"
    and sel: "picked_folder w = Some selected" "2 \<le> length selected"
      "length selected + 1 + length folder < MAX_PATH"
    and reader: "cabinet_reader w cabinet = (ns, True, e)"
      "\<forall>n \<in> set ns. accepted (empty_context (target_path selected folder)) n"
  shows "\<exists>v. WinMain w = Some (0, v) \<and> temp_data v = cabinet \<and>
    ShowDone (of_nat (extracted_count ns)) (target_path selected folder) \<in> set (events v)"
proof -
  have reads: "\<And>p. read_error w p = None" using faults by (simp add: no_faults_def)
  define f where "f = read_footer (drop (length (self_image w) - FOOTER_SIZE) (self_image w))"
  let ?dest = "target_path selected folder"
  note load = load_footer_built [OF built reads, folded f_def]
  have cf: "checked_footer w f" and folder: "c_string (folder_name f) = folder"
    and pay: "payload_of w f = cabinet" and crc: "builder_crc32 cabinet = payload_crc32 f"
    using load by metis+
  have ne: "folder \<noteq> []" using checked_folder [OF cf] folder by simp
  then have "0 < length folder" by simp
  with sel(2,3) have dlen: "3 \<le> length ?dest" "length ?dest < MAX_PATH"
    unfolding target_path_def by (simp_all del: length_greater_0_conv)
  define v1 where "v1 = emit (Acquire InputFile) ((initial_vars w)\<lparr>input_open := True\<rparr>)"
  define v2 where "v2 = v1\<lparr>input_pos := length (self_image w), footer_var := f\<rparr>"
  define v3 where "v3 = emit (Release ShellDll) ((emit (Acquire ShellDll) v2)\<lparr>selected_var := selected\<rparr>)"
  obtain fs where tree: "ensure_directory_tree (file_system w) ?dest (fs_var v3) = Some (True, fs)"
    using ensure_directory_tree_ok [OF _ dlen] faults by (metis no_faults_def)
  define v4 where "v4 = v3\<lparr>destination_var := ?dest, fs_var := fs\<rparr>"
  have s1: "open_self w (initial_vars w) = (Continue, v1)"
    using faults by (simp add: open_self_def no_faults_def v1_def)
  have s2: "load_footer w v1 = (Continue, v2)" using load by (simp add: v2_def)
  have s3: "confirm_and_choose w v2 = (Continue, v3)"
    using faults sel(1) by (simp add: confirm_and_choose_def choose_destination_def no_faults_def v3_def)
  have v3: "footer_var v3 = f" "selected_var v3 = selected" "temp_data v3 = []"
    by (simp_all add: v3_def v2_def v1_def emit_def initial_vars_def)
  have "overwrite_confirmed w" using faults by (simp add: no_faults_def)
  then have s4: "prepare_destination w v3 = (Continue, v4)"
    using sel(2,3) folder tree v3 by (auto simp: prepare_destination_def Let_def v4_def)
  obtain v5 where s5: "create_temp w v4 = (Continue, v5)" and v5: "temp_data v5 = []"
      "footer_var v5 = f" "destination_var v5 = ?dest"
  proof (rule that)
    show "create_temp w v4 = (Continue, emit (Acquire CopyBuffer) ((emit (Acquire OutputFile)
        ((emit (Acquire TempFile) (v4\<lparr>temp_cab_set := True\<rparr>))\<lparr>output_open := True\<rparr>))\<lparr>buffer_set := True\<rparr>))"
      using faults by (simp add: create_temp_def no_faults_def)
  qed (simp_all add: v3 v4_def emit_def)
  obtain v6 where s6: "copy_payload w v5 = (Continue, v6)" and v6: "temp_data v6 = cabinet"
      "destination_var v6 = ?dest"
    using copy_payload_built [OF faults, of v5] cf v5 built(3) crc pay by metis
  obtain v7 where s7: "extract_cabinet w v6 = (Return 0, v7)" "temp_data v7 = cabinet"
      "ShowDone (of_nat (extracted_count ns)) ?dest \<in> set (events v7)"
    using extract_cabinet_built [OF faults, of v6 ns e] reader dlen v6 by metis
  have "main_stages w (initial_vars w) = (Return 0, v7)"
    by (simp add: main_stages_def andthen_def s1 s2 s3 s4 s5 s6 s7(1))
  then show ?thesis using s7 by (simp add: WinMain_def finish_def)
qed

section \<open>What a run does\<close>

text \<open>A world for the examples: an extractor with a five-byte cabinet of two files.\<close>

definition sample_world :: "u8 list \<Rightarrow> sfx_world" where
  "sample_world img =
     \<lparr>module_error = None, open_error = None, self_image = img, read_error = (\<lambda>_. None),
      short_read_error = 0, start_confirmed = True, shell_loads = True, shell_procs = True,
      picked_folder = Some ''C:/'', overwrite_confirmed = True,
      file_system = \<lparr>attr_error = \<lambda>_. 2, create_error = \<lambda>_. 0\<rparr>,
      initial_fs = \<lparr>existing = {''C:/''}, last_error = 0\<rparr>, temp_error = None,
      output_error = None, heap_available = True, write_error = (\<lambda>_. None),
      setupapi_error = None, proc_error = None,
      cabinet_reader = (\<lambda>_. ([FileInCabinet (Some ''a''), FileExtracted (Some 0),
        FileInCabinet (Some ''b''), FileExtracted (Some 0)], True, 0))\<rparr>"

lemma no_faults_sample [simp]: "no_faults (sample_world img)"
  by (simp add: no_faults_def sample_world_def)

lemma sample_image:
  obtains img where "build_image [77, 90] [77, 83, 67, 70, 0] ''out'' ''Demo'' = Some img"
    "length img = 215"
proof -
  obtain f where f: "build_footer [77, 83, 67, 70, 0] ''out'' ''Demo'' = Some f"
    by (simp add: build_footer_def unsafe_folder_def fixed_ascii_def code_def)
  then show ?thesis using that read_built_footer [OF f] by (simp add: build_image_def)
qed

lemma sample_accepted:
  "\<forall>n \<in> set [FileInCabinet (Some ''a''), FileExtracted (Some 0),
        FileInCabinet (Some ''b''), FileExtracted (Some 0)].
     accepted (empty_context (target_path ''C:/'' ''out'')) n"
  by (simp add: accepted_def safe_relative_name_def target_path_def is_sep_def)

lemma sample_run:
  obtains img v where "build_image [77, 90] [77, 83, 67, 70, 0] ''out'' ''Demo'' = Some img"
    "length img = 215" "WinMain (sample_world img) = Some (0, v)"
    "ShowDone 2 (target_path ''C:/'' ''out'') \<in> set (events v)"
proof -
  obtain img where img: "build_image [77, 90] [77, 83, 67, 70, 0] ''out'' ''Demo'' = Some img"
    "length img = 215" by (rule sample_image)
  have "\<exists>v. WinMain (sample_world img) = Some (0, v) \<and> temp_data v = [77, 83, 67, 70, 0] \<and>
    ShowDone (of_nat (extracted_count [FileInCabinet (Some ''a''),
      FileExtracted (Some 0), FileInCabinet (Some ''b''), FileExtracted (Some 0)]))
      (target_path ''C:/'' ''out'') \<in> set (events v)"
    using img sample_accepted
    by (intro WinMain_built [where stub = "[77, 90]" and display = "''Demo''" and e = 0])
      (simp_all add: sample_world_def no_faults_def)
  then show ?thesis using that img by (auto simp: extracted_count_def)
qed



lemma WinMain_done:
  assumes "WinMain w = Some (exit_code, v)" and "ShowDone n dest \<in> set (events v)"
  shows "exit_code = 0 \<and> extraction_succeeded w v n dest"
proof -
  have shown: "ShowDone n dest \<in> set (reports (events v))"
    using assms(2) by (simp add: reports_def)
  obtain x u where "WinMain w = finish (x, u)" "good_exit w x u" using WinMain_good by blast
  with assms(1) have good: "if exit_code = 0
       then reports (events v) = [] \<or>
         (\<exists>n dest. reports (events v) = [ShowDone n dest] \<and> extraction_succeeded w v n dest)
       else \<exists>e. reports (events v) = [ShowError e]"
    by (simp add: good_exit_def)
  then show ?thesis using shown by (cases "exit_code = 0") auto
qed

text \<open>
  C13: when the extractor reports that it is done, the image carried a footer that passed every
  check, the checksum that the builder stored is that of exactly the payload bytes handed to
  the cabinet reader, the destination is one component below the folder the user picked, the
  reader ended well, and no file of the cabinet was refused or failed.
\<close>

theorem WinMain_done_means_extracted:
  assumes "WinMain w = Some (exit_code, v)" and "ShowDone n dest \<in> set (events v)"
  shows "exit_code = 0 \<and> extraction_succeeded w v n dest"
  by (rule WinMain_done [OF assms])

theorem WinMain_done_means_extracted_witness:
  "\<exists>img v. WinMain (sample_world img) = Some (0, v) \<and>
    extraction_succeeded (sample_world img) v 2 (target_path ''C:/'' ''out'')"
proof -
  obtain img v where run: "WinMain (sample_world img) = Some (0, v)"
    "ShowDone 2 (target_path ''C:/'' ''out'') \<in> set (events v)" by (rule sample_run)
  then show ?thesis using WinMain_done_means_extracted by blast
qed

text \<open>
  C40: a run never reads out of bounds when the shell hands back a folder of at least two
  characters, as it does for a directory with a drive.
\<close>

theorem WinMain_defined:
  assumes "\<And>selected. picked_folder w = Some selected \<Longrightarrow> 2 \<le> length selected"
  shows "\<exists>exit_code v. WinMain w = Some (exit_code, v)"
proof -
  obtain x u where "WinMain w = finish (x, u)" "good_exit w x u" using WinMain_good by blast
  with assms show ?thesis
    unfolding good_exit_def by (cases "finish (x, u)") fastforce+
qed

theorem WinMain_defined_witness:
  "\<exists>exit_code v. WinMain (sample_world [1, 2, 3]) = Some (exit_code, v)"
  by (rule WinMain_defined) (simp add: sample_world_def)

text \<open>
  C39: an extractor made by the builder works: when nothing fails and the user agrees, the run
  ends with code 0, the cabinet that the builder packed is what the reader was given, byte for
  byte, and the message counts its files and names the destination below the chosen folder.
\<close>

theorem WinMain_extracts_what_was_built:
  assumes "no_faults w"
    and "build_image stub cabinet folder display = Some (self_image w)" and "cabinet \<noteq> []"
    and "length (self_image w) < 2 ^ 31" and "hd folder \<noteq> CHR ''.''"
    and "picked_folder w = Some selected" and "2 \<le> length selected"
    and "length selected + 1 + length folder < MAX_PATH"
    and "cabinet_reader w cabinet = (ns, True, e)"
    and "\<forall>n \<in> set ns. accepted (empty_context (target_path selected folder)) n"
  shows "\<exists>v. WinMain w = Some (0, v) \<and> temp_data v = cabinet \<and>
    ShowDone (of_nat (extracted_count ns)) (target_path selected folder) \<in> set (events v)"
  by (rule WinMain_built [OF assms])

theorem WinMain_extracts_what_was_built_witness:
  "\<exists>img v. WinMain (sample_world img) = Some (0, v) \<and> temp_data v = [77, 83, 67, 70, 0]"
proof -
  obtain img where img: "build_image [77, 90] [77, 83, 67, 70, 0] ''out'' ''Demo'' = Some img"
    "length img = 215" by (rule sample_image)
  have "\<exists>v. WinMain (sample_world img) = Some (0, v) \<and> temp_data v = [77, 83, 67, 70, 0] \<and>
    ShowDone (of_nat (extracted_count [FileInCabinet (Some ''a''),
      FileExtracted (Some 0), FileInCabinet (Some ''b''), FileExtracted (Some 0)]))
      (target_path ''C:/'' ''out'') \<in> set (events v)"
    using img sample_accepted
    by (intro WinMain_extracts_what_was_built [where stub = "[77, 90]" and display = "''Demo''"
        and e = 0]) (simp_all add: sample_world_def no_faults_def)
  then show ?thesis by blast
qed

end
