(* ===== verification/Sfx_Messages.thy ===== *)
theory Sfx_Messages
  imports Sfx_Extract
begin

text \<open>
  The texts the self-extractor shows (\<open>sfx/w2k_sfx.c\<close>). \<open>wsprintfA\<close> writes into local buffers and is
  not told their size, so a text that is too long writes over the stack; here that is the value
  \<open>None\<close>. The names in the texts come from the file itself.
\<close>

definition wsprintf :: "nat \<Rightarrow> string \<Rightarrow> string option" where
  "wsprintf buffer_bytes formatted = (if length formatted < buffer_bytes then Some formatted else None)"

text \<open>The question at the start, the title of the folder picker and the text at the end.\<close>

definition start_message :: "sfx_footer \<Rightarrow> string option" where
  "start_message footer =
     wsprintf 512
       (c_string (display_name footer) @ CRLF @ CRLF @
        ''This self-extractor runs on an unmodified Windows 2000 installation. '' @
        ''It only extracts files; it does not install or change Windows.'' @ CRLF @ CRLF @
        ''You will now choose a parent folder. A new folder named:'' @ CRLF @
        c_string (folder_name footer) @ CRLF @ ''will be created inside it.'')"

definition picker_prompt :: "sfx_footer \<Rightarrow> string option" where
  "picker_prompt footer = wsprintf 256 (''Choose the parent folder for '' @ c_string (display_name footer))"

definition done_message :: "u32 \<Rightarrow> string \<Rightarrow> string option" where
  "done_message files_done dest =
     wsprintf 512
       (''Extraction completed successfully.'' @ CRLF @ CRLF @ ''Files extracted: '' @ decimal (unat files_done) @
        CRLF @ ''Destination:'' @ CRLF @ dest)"

text \<open>
  The system's text for an error, at most 319 characters in a buffer of 320; without one the number of
  the error is shown.
\<close>

definition show_win32_error :: "string \<Rightarrow> u32 \<Rightarrow> string option \<Rightarrow> string option" where
  "show_win32_error prefix_text error system_text =
     (case (case system_text of
              Some detail \<Rightarrow> Some (take 319 detail)
            | None \<Rightarrow> wsprintf 320 (''Windows error '' @ decimal (unat error))) of
        None \<Rightarrow> None
      | Some detail \<Rightarrow> wsprintf 512 (prefix_text @ CRLF @ CRLF @ detail))"

definition error_prefixes :: "string list" where
  "error_prefixes =
     [''Could not locate the self-extractor.'', ''Could not open the self-extractor.'',
      ''Extraction failed. No system settings were changed.'']"

lemma show_win32_error_fits:
  assumes "p \<in> set error_prefixes"
  shows "show_win32_error p e t \<noteq> None"
proof -
  have "length p \<le> 60" using assms by (auto simp: error_prefixes_def)
  then show ?thesis using length_decimal_u32 [of e]
    by (auto simp: show_win32_error_def wsprintf_def split: option.split)
qed

lemma done_message_fits: "length dest < MAX_PATH \<Longrightarrow> done_message n dest \<noteq> None"
  using length_decimal_u32 [of n] by (auto simp: done_message_def wsprintf_def)



end
