(* ===== verification/Cert_Roots.thy ===== *)
theory Cert_Roots
  imports W2K_Prelude "HOL-Library.Sublist"
begin

text \<open>
  The root certificate installer (\<open>certificates/source/w2kroots.c\<close>): it goes through the
  \<open>.cer\<close> files of a directory, adds each to the machine's root store (when installing) and
  checks that the store holds it. The store belongs to crypt32.dll: its state is a parameter type
  with the operation that adds an encoded certificate and the list of encodings that enumerating
  it gives. The file system is a record of what each call answers for a path.
\<close>

section \<open>Paths\<close>

definition needs_separator :: "string \<Rightarrow> bool" where
  "needs_separator directory \<longleftrightarrow>
     directory \<noteq> [] \<and> last directory \<noteq> CHR 0x5C \<and> last directory \<noteq> CHR ''/''"

definition build_pattern :: "string \<Rightarrow> nat \<Rightarrow> string option" where
  "build_pattern directory capacity =
     (if length directory + 7 \<ge> capacity then None
      else Some (directory @ (if needs_separator directory then [CHR 0x5C] else []) @ ''*.cer''))"

definition build_file_path :: "string \<Rightarrow> string \<Rightarrow> nat \<Rightarrow> string option" where
  "build_file_path directory name capacity =
     (if length directory + length name + 2 \<ge> capacity then None
      else Some (directory @ (if needs_separator directory then [CHR 0x5C] else []) @ name))"

lemma build_pattern_fits: "build_pattern d c = Some p \<Longrightarrow> length p < c"
  by (auto simp: build_pattern_def split: if_splits)

lemma build_file_path_fits: "build_file_path d n c = Some p \<Longrightarrow> length p < c"
  by (auto simp: build_file_path_def split: if_splits)

section \<open>Reading a certificate\<close>

type_synonym bytes = "u8 list"

record file_io =
  file_opens :: "string \<Rightarrow> bool"
  file_size :: "string \<Rightarrow> u32"
  buffer_given :: "string \<Rightarrow> bool"
  file_read :: "string \<Rightarrow> bytes option"

definition INVALID_FILE_SIZE :: u32 where
  "INVALID_FILE_SIZE = 0xFFFFFFFF"

definition read_file :: "file_io \<Rightarrow> string \<Rightarrow> bytes option" where
  "read_file io path =
     (if \<not> file_opens io path then None
      else
        let size_found = file_size io path in
          if size_found = INVALID_FILE_SIZE \<or> size_found = 0 \<or> size_found > 1024 * 1024 then None
          else if \<not> buffer_given io path then None
          else case file_read io path of
            None \<Rightarrow> None
          | Some got \<Rightarrow> if length got \<noteq> unat size_found then None else Some got)"

lemma read_file_size: "read_file io path = Some data \<Longrightarrow> 0 < length data \<and> length data \<le> 1048576"
  by (auto simp: read_file_def Let_def word_le_nat_alt word_less_nat_alt split: if_splits option.splits
      dest: unat_eq_zero [THEN iffD1])

section \<open>The store\<close>

record 's crypto_api =
  add_encoded :: "'s \<Rightarrow> bytes \<Rightarrow> bool \<times> 's"
  enumerate :: "'s \<Rightarrow> bytes list"

text \<open>The loops over the enumeration go through all of it.\<close>

definition count_store :: "'s crypto_api \<Rightarrow> 's \<Rightarrow> nat" where
  "count_store api store = fold (\<lambda>_ count. count + 1) (enumerate api store) 0"

definition store_contains :: "'s crypto_api \<Rightarrow> 's \<Rightarrow> bytes \<Rightarrow> bool" where
  "store_contains api store data =
     fold (\<lambda>current found. if length current = length data \<and> current = data then True else found)
       (enumerate api store) False"

lemma count_store_length: "count_store api store = length (enumerate api store)"
proof -
  have "fold (\<lambda>_ count. count + 1) xs n = n + length xs" for xs :: "bytes list" and n
    by (induction xs arbitrary: n) auto
  then show ?thesis by (simp add: count_store_def)
qed

lemma store_contains_iff: "store_contains api store data \<longleftrightarrow> data \<in> set (enumerate api store)"
proof -
  have "fold (\<lambda>current found. if length current = length data \<and> current = data then True else found) xs b
      \<longleftrightarrow> b \<or> data \<in> set xs" for xs b
    by (induction xs arbitrary: b) auto
  then show ?thesis by (simp add: store_contains_def)
qed

section \<open>A directory\<close>

record tally =
  files :: nat
  added :: nat
  present :: nat
  failed :: nat

text \<open>An entry of the search: its name and whether it is a directory.\<close>

definition process_entry ::
    "'s crypto_api \<Rightarrow> file_io \<Rightarrow> string \<Rightarrow> bool \<Rightarrow> string \<times> bool \<Rightarrow> 's \<times> tally \<Rightarrow> 's \<times> tally" where
  "process_entry api io directory install entry st =
     (let (name, is_directory) = entry; (store, t) = st in
        if is_directory then (store, t)
        else
          let t = t\<lparr>files := files t + 1\<rparr>;
              data = (case build_file_path directory name MAX_PATH of
                        None \<Rightarrow> None | Some path \<Rightarrow> read_file io path) in
            case data of
              None \<Rightarrow> (store, t\<lparr>failed := failed t + 1\<rparr>)
            | Some data \<Rightarrow>
                let (store, t) =
                      (if install then
                         (let (ok, store) = add_encoded api store data in
                            (store, if ok then t\<lparr>added := added t + 1\<rparr> else t\<lparr>failed := failed t + 1\<rparr>))
                       else (store, t)) in
                  if store_contains api store data then (store, t\<lparr>present := present t + 1\<rparr>)
                  else (store, t\<lparr>failed := failed t + 1\<rparr>))"

definition no_tally :: tally where
  "no_tally = \<lparr>files = 0, added = 0, present = 0, failed = 0\<rparr>"

text \<open>
  The search gives the entries, or nothing when it finds none; it runs at least once.
\<close>

definition process_directory ::
    "'s crypto_api \<Rightarrow> file_io \<Rightarrow> (string \<Rightarrow> (string \<times> bool) list) \<Rightarrow> string \<Rightarrow> bool \<Rightarrow> 's \<Rightarrow> nat \<times> 's" where
  "process_directory api io search directory install store =
     (case build_pattern directory MAX_PATH of
        None \<Rightarrow> (2, store)
      | Some pattern \<Rightarrow>
          (case search pattern of
             [] \<Rightarrow> (2, store)
           | entries \<Rightarrow>
               let (store, t) = fold (process_entry api io directory install) entries (store, no_tally) in
                 (if files t \<noteq> 0 \<and> failed t = 0 \<and> present t = files t then 0 else 1, store)))"

section \<open>The program\<close>

text \<open>
  The library \<open>crypt32.dll\<close>: whether it loads, what it exports, and the store that
  \<open>CertOpenStore\<close> gives for a provider, flags and a name.
\<close>

record 's crypt32 =
  crypt32_loads :: bool
  crypt32_exports :: "string \<Rightarrow> bool"
  cert_open_store :: "u32 \<Rightarrow> u32 \<Rightarrow> string \<Rightarrow> 's option"

datatype roots_effect = LibraryLoaded | LibraryFreed | StoreOpened | StoreClosed | Usage string

definition usage :: "string \<Rightarrow> string" where
  "usage program =
     concat (map (\<lambda>l. l @ [CHR 0x0A])
       [''Windows 2000 Modern Root Installer 1.0'', ''Usage:'', ''  '' @ program @ '' count'',
        ''  '' @ program @ '' verify CERT_DIRECTORY'', ''  '' @ program @ '' install CERT_DIRECTORY''])"

definition load_crypto :: "'s crypt32 \<Rightarrow> bool \<times> roots_effect list" where
  "load_crypto w =
     (if \<not> crypt32_loads w then (False, [])
      else if \<not> crypt32_exports w ''CertOpenStore'' \<or>
        \<not> crypt32_exports w ''CertAddEncodedCertificateToStore'' \<or>
        \<not> crypt32_exports w ''CertEnumCertificatesInStore'' \<or> \<not> crypt32_exports w ''CertCloseStore''
      then (False, [LibraryLoaded, LibraryFreed])
      else (True, [LibraryLoaded]))"

definition W2K_CERT_STORE_PROV_SYSTEM_A :: u32 where
  "W2K_CERT_STORE_PROV_SYSTEM_A = 9"

definition W2K_CERT_SYSTEM_STORE_LOCAL_MACHINE :: u32 where
  "W2K_CERT_SYSTEM_STORE_LOCAL_MACHINE = 0x00020000"

definition W2K_CERT_STORE_OPEN_EXISTING_FLAG :: u32 where
  "W2K_CERT_STORE_OPEN_EXISTING_FLAG = 0x00004000"

definition open_machine_root_store :: "'s crypt32 \<Rightarrow> 's option" where
  "open_machine_root_store w =
     cert_open_store w W2K_CERT_STORE_PROV_SYSTEM_A
       (W2K_CERT_SYSTEM_STORE_LOCAL_MACHINE OR W2K_CERT_STORE_OPEN_EXISTING_FLAG) ''ROOT''"

text \<open>
  \<open>main\<close>, with the program's name and the arguments behind it: the exit code, the store as it is
  left and the effects in order. A store that cannot be closed gives a warning only.
\<close>

definition roots_main ::
    "'s crypto_api \<Rightarrow> file_io \<Rightarrow> (string \<Rightarrow> (string \<times> bool) list) \<Rightarrow> 's crypt32 \<Rightarrow> string \<Rightarrow> string list \<Rightarrow>
     nat \<times> 's option \<times> roots_effect list" where
  "roots_main api io search w program arguments =
     (if arguments = [] \<or> hd arguments \<noteq> ''count'' \<and> length arguments \<noteq> 2
      then (2, open_machine_root_store w, [Usage (usage program)])
      else
        let (loaded, loading) = load_crypto w in
          if \<not> loaded then (3, open_machine_root_store w, loading)
          else case open_machine_root_store w of
            None \<Rightarrow> (4, None, loading @ [LibraryFreed])
          | Some store \<Rightarrow>
              let (result, store, said) =
                    (if hd arguments = ''count'' then (0, store, [])
                     else if hd arguments = ''verify'' then
                       (let (r, s) = process_directory api io search (arguments ! 1) False store in (r, s, []))
                     else if hd arguments = ''install'' then
                       (let (r, s) = process_directory api io search (arguments ! 1) True store in (r, s, []))
                     else (2, store, [Usage (usage program)])) in
                (result, Some store, loading @ StoreOpened # said @ [StoreClosed, LibraryFreed]))"

section \<open>What exit code 0 means\<close>

text \<open>The certificate of an entry, as the program reads it.\<close>

definition certificate_of :: "file_io \<Rightarrow> string \<Rightarrow> string \<times> bool \<Rightarrow> bytes option" where
  "certificate_of io directory entry =
     (case build_file_path directory (fst entry) MAX_PATH of None \<Rightarrow> None | Some path \<Rightarrow> read_file io path)"

text \<open>A successful pass over the entries: the store after it, if nothing fails on the way.\<close>

fun good_pass :: "'s crypto_api \<Rightarrow> file_io \<Rightarrow> string \<Rightarrow> bool \<Rightarrow> (string \<times> bool) list \<Rightarrow> 's \<Rightarrow> 's option" where
  "good_pass api io directory install [] store = Some store"
| "good_pass api io directory install (entry # entries) store =
     (if snd entry then good_pass api io directory install entries store
      else case certificate_of io directory entry of
        None \<Rightarrow> None
      | Some data \<Rightarrow>
          let (ok, store) = (if install then add_encoded api store data else (True, store)) in
            if ok \<and> data \<in> set (enumerate api store) then good_pass api io directory install entries store
            else None)"

lemma process_entry_failed:
  "failed (snd (process_entry api io d i e st)) \<ge> failed (snd st)"
  by (auto simp: process_entry_def Let_def case_prod_beta split: option.split)

lemma fold_failed:
  "failed (snd (fold (process_entry api io d i) es st)) \<ge> failed (snd st)"
proof (induction es arbitrary: st)
  case (Cons e es)
  then show ?case using process_entry_failed le_trans by (metis fold_simps(2))
qed simp

text \<open>The tally after a pass: it fails exactly when the pass does, and otherwise all are present.\<close>

text \<open>One entry of the directory: skipped, taken over, or counted as failed.\<close>

lemma entry_skipped: "process_entry api io d i (name, True) (store, t) = (store, t)"
  by (simp add: process_entry_def)

lemma entry_unreadable:
  assumes "certificate_of io d (name, False) = None"
  shows "failed (snd (process_entry api io d i (name, False) (store, t))) > 0 \<and>
    good_pass api io d i ((name, False) # es) store = None"
  using assms by (simp add: process_entry_def certificate_of_def Let_def)

lemma entry_good:
  assumes "certificate_of io d (name, False) = Some data"
    and "fst (if i then add_encoded api store data else (True, store))"
    and "data \<in> set (enumerate api (snd (if i then add_encoded api store data else (True, store))))"
  obtains s1 t1 where "process_entry api io d i (name, False) (store, t) = (s1, t1)"
    "failed t1 = failed t" "files t1 = Suc (files t)" "present t1 = Suc (present t)"
    "good_pass api io d i ((name, False) # es) store = good_pass api io d i es s1"
  using assms that [of "snd (if i then add_encoded api store data else (True, store))"
      "t\<lparr>files := files t + 1, added := added t + (if i then 1 else 0), present := present t + 1\<rparr>"]
  by (cases i) (auto simp: process_entry_def certificate_of_def Let_def case_prod_beta store_contains_iff)

lemma entry_bad:
  assumes "certificate_of io d (name, False) = Some data"
    and "\<not> (fst (if i then add_encoded api store data else (True, store)) \<and>
      data \<in> set (enumerate api (snd (if i then add_encoded api store data else (True, store)))))"
  shows "failed (snd (process_entry api io d i (name, False) (store, t))) > 0 \<and>
    good_pass api io d i ((name, False) # es) store = None"
  using assms
  by (cases i) (auto simp: process_entry_def certificate_of_def Let_def case_prod_beta store_contains_iff)

lemma fold_pass:
  "failed t = 0 \<Longrightarrow>
   (case good_pass api io d i es store of
      None \<Rightarrow> failed (snd (fold (process_entry api io d i) es (store, t))) > 0
    | Some store' \<Rightarrow>
        (let (s, t') = fold (process_entry api io d i) es (store, t);
             k = length (filter (\<lambda>e. \<not> snd e) es) in
           s = store' \<and> failed t' = 0 \<and> files t' = files t + k \<and> present t' = present t + k))"
proof (induction es arbitrary: store t)
  case Nil
  then show ?case by simp
next
  case (Cons e es)
  obtain name is_dir where e: "e = (name, is_dir)" by (cases e)
  have bad: ?case if "failed (snd (process_entry api io d i e (store, t))) > 0 \<and> good_pass api io d i (e # es) store = None"
    using that fold_failed [of "process_entry api io d i e (store, t)" api io d i es] by simp
  show ?case
  proof (cases is_dir)
    case True
    then show ?thesis using Cons.IH [OF Cons.prems, of store] by (simp add: e entry_skipped split: option.splits)
  next
    case False
    then have e: "e = (name, False)" using e by simp
    let ?r = "\<lambda>data. if i then add_encoded api store data else (True, store)"
    consider "certificate_of io d e = None"
      | data where "certificate_of io d e = Some data" "fst (?r data) \<and> data \<in> set (enumerate api (snd (?r data)))"
      | data where "certificate_of io d e = Some data" "\<not> (fst (?r data) \<and> data \<in> set (enumerate api (snd (?r data))))"
      by (cases "certificate_of io d e") blast+
    then show ?thesis
    proof cases
      case 1
      then show ?thesis by (intro bad) (unfold e, rule entry_unreadable)
    next
      case (2 data)
      obtain s1 t1 where "process_entry api io d i e (store, t) = (s1, t1)"
        "failed t1 = failed t" "files t1 = Suc (files t)" "present t1 = Suc (present t)"
        "good_pass api io d i (e # es) store = good_pass api io d i es s1"
        using entry_good [of io d name data i api store t es] 2 unfolding e by metis
      then show ?thesis using Cons.IH [of t1 s1] Cons.prems
        by (simp add: e case_prod_beta Let_def del: good_pass.simps split: option.splits)
    next
      case (3 data)
      then show ?thesis by (intro bad) (unfold e, rule entry_bad)
    qed
  qed
qed

lemma directory_exit:
  "fst (process_directory api io search directory install store) = 0 \<longleftrightarrow>
     (\<exists>pattern store'. build_pattern directory MAX_PATH = Some pattern \<and>
        (\<exists>e \<in> set (search pattern). \<not> snd e) \<and>
        good_pass api io directory install (search pattern) store = Some store' \<and>
        snd (process_directory api io search directory install store) = store')"
proof (cases "build_pattern directory MAX_PATH")
  case None
  then show ?thesis by (simp add: process_directory_def)
next
  case (Some pattern)
  show ?thesis
  proof (cases "search pattern")
    case Nil
    then show ?thesis using Some by (simp add: process_directory_def)
  next
    case (Cons e es)
    let ?es = "search pattern"
    let ?f = "fold (process_entry api io directory install) ?es (store, no_tally)"
    have p: "process_directory api io search directory install store =
        (if files (snd ?f) \<noteq> 0 \<and> failed (snd ?f) = 0 \<and> present (snd ?f) = files (snd ?f) then 0 else 1, fst ?f)"
      using Some Cons by (simp add: process_directory_def case_prod_beta Let_def)
    have "length (filter (\<lambda>e. \<not> snd e) ?es) \<noteq> 0 \<longleftrightarrow> (\<exists>e \<in> set ?es. \<not> snd e)"
      by (auto simp: filter_empty_conv)
    moreover have "failed no_tally = 0" "files no_tally = 0" "present no_tally = 0"
      by (simp_all add: no_tally_def)
    ultimately show ?thesis using fold_pass [of no_tally api io directory install ?es store] Some p
      by (auto simp: Let_def case_prod_beta split: option.splits)
  qed
qed

lemma good_pass_keeps:
  assumes keeps: "\<And>s d c. c \<in> set (enumerate api s) \<Longrightarrow> c \<in> set (enumerate api (snd (add_encoded api s d)))"
  shows "good_pass api io directory install es store = Some store' \<Longrightarrow>
    set (enumerate api store) \<subseteq> set (enumerate api store') \<and>
    (\<forall>e \<in> set es. snd e \<or> (\<exists>data. certificate_of io directory e = Some data \<and> data \<in> set (enumerate api store')))"
proof (induction es arbitrary: store)
  case (Cons e es)
  show ?case
  proof (cases "snd e")
    case True
    then show ?thesis using Cons by auto
  next
    case False
    then obtain data where d: "certificate_of io directory e = Some data"
      using Cons.prems by (auto split: option.splits)
    let ?s = "if install then snd (add_encoded api store data) else store"
    have g: "good_pass api io directory install es ?s = Some store'" "data \<in> set (enumerate api ?s)"
      using Cons.prems False d by (auto simp: case_prod_beta Let_def split: if_splits)
    have "set (enumerate api store) \<subseteq> set (enumerate api ?s)" using keeps by auto
    then show ?thesis using Cons.IH [OF g(1)] g(2) d by auto
  qed
qed simp

text \<open>Only an installation changes the store.\<close>

lemma process_entry_verify:
  "fst (process_entry api io directory False entry st) = fst st"
  by (simp add: process_entry_def Let_def case_prod_beta split: option.split)

lemma process_directory_verify:
  "snd (process_directory api io search directory False store) = store"
proof -
  have f: "fst (fold (process_entry api io directory False) es st) = fst st" for es st
    by (induction es arbitrary: st) (simp_all add: process_entry_verify)
  then show ?thesis
    by (simp add: process_directory_def Let_def case_prod_beta f del: fold.simps split: option.split list.split)
qed

lemma process_directory_code:
  "fst (process_directory api io search directory install store) \<le> 2"
  by (simp add: process_directory_def Let_def case_prod_beta split: option.split list.split)

definition roots_arguments :: "string list \<Rightarrow> bool" where
  "roots_arguments arguments \<longleftrightarrow>
     arguments \<noteq> [] \<and> (hd arguments = ''count'' \<or> length arguments = 2)"

definition crypt32_ready :: "'s crypt32 \<Rightarrow> bool" where
  "crypt32_ready w \<longleftrightarrow> crypt32_loads w \<and>
     list_all (crypt32_exports w)
       [''CertOpenStore'', ''CertAddEncodedCertificateToStore'', ''CertEnumCertificatesInStore'',
        ''CertCloseStore'']"

lemma load_crypto_ready: "fst (load_crypto w) = crypt32_ready w"
  by (auto simp: load_crypto_def crypt32_ready_def)

text \<open>A store that is the list of its encodings, and two files.\<close>

definition list_store :: "bytes list crypto_api" where
  "list_store = \<lparr>add_encoded = \<lambda>s d. (True, s @ [d]), enumerate = \<lambda>s. s\<rparr>"

definition sample_io :: file_io where
  "sample_io = \<lparr>file_opens = \<lambda>_. True, file_size = \<lambda>_. 2, buffer_given = \<lambda>_. True,
     file_read = \<lambda>p. Some [1, of_nat (length p)]\<rparr>"

definition sample_search :: "string \<Rightarrow> (string \<times> bool) list" where
  "sample_search p = [(''a.cer'', False), (''old'', True), (''bb.cer'', False)]"

lemma sample_directory:
  "fst (process_directory list_store sample_io sample_search ''C'' True []) = 0"
proof -
  have r: "read_file sample_io p = Some [1, of_nat (length p)]" for p
    by (simp add: read_file_def sample_io_def INVALID_FILE_SIZE_def)
  show ?thesis
    by (simp add: process_directory_def sample_search_def process_entry_def no_tally_def
        build_pattern_def build_file_path_def needs_separator_def r list_store_def
        store_contains_iff Let_def)
qed

text \<open>
  The installer exits with 0 exactly when the directory's name leaves room for the pattern,
  the search finds at least one file, and every file in turn can be read whole (1 byte to 1 MiB),
  is added when installing, and is then found in the store. A failure of any file, whatever the
  others did, gives another code.
\<close>

theorem roots_exit_zero_iff:
  "fst (process_directory api io search directory install store) = 0 \<longleftrightarrow>
     (\<exists>pattern store'. build_pattern directory MAX_PATH = Some pattern \<and>
        (\<exists>e \<in> set (search pattern). \<not> snd e) \<and>
        good_pass api io directory install (search pattern) store = Some store' \<and>
        snd (process_directory api io search directory install store) = store')"
  by (rule directory_exit)



text \<open>
  Exit codes 3 and 4 tell exactly that the system's certificate library cannot be used and that the machine's
  root store cannot be opened; the store is not touched then, nor by counting or verifying.
\<close>

theorem roots_main_codes:
  "let (code, store, effects) = roots_main api io search w program arguments in
     (code = 3 \<longleftrightarrow> roots_arguments arguments \<and> \<not> crypt32_ready w) \<and>
     (code = 4 \<longleftrightarrow> roots_arguments arguments \<and> crypt32_ready w \<and> open_machine_root_store w = None) \<and>
     (store = open_machine_root_store w \<or> hd arguments = ''install'')"
proof -
  have "fst (process_directory api io search d i s) \<noteq> 3" "fst (process_directory api io search d i s) \<noteq> 4"
    for d i s using process_directory_code [of api io search d i s] by auto
  then show ?thesis
    by (auto simp: roots_main_def roots_arguments_def load_crypto_ready [symmetric] case_prod_beta Let_def
        process_directory_verify split: option.splits)
qed

text \<open>
  The program frees the library it loaded and closes the store it opened, the store first, on
  every path.
\<close>

theorem roots_main_releases:
  "filter (\<lambda>e. \<forall>u. e \<noteq> Usage u) (snd (snd (roots_main api io search w program arguments)))
     \<in> {[], [LibraryLoaded, LibraryFreed], [LibraryLoaded, StoreOpened, StoreClosed, LibraryFreed]}"
  by (auto simp: roots_main_def load_crypto_def case_prod_beta Let_def split: option.splits)

end
