(* ===== verification/Launcher_Text.thy ===== *)
theory Launcher_Text
  imports W2K_Prelude "HOL-Library.Sublist"
begin

text \<open>
  The string routines and the sanitizer of the diagnostics launcher
  (\<open>diagnostics/supermium_w2k_rc1_launcher.c\<close>). A C string is its characters before the NUL;
  \<open>char_at\<close> reads it like the code does, the NUL included. A destination buffer of a given
  capacity is the string in it; the room that a loop \<open>used + 1 < capacity\<close> has left is the
  capacity minus what is used minus one for the NUL. Lengths are natural numbers: every buffer
  of the launcher is at most 65536 bytes.
\<close>

section \<open>Strings\<close>

abbreviation NUL :: char where
  "NUL \<equiv> CHR 0x00"

definition char_at :: "string \<Rightarrow> nat \<Rightarrow> char" where
  "char_at s i = (if i < length s then s ! i else NUL)"

definition ci_equal_char :: "char \<Rightarrow> char \<Rightarrow> bool" where
  "ci_equal_char a b \<longleftrightarrow> to_lower a = to_lower b"

fun ci_starts_with :: "string \<Rightarrow> string \<Rightarrow> bool" where
  "ci_starts_with value [] = True"
| "ci_starts_with [] (p # ps) = False"
| "ci_starts_with (c # cs) (p # ps) = (ci_equal_char c p \<and> ci_starts_with cs ps)"

text \<open>The suffix at which the needle is found first.\<close>

fun ci_find_loop :: "string \<Rightarrow> string \<Rightarrow> string option" where
  "ci_find_loop [] needle = None"
| "ci_find_loop (c # cs) needle =
     (if ci_starts_with (c # cs) needle then Some (c # cs) else ci_find_loop cs needle)"

definition ci_find :: "string \<Rightarrow> string \<Rightarrow> string option" where
  "ci_find value needle = (if needle = [] then Some value else ci_find_loop value needle)"

text \<open>A copying loop with room for so many characters: what it writes and what is left.\<close>

fun fill :: "nat \<Rightarrow> string \<Rightarrow> string \<times> string" where
  "fill (Suc room) (c # cs) = (let (written, rest) = fill room cs in (c # written, rest))"
| "fill room source = ([], source)"

definition copy_string :: "string \<Rightarrow> nat \<Rightarrow> string option \<Rightarrow> string" where
  "copy_string destination capacity source =
     (if capacity = 0 then destination
      else case source of None \<Rightarrow> [] | Some s \<Rightarrow> fst (fill (capacity - 1) s))"

definition append_string :: "string \<Rightarrow> nat \<Rightarrow> string option \<Rightarrow> bool \<times> string" where
  "append_string destination capacity source =
     (let used = length destination in
        if used \<ge> capacity then (False, destination)
        else case source of
          None \<Rightarrow> (True, destination)
        | Some s \<Rightarrow>
            let (written, rest) = fill (capacity - 1 - used) s in
              (rest = [], destination @ written))"

definition join_path :: "nat \<Rightarrow> string \<Rightarrow> string \<Rightarrow> bool \<times> string" where
  "join_path capacity left right =
     (let destination = copy_string [] capacity (Some left);
          (ok, destination) =
            (if destination \<noteq> [] \<and> last destination \<noteq> CHR 0x5C \<and> last destination \<noteq> CHR ''/''
             then append_string destination capacity (Some [CHR 0x5C])
             else (True, destination)) in
        if \<not> ok then (False, destination)
        else append_string destination capacity (Some right))"

lemma fill_eq: "fill room s = (take room s, drop room s)"
  by (induction room s rule: fill.induct) auto

lemma copy_string_length: "0 < capacity \<Longrightarrow> length (copy_string d capacity s) < capacity"
  by (auto simp: copy_string_def fill_eq split: option.split)

text \<open>Joining succeeds exactly when the whole path and its NUL fit, and never overruns.\<close>

definition joined :: "string \<Rightarrow> string \<Rightarrow> string" where
  "joined left right =
     (if left \<noteq> [] \<and> last left \<noteq> CHR 0x5C \<and> last left \<noteq> CHR ''/''
      then left @ CHR 0x5C # right else left @ right)"

lemma join_path_short:
  assumes "length left < capacity"
  shows "join_path capacity left right =
    (length (joined left right) < capacity, take (capacity - 1) (joined left right))"
  using assms
  by (auto simp: join_path_def joined_def copy_string_def append_string_def fill_eq Let_def
      take_Cons') (cases right; simp)+

lemma join_path_length: "0 < capacity \<Longrightarrow> length (snd (join_path capacity left right)) < capacity"
  by (auto simp: join_path_def copy_string_def append_string_def fill_eq Let_def)

section \<open>What the sanitizer recognises\<close>

definition is_token_boundary :: "char \<Rightarrow> bool" where
  "is_token_boundary v \<longleftrightarrow> v = NUL \<or> \<not> (is_alnum v \<or> v = CHR ''_'' \<or> v = CHR ''-'')"

definition exact_sensitive_at :: "string \<Rightarrow> string \<Rightarrow> bool" where
  "exact_sensitive_at input sensitive \<longleftrightarrow>
     sensitive \<noteq> [] \<and> ci_starts_with input sensitive \<and>
     is_token_boundary (char_at input (length sensitive))"

text \<open>The digits of one group, at most \<open>room\<close> of them: value, count and the rest.\<close>

fun group_digits :: "nat \<Rightarrow> string \<Rightarrow> nat \<Rightarrow> nat \<Rightarrow> nat \<times> nat \<times> string" where
  "group_digits (Suc room) (c # cs) val digits =
     (if is_digit c then group_digits room cs (val * 10 + digit_value c) (Suc digits)
      else (val, digits, c # cs))"
| "group_digits room cursor val digits = (val, digits, cursor)"

text \<open>The loop over the groups, with the number of groups left and the position so far.\<close>

fun address_groups :: "nat \<Rightarrow> string \<Rightarrow> nat \<Rightarrow> (nat \<times> string) option" where
  "address_groups 0 cursor position = Some (position, cursor)"
| "address_groups (Suc groups) cursor position =
     (let (v, digits, cursor) = group_digits 3 cursor 0 0; position = position + digits in
        if digits = 0 \<or> v > 255 \<or> is_digit (char_at cursor 0) then None
        else if groups = 0 then Some (position, cursor)
        else if char_at cursor 0 \<noteq> CHR ''.'' then None
        else address_groups groups (drop 1 cursor) (position + 1))"

definition parse_ipv4_length :: "string \<Rightarrow> nat" where
  "parse_ipv4_length input =
     (if \<not> is_digit (char_at input 0) then 0
      else case address_groups 4 input 0 of
        None \<Rightarrow> 0
      | Some (position, cursor) \<Rightarrow>
          let c = char_at cursor 0 in
            if \<not> is_token_boundary c \<and> c \<noteq> CHR '':'' \<and> c \<noteq> CHR ''/'' \<and> c \<noteq> CHR '',''
            then 0 else position)"

definition strong_value_delimiter :: "char \<Rightarrow> bool" where
  "strong_value_delimiter c \<longleftrightarrow>
     c \<in> {NUL, CHR 0x0D, CHR 0x0A, CHR 0x22, CHR 0x27, CHR ''<'', CHR ''>'', CHR ''|'',
          CHR '','', CHR '';'', CHR '')'', CHR '']'', CHR ''}''}"

definition in_value :: "char \<Rightarrow> bool" where
  "in_value c \<longleftrightarrow> \<not> is_space c \<and> \<not> strong_value_delimiter c"

definition web_url_at :: "string \<Rightarrow> bool" where
  "web_url_at cursor \<longleftrightarrow> ci_starts_with cursor ''http://'' \<or> ci_starts_with cursor ''https://'' \<or>
     ci_starts_with cursor ''file://'' \<or> ci_starts_with cursor ''blob:''"

definition local_path_at :: "string \<Rightarrow> bool" where
  "local_path_at cursor \<longleftrightarrow>
     is_alpha (char_at cursor 0) \<and> char_at cursor 1 = CHR '':'' \<and>
       (char_at cursor 2 = CHR 0x5C \<or> char_at cursor 2 = CHR ''/'') \<or>
     char_at cursor 0 = CHR 0x5C \<and> char_at cursor 1 = CHR 0x5C"

definition label_at :: "string \<Rightarrow> bool" where
  "label_at cursor \<longleftrightarrow> ci_starts_with cursor ''username='' \<or> ci_starts_with cursor ''user_name='' \<or>
     ci_starts_with cursor ''user-name='' \<or> ci_starts_with cursor ''computername=''"

text \<open>The token at the cursor holds an at-sign, the last one neither first nor last in it.\<close>

definition email_at :: "string \<Rightarrow> bool" where
  "email_at cursor \<longleftrightarrow>
     (let token = takeWhile in_value cursor;
          after = length (takeWhile (\<lambda>c. c \<noteq> CHR ''@'') (rev token)) in
        CHR ''@'' \<in> set token \<and> after + 1 < length token \<and> 0 < after)"

section \<open>The sanitizer\<close>

record sensitive_names =
  g_username :: string
  g_computer_name :: string

definition at_boundary :: "char option \<Rightarrow> bool" where
  "at_boundary prev \<longleftrightarrow> (case prev of None \<Rightarrow> True | Some c \<Rightarrow> is_token_boundary c)"

text \<open>
  One round of the loop of \<open>sanitize_text\<close>, with room left in the output: the text it appends
  and the number of input characters it moves over. \<open>prev\<close> is the character before the
  cursor, if the cursor is not at the start.
\<close>

definition sanitize_round ::
    "sensitive_names \<Rightarrow> nat \<Rightarrow> char option \<Rightarrow> string \<Rightarrow> string \<times> nat" where
  "sanitize_round names room prev cursor =
     (if web_url_at cursor
      then (fst (fill room ''<web-url-redacted>''), length (takeWhile in_value cursor))
      else if local_path_at cursor
      then (fst (fill room ''<local-path-redacted>''),
            length (takeWhile (\<lambda>c. \<not> strong_value_delimiter c) cursor))
      else if label_at cursor
      then (let label = takeWhile (\<lambda>c. c \<noteq> CHR ''='') cursor @ ''='';
                (copied, _) = fill room label;
                (tag, _) = fill (room - length copied) ''<redacted>'';
                cursor = drop (length copied) cursor in
              (copied @ tag, length copied + length (takeWhile in_value cursor)))
      else if at_boundary prev \<and> exact_sensitive_at cursor (g_computer_name names)
      then (fst (fill room ''<computer-name-redacted>''), length (g_computer_name names))
      else if at_boundary prev \<and> exact_sensitive_at cursor (g_username names)
      then (fst (fill room ''<username-redacted>''), length (g_username names))
      else let ipv4_length = parse_ipv4_length cursor in
        if ipv4_length \<noteq> 0 then (fst (fill room ''<ip-address-redacted>''), ipv4_length)
        else if email_at cursor
        then (fst (fill room ''<email-redacted>''), length (takeWhile in_value cursor))
        else (take 1 cursor, 1))"

lemma in_value_start:
  assumes "ci_starts_with cursor (p # ps)" and "is_alpha p"
  shows "0 < length (takeWhile in_value cursor)"
proof -
  obtain c cs where c: "cursor = c # cs" "ci_equal_char c p"
    using assms(1) by (cases cursor) auto
  have "is_alpha c" using c(2) assms(2)
    by (auto simp: ci_equal_char_def ascii_simps of_char_of split: if_splits)
  then have "in_value c" by (auto simp: in_value_def strong_value_delimiter_def ascii_simps)
  with c show ?thesis by simp
qed

lemma web_url_moves: "web_url_at cursor \<Longrightarrow> 0 < length (takeWhile in_value cursor)"
  unfolding web_url_at_def
  by (elim disjE; erule in_value_start; simp add: ascii_simps)

lemma local_path_moves:
  assumes "local_path_at cursor"
  shows "0 < length (takeWhile (\<lambda>c. \<not> strong_value_delimiter c) cursor)"
proof (cases cursor)
  case Nil
  then show ?thesis using assms by (simp add: local_path_at_def char_at_def)
next
  case (Cons c cs)
  then have "is_alpha c \<or> c = CHR 0x5C" using assms by (auto simp: local_path_at_def char_at_def)
  then have "\<not> strong_value_delimiter c" by (auto simp: strong_value_delimiter_def ascii_simps)
  with Cons show ?thesis by simp
qed

lemma address_position: "address_groups n s p = Some (q, r) \<Longrightarrow> p \<le> q"
proof (induction n s p arbitrary: q r rule: address_groups.induct)
  case (2 n s p)
  then show ?case by (fastforce simp: Let_def split: prod.splits if_splits)
qed simp

lemma email_moves: "email_at cursor \<Longrightarrow> 0 < length (takeWhile in_value cursor)"
  by (auto simp: email_at_def Let_def)

lemma round_text_length:
  "0 < room \<Longrightarrow> length (fst (sanitize_round names room prev cursor)) \<le> room"
  by (auto simp: sanitize_round_def fill_eq Let_def)

lemma round_moves:
  assumes "cursor \<noteq> []" and "0 < room"
  shows "0 < snd (sanitize_round names room prev cursor)"
  using assms web_url_moves [of cursor] local_path_moves [of cursor] email_moves [of cursor]
  by (auto simp: sanitize_round_def fill_eq Let_def exact_sensitive_at_def)

text \<open>
  The loop of \<open>sanitize_text\<close>. It ends because every round moves the cursor.
\<close>

function sanitize_loop ::
    "sensitive_names \<Rightarrow> nat \<Rightarrow> string \<Rightarrow> char option \<Rightarrow> string \<Rightarrow> string" where
  "sanitize_loop names capacity out prev cursor =
     (if cursor = [] \<or> \<not> length out + 1 < capacity then out
      else let (piece, moved) = sanitize_round names (capacity - 1 - length out) prev cursor in
        sanitize_loop names capacity (out @ piece) (Some (char_at cursor (moved - 1)))
          (drop moved cursor))"
  by pat_completeness auto

termination
proof (relation "measure (\<lambda>(names, capacity, out, prev, cursor). length cursor)")
  fix names :: sensitive_names and capacity :: nat and out :: string
    and prev :: "char option" and cursor :: string
    and x :: "string \<times> nat" and piece :: string and moved :: nat
  assume nonempty: "\<not> (cursor = [] \<or> \<not> length out + 1 < capacity)"
    and x: "x = sanitize_round names (capacity - 1 - length out) prev cursor"
    and pair: "(piece, moved) = x"
  have "0 < snd (sanitize_round names (capacity - 1 - length out) prev cursor)"
    using nonempty by (intro round_moves) auto
  then have "0 < moved" using x pair by (metis snd_conv)
  then show "((names, capacity, out @ piece, Some (char_at cursor (moved - 1)), drop moved cursor),
      names, capacity, out, prev, cursor)
    \<in> measure (\<lambda>(names, capacity, out, prev, cursor). length cursor)"
    using nonempty by (cases cursor) auto
qed simp

declare sanitize_loop.simps [simp del]

definition sanitize_text :: "sensitive_names \<Rightarrow> string \<Rightarrow> nat \<Rightarrow> string" where
  "sanitize_text names input capacity = sanitize_loop names capacity [] None input"

section \<open>What one round emits\<close>

text \<open>
  A round hides something behind a tag, copies a label and hides its value, or copies the one
  character under the cursor because no rule applies there.
\<close>

definition no_rule_at :: "sensitive_names \<Rightarrow> char option \<Rightarrow> string \<Rightarrow> bool" where
  "no_rule_at names prev cursor \<longleftrightarrow>
     \<not> web_url_at cursor \<and> \<not> local_path_at cursor \<and> \<not> label_at cursor \<and>
     \<not> (at_boundary prev \<and> exact_sensitive_at cursor (g_computer_name names)) \<and>
     \<not> (at_boundary prev \<and> exact_sensitive_at cursor (g_username names)) \<and>
     parse_ipv4_length cursor = 0 \<and> \<not> email_at cursor"

definition tag_char :: "char \<Rightarrow> bool" where
  "tag_char c \<longleftrightarrow> is_alnum c \<or> c = CHR ''-''"

definition is_tag :: "string \<Rightarrow> bool" where
  "is_tag tag \<longleftrightarrow> (\<exists>body. tag = ''<'' @ body @ ''>'' \<and> (\<forall>c \<in> set body. tag_char c))"

definition label_char :: "char \<Rightarrow> bool" where
  "label_char c \<longleftrightarrow> is_alnum c \<or> c = CHR ''-'' \<or> c = CHR ''_''"

lemma is_tag_tags:
  "is_tag ''<web-url-redacted>''" "is_tag ''<local-path-redacted>''" "is_tag ''<redacted>''"
  "is_tag ''<computer-name-redacted>''" "is_tag ''<username-redacted>''"
  "is_tag ''<ip-address-redacted>''" "is_tag ''<email-redacted>''"
proof -
  have tg: "is_tag (CHR ''<'' # body @ ''>'')" if "list_all tag_char body" for body
    unfolding is_tag_def using that by (auto simp: list_all_iff)
  show "is_tag ''<web-url-redacted>''" using tg [of "''web-url-redacted''"]
    by (simp add: tag_char_def ascii_simps)
  show "is_tag ''<local-path-redacted>''" using tg [of "''local-path-redacted''"]
    by (simp add: tag_char_def ascii_simps)
  show "is_tag ''<redacted>''" using tg [of "''redacted''"]
    by (simp add: tag_char_def ascii_simps)
  show "is_tag ''<computer-name-redacted>''" using tg [of "''computer-name-redacted''"]
    by (simp add: tag_char_def ascii_simps)
  show "is_tag ''<username-redacted>''" using tg [of "''username-redacted''"]
    by (simp add: tag_char_def ascii_simps)
  show "is_tag ''<ip-address-redacted>''" using tg [of "''ip-address-redacted''"]
    by (simp add: tag_char_def ascii_simps)
  show "is_tag ''<email-redacted>''" using tg [of "''email-redacted''"]
    by (simp add: tag_char_def ascii_simps)
qed

lemma ci_starts_with_iff:
  "ci_starts_with v p \<longleftrightarrow>
     length p \<le> length v \<and> map to_lower (take (length p) v) = map to_lower p"
  by (induction v p rule: ci_starts_with.induct) (auto simp: ci_equal_char_def)

lemma to_lower_same:
  assumes "to_lower c = to_lower d"
  shows "label_char c = label_char d" "c = CHR ''='' \<longleftrightarrow> d = CHR ''=''"
    "c = CHR ''<'' \<longleftrightarrow> d = CHR ''<''" "c = CHR ''>'' \<longleftrightarrow> d = CHR ''>''"
    "c = CHR '':'' \<longleftrightarrow> d = CHR '':''" "c = CHR 0x5C \<longleftrightarrow> d = CHR 0x5C"
proof -
  have s: "(c = e) = (d = e)" if "to_lower e = e" "\<not> is_lower e" for e
    using assms that by (auto simp: ascii_simps of_char_of split: if_splits)
  show "label_char c = label_char d"
    using assms s [of "CHR ''-''"] s [of "CHR ''_''"]
    by (auto simp: label_char_def ascii_simps of_char_of split: if_splits)
  show "c = CHR ''='' \<longleftrightarrow> d = CHR ''=''" by (rule s) (simp_all add: ascii_simps)
  show "c = CHR ''<'' \<longleftrightarrow> d = CHR ''<''" by (rule s) (simp_all add: ascii_simps)
  show "c = CHR ''>'' \<longleftrightarrow> d = CHR ''>''" by (rule s) (simp_all add: ascii_simps)
  show "c = CHR '':'' \<longleftrightarrow> d = CHR '':''" by (rule s) (simp_all add: ascii_simps)
  show "c = CHR 0x5C \<longleftrightarrow> d = CHR 0x5C" by (rule s) (simp_all add: ascii_simps)
qed

text \<open>The label at the cursor, up to its equals sign.\<close>

definition labels :: "string list" where
  "labels = [''username='', ''user_name='', ''user-name='', ''computername='']"

lemma label_at_iff: "label_at cursor \<longleftrightarrow> (\<exists>l \<in> set labels. ci_starts_with cursor l)"
  by (auto simp: label_at_def labels_def)

lemma labels_shape:
  assumes "l \<in> set labels"
  obtains body where "l = body @ ''=''" "list_all label_char body" "body \<noteq> []"
proof -
  have "l = butlast l @ ''='' \<and> list_all label_char (butlast l) \<and> butlast l \<noteq> []"
    using assms by (auto simp: labels_def label_char_def ascii_simps)
  then show ?thesis using that by blast
qed

definition label_part :: "string \<Rightarrow> string \<Rightarrow> string \<Rightarrow> bool" where
  "label_part cursor label rest \<longleftrightarrow>
     cursor = label @ CHR ''='' # rest \<and> (\<forall>c \<in> set label. label_char c) \<and> label \<noteq> [] \<and>
     label_at (label @ ''='')"

lemma label_partI:
  assumes "ci_starts_with cursor (body @ ''='')" and "body @ ''='' \<in> set labels"
    and "list_all label_char body" and "body \<noteq> []"
  shows "label_part cursor (take (length body) cursor) (drop (Suc (length body)) cursor)"
proof -
  let ?n = "length body"
  have len: "Suc ?n \<le> length cursor"
    and m: "map to_lower (take (Suc ?n) cursor) = map to_lower (body @ ''='')"
    using assms(1) by (simp_all add: ci_starts_with_iff)
  have "take (Suc ?n) cursor = take ?n cursor @ [cursor ! ?n]"
    using len by (simp add: take_Suc_conv_app_nth)
  with m have m1: "map to_lower (take ?n cursor) = map to_lower body"
    and m2: "to_lower (cursor ! ?n) = to_lower (CHR ''='')" by simp_all
  have eq: "cursor ! ?n = CHR ''=''" using to_lower_same(2) [OF m2] by simp
  have lab: "\<forall>c \<in> set (take ?n cursor). label_char c"
  proof
    fix c assume "c \<in> set (take ?n cursor)"
    then have "to_lower c \<in> set (map to_lower body)" unfolding m1 [symmetric] by simp
    then obtain d where "d \<in> set body" "to_lower c = to_lower d" by auto
    then show "label_char c" using to_lower_same(1) [of c d] assms(3) by (simp add: list_all_iff)
  qed
  have cur: "cursor = take ?n cursor @ CHR ''='' # drop (Suc ?n) cursor"
    using len eq by (metis Cons_nth_drop_Suc Suc_le_lessD append_take_drop_id)
  have nonempty: "take ?n cursor \<noteq> []" using len assms(4) by (cases cursor; cases body) auto
  have "ci_starts_with (take ?n cursor @ ''='') (body @ ''='')"
    using m1 len by (simp add: ci_starts_with_iff)
  then have "label_at (take ?n cursor @ ''='')" using assms(2) unfolding label_at_iff by blast
  then show ?thesis using cur lab nonempty unfolding label_part_def by blast
qed

lemma label_split:
  assumes "label_at cursor"
  obtains label rest where "label_part cursor label rest"
proof -
  obtain l where l: "l \<in> set labels" "ci_starts_with cursor l"
    using assms unfolding label_at_iff by blast
  obtain body where "l = body @ ''=''" "list_all label_char body" "body \<noteq> []"
    using labels_shape [OF l(1)] .
  then show ?thesis using that label_partI [of cursor body] l by blast
qed

lemma label_part_takeWhile:
  assumes "label_part cursor label rest"
  shows "takeWhile (\<lambda>c. c \<noteq> CHR ''='') cursor = label"
proof -
  have "c \<noteq> CHR ''=''" if "c \<in> set label" for c
    using assms that unfolding label_part_def label_char_def by (auto simp: ascii_simps)
  then show ?thesis using assms by (simp add: label_part_def takeWhile_append2)
qed

datatype emitted = Hidden string | Labelled string string | Copied

definition round_emits ::
    "sensitive_names \<Rightarrow> nat \<Rightarrow> char option \<Rightarrow> string \<Rightarrow> string \<Rightarrow> nat \<Rightarrow> emitted \<Rightarrow> bool" where
  "round_emits names room prev cursor piece moved e \<longleftrightarrow>
     (case e of
        Hidden tag \<Rightarrow> is_tag tag \<and> piece = take room tag
      | Labelled label tag \<Rightarrow>
          (\<exists>rest. label_part cursor label rest) \<and> is_tag tag \<and> piece = take room (label @ ''='' @ tag)
      | Copied \<Rightarrow> no_rule_at names prev cursor \<and> piece = [hd cursor] \<and> moved = 1)"

lemma labelled_round:
  assumes "\<not> web_url_at cursor" "\<not> local_path_at cursor" "label_at cursor" and l: "label_part cursor label rest"
  shows "fst (sanitize_round names room prev cursor) = take room (label @ ''='' @ ''<redacted>'')"
proof (cases "Suc (length label) \<le> room")
  case True
  then obtain k where "room = Suc (length label) + k" using le_Suc_ex by blast
  then show ?thesis using assms(1-3) label_part_takeWhile [OF l]
    by (simp add: sanitize_round_def fill_eq Let_def)
next
  case False
  then show ?thesis using assms(1-3) label_part_takeWhile [OF l]
    by (simp add: sanitize_round_def fill_eq Let_def)
qed

lemma hidden_round:
  assumes "\<not> (\<not> web_url_at cursor \<and> \<not> local_path_at cursor \<and> label_at cursor)"
    and rule: "\<not> no_rule_at names prev cursor"
  obtains t where "is_tag t" "fst (sanitize_round names room prev cursor) = take room t"
proof -
  let ?c = "at_boundary prev \<and> exact_sensitive_at cursor (g_computer_name names)"
  let ?u = "at_boundary prev \<and> exact_sensitive_at cursor (g_username names)"
  note unfold = sanitize_round_def fill_eq Let_def fst_conv
  consider (url) "web_url_at cursor" | (local) "\<not> web_url_at cursor" "local_path_at cursor"
    | (rest) "\<not> web_url_at cursor" "\<not> local_path_at cursor" "\<not> label_at cursor"
    using assms(1) by blast
  then show ?thesis
  proof cases
    case url
    then show ?thesis using that is_tag_tags(1) unfolding unfold by auto
  next
    case local
    then show ?thesis using that is_tag_tags(2) unfolding unfold by auto
  next
    case rest
    consider (computer) ?c | (user) "\<not> ?c" ?u | (ip) "\<not> ?c" "\<not> ?u" "parse_ipv4_length cursor \<noteq> 0"
      | (email) "\<not> ?c" "\<not> ?u" "parse_ipv4_length cursor = 0" "email_at cursor"
      using rest rule unfolding no_rule_at_def by argo
    then show ?thesis
    proof cases
      case computer
      with rest show ?thesis using that is_tag_tags(4) unfolding unfold by auto
    next
      case user
      with rest have "fst (sanitize_round names room prev cursor) = take room ''<username-redacted>''"
        unfolding unfold by auto
      then show ?thesis by (rule that [OF is_tag_tags(5)])
    next
      case ip
      with rest have "fst (sanitize_round names room prev cursor) = take room ''<ip-address-redacted>''"
        unfolding unfold by auto
      then show ?thesis by (rule that [OF is_tag_tags(6)])
    next
      case email
      with rest have "fst (sanitize_round names room prev cursor) = take room ''<email-redacted>''"
        unfolding unfold by auto
      then show ?thesis by (rule that [OF is_tag_tags(7)])
    qed
  qed
qed

lemma round_emits_some:
  assumes "cursor \<noteq> []"
  shows "\<exists>e. round_emits names room prev cursor
    (fst (sanitize_round names room prev cursor)) (snd (sanitize_round names room prev cursor)) e"
    (is "\<exists>e. ?P e")
proof (cases "\<not> web_url_at cursor \<and> \<not> local_path_at cursor \<and> label_at cursor")
  case True
  obtain label rest where l: "label_part cursor label rest" using True label_split by blast
  then have "?P (Labelled label ''<redacted>'')"
    using labelled_round [OF _ _ _ l] True is_tag_tags by (auto simp: round_emits_def)
  then show ?thesis ..
next
  case False
  show ?thesis
  proof (cases "no_rule_at names prev cursor")
    case True
    then have "?P Copied" using assms
      by (cases cursor) (auto simp: no_rule_at_def round_emits_def sanitize_round_def)
    then show ?thesis ..
  next
    case rule: False
    obtain t where "is_tag t" "fst (sanitize_round names room prev cursor) = take room t"
      by (rule hidden_round [OF False rule])
    then have "?P (Hidden t)" by (simp add: round_emits_def)
    then show ?thesis ..
  qed
qed

section \<open>The output as a suffix-wise function\<close>

text \<open>What the loop appends from the cursor on, with so much room left.\<close>

definition sanitized :: "sensitive_names \<Rightarrow> nat \<Rightarrow> char option \<Rightarrow> string \<Rightarrow> string" where
  "sanitized names room prev cursor = sanitize_loop names (Suc room) [] prev cursor"

abbreviation "after_round names room prev cursor f \<equiv>
  (case sanitize_round names room prev cursor of (piece, moved) \<Rightarrow>
     f piece (Some (char_at cursor (moved - 1))) (drop moved cursor))"

lemma sanitize_loop_append:
  "length out < capacity \<Longrightarrow> sanitize_loop names capacity out prev cursor =
     out @ sanitized names (capacity - 1 - length out) prev cursor"
proof (induction cursor arbitrary: out capacity prev rule: length_induct)
  case (1 cursor)
  let ?room = "capacity - 1 - length out"
  show ?case
  proof (cases "cursor = [] \<or> ?room = 0")
    case True
    then show ?thesis using 1(2)
      by (auto simp: sanitized_def sanitize_loop.simps [of _ _ _ _ cursor])
  next
    case False
    obtain piece moved where r: "sanitize_round names ?room prev cursor = (piece, moved)"
      by (cases "sanitize_round names ?room prev cursor")
    have short: "length piece \<le> ?room" and "0 < moved"
      using round_text_length [of ?room names prev cursor] round_moves [of cursor ?room names prev]
        False r by auto
    then have less: "length (drop moved cursor) < length cursor" using False by simp
    note IH = 1(1) [rule_format, OF less]
    let ?p = "Some (char_at cursor (moved - 1))"
    have "sanitize_loop names capacity out prev cursor =
        sanitize_loop names capacity (out @ piece) ?p (drop moved cursor)"
      using False r 1(2) by (subst sanitize_loop.simps) auto
    also have "\<dots> = (out @ piece) @
        sanitized names (capacity - 1 - length (out @ piece)) ?p (drop moved cursor)"
      using short 1(2) False by (intro IH) auto
    finally have l: "sanitize_loop names capacity out prev cursor = \<dots>" .
    have "sanitized names ?room prev cursor =
        sanitize_loop names (Suc ?room) piece ?p (drop moved cursor)"
      unfolding sanitized_def using False r by (subst sanitize_loop.simps) auto
    also have "\<dots> = piece @ sanitized names (Suc ?room - 1 - length piece) ?p (drop moved cursor)"
      using short by (intro IH) auto
    finally show ?thesis using l by simp
  qed
qed

lemma sanitized_stop: "cursor = [] \<or> room = 0 \<Longrightarrow> sanitized names room prev cursor = []"
  unfolding sanitized_def by (subst sanitize_loop.simps) auto

text \<open>
  One round and then the rest: the form all proofs below use.
\<close>

lemma sanitized_round:
  assumes "cursor \<noteq> []" and "0 < room"
  obtains piece moved e where
    "round_emits names room prev cursor piece moved e"
    "sanitized names room prev cursor =
       piece @ sanitized names (room - length piece) (Some (char_at cursor (moved - 1)))
         (drop moved cursor)"
    "length (drop moved cursor) < length cursor" "length piece \<le> room"
proof -
  obtain piece moved where r: "sanitize_round names room prev cursor = (piece, moved)"
    by (cases "sanitize_round names room prev cursor")
  have short: "length piece \<le> room" and "0 < moved"
    using round_text_length [of room names prev cursor] round_moves [of cursor room names prev]
      assms r by auto
  then have less: "length (drop moved cursor) < length cursor" using assms(1) by simp
  have "sanitized names room prev cursor =
      sanitize_loop names (Suc room) piece (Some (char_at cursor (moved - 1))) (drop moved cursor)"
    unfolding sanitized_def using assms r by (subst sanitize_loop.simps) auto
  also have "\<dots> = piece @ sanitized names (room - length piece) (Some (char_at cursor (moved - 1)))
      (drop moved cursor)"
    using short by (subst sanitize_loop_append) auto
  finally have eq: "sanitized names room prev cursor = \<dots>" .
  obtain e where "round_emits names room prev cursor piece moved e"
    using round_emits_some [OF assms(1), of names room prev] r by auto
  from that [OF this eq less short] show ?thesis .
qed

lemma sanitized_length: "length (sanitized names room prev cursor) \<le> room"
proof (induction cursor arbitrary: room prev rule: length_induct)
  case (1 cursor)
  show ?case
  proof (cases "cursor = [] \<or> room = 0")
    case True
    then show ?thesis by (simp add: sanitized_stop)
  next
    case False
    then obtain piece moved e where s: "sanitized names room prev cursor =
       piece @ sanitized names (room - length piece) (Some (char_at cursor (moved - 1)))
         (drop moved cursor)" "length (drop moved cursor) < length cursor" "length piece \<le> room"
      using sanitized_round [of cursor room names prev] by (metis gr0I)
    have "length (sanitized names (room - length piece) (Some (char_at cursor (moved - 1)))
         (drop moved cursor)) \<le> room - length piece" using 1 s(2) by blast
    then show ?thesis using s by simp
  qed
qed

lemma take_short: "length (take n xs) \<noteq> n \<Longrightarrow> take n xs = xs"
  by (cases "n \<le> length xs") auto

text \<open>
  An output prefix without an opening bracket was copied from the input.
\<close>

lemma bracket_prefix:
  assumes w: "prefix w (piece @ sanitized names (room - length piece) before rest)" "CHR ''<'' \<notin> set w"
    and p: "piece = take room (label @ CHR ''<'' # t)"
  shows "prefix w label"
proof -
  have "prefix w (take room (label @ CHR ''<'' # t))"
  proof (cases "length piece = room")
    case True
    then show ?thesis using w(1) p by (simp add: sanitized_stop)
  next
    case False
    then have "piece = label @ CHR ''<'' # t" using p take_short by metis
    then show ?thesis using w p by (auto simp: prefix_append prefix_Cons)
  qed
  then have "prefix w (label @ CHR ''<'' # t)" using take_is_prefix prefix_order.trans by blast
  then show ?thesis using w(2) by (auto simp: prefix_append prefix_Cons)
qed

lemma sanitized_prefix:
  "prefix w (sanitized names room prev cursor) \<Longrightarrow> CHR ''<'' \<notin> set w \<Longrightarrow> prefix w cursor"
proof (induction cursor arbitrary: room prev w rule: length_induct)
  case (1 cursor)
  show ?case
  proof (cases "cursor = [] \<or> room = 0")
    case True
    then show ?thesis using 1(2) by (simp add: sanitized_stop)
  next
    case False
    obtain piece moved e where r: "round_emits names room prev cursor piece moved e"
      and s: "sanitized names room prev cursor =
        piece @ sanitized names (room - length piece) (Some (char_at cursor (moved - 1))) (drop moved cursor)"
      and less: "length (drop moved cursor) < length cursor"
      using sanitized_round [of cursor room names prev] False by (metis gr0I)
    note w = 1(2) [unfolded s]
    show ?thesis
    proof (cases e)
      case (Hidden t)
      then obtain body where "piece = take room ([] @ CHR ''<'' # body @ ''>'')"
        using r by (auto simp: round_emits_def is_tag_def)
      from bracket_prefix [OF w 1(3) this] show ?thesis by simp
    next
      case (Labelled label t)
      then obtain rest body where l: "label_part cursor label rest"
        and p: "piece = take room ((label @ ''='') @ CHR ''<'' # body @ ''>'')"
        using r by (auto simp: round_emits_def is_tag_def)
      have "prefix (label @ ''='') cursor" using l by (simp add: label_part_def)
      then show ?thesis using bracket_prefix [OF w 1(3) p] by (metis prefix_order.trans)
    next
      case Copied
      then have p: "piece = [hd cursor]" "moved = 1" using r by (auto simp: round_emits_def)
      obtain c cs where c: "cursor = c # cs" using False by (cases cursor) auto
      show ?thesis
      proof (cases w)
        case (Cons x ws)
        then have "x = c" "prefix ws (drop moved cursor)"
          using w p c "1.IH" less 1(3) by auto
        then show ?thesis using p c Cons by simp
      qed simp
    qed
  qed
qed

section \<open>URLs and local paths do not reach the output\<close>

lemma ci_prefix:
  assumes "ci_starts_with v p"
  obtains w where "prefix w v" "map to_lower w = map to_lower p"
    "\<And>x. prefix w x \<Longrightarrow> ci_starts_with x p"
proof
  show "prefix (take (length p) v) v" by (rule take_is_prefix)
  show m: "map to_lower (take (length p) v) = map to_lower p"
    using assms by (simp add: ci_starts_with_iff)
  show "ci_starts_with x p" if "prefix (take (length p) v) x" for x
    using that m assms by (auto simp: ci_starts_with_iff elim!: prefixE)
qed

lemma map_to_lower_mem:
  assumes "map to_lower w = map to_lower p" and "to_lower c = c" and "\<not> is_lower c"
  shows "c \<in> set w \<longleftrightarrow> c \<in> set p"
proof -
  have s: "to_lower d = c \<longleftrightarrow> d = c" for d
    using assms(2,3) by (auto simp: ascii_simps of_char_of split: if_splits)
  have "c \<in> set xs \<longleftrightarrow> c \<in> set (map to_lower xs)" for xs
    using s assms(2) by (metis (no_types, lifting) image_iff list.set_map)
  then show ?thesis using assms(1) by metis
qed

definition telling :: "string \<Rightarrow> bool" where
  "telling v \<longleftrightarrow> web_url_at v \<or> local_path_at v"

definition marks :: "string \<Rightarrow> bool" where
  "marks w \<longleftrightarrow> w \<noteq> [] \<and> CHR ''<'' \<notin> set w \<and> CHR ''>'' \<notin> set w \<and>
     (CHR '':'' \<in> set w \<or> CHR 0x5C \<in> set w) \<and> (\<forall>x. prefix w x \<longrightarrow> telling x)"

lemma scheme_marks:
  assumes "ci_starts_with v p" and "p \<noteq> []" and "CHR ''<'' \<notin> set p" and "CHR ''>'' \<notin> set p"
    and "CHR '':'' \<in> set p" and "\<And>x. ci_starts_with x p \<Longrightarrow> telling x"
  shows "\<exists>w. prefix w v \<and> marks w"
proof -
  obtain w where w: "prefix w v" "map to_lower w = map to_lower p"
    "\<And>x. prefix w x \<Longrightarrow> ci_starts_with x p" using ci_prefix [OF assms(1)] by blast
  have "w \<noteq> []" using w(2) assms(2) by auto
  moreover have "CHR ''<'' \<notin> set w \<and> CHR ''>'' \<notin> set w \<and> CHR '':'' \<in> set w"
    using map_to_lower_mem [OF w(2), of "CHR ''<''"] map_to_lower_mem [OF w(2), of "CHR ''>''"]
      map_to_lower_mem [OF w(2), of "CHR '':''"] assms(3,4,5) by (simp add: ascii_simps)
  ultimately show ?thesis using w(1,3) assms(6) unfolding marks_def by blast
qed

lemma local_marks:
  assumes "local_path_at v"
  shows "\<exists>w. prefix w v \<and> marks w"
proof -
  have three: "\<exists>w. prefix w v \<and> marks w" if "is_alpha (char_at v 0)" "char_at v 1 = CHR '':''"
    "char_at v 2 = CHR 0x5C \<or> char_at v 2 = CHR ''/''"
  proof -
    note h = that
    obtain a b c vs where v: "v = a # b # c # vs"
      using h by (cases v; cases "tl v"; cases "tl (tl v)")
        (auto simp: char_at_def ascii_simps split: if_splits)
    have "telling x" if "prefix [a, b, c] x" for x
      using that \<open>is_alpha (char_at v 0)\<close> \<open>char_at v 1 = CHR '':''\<close>
        \<open>char_at v 2 = CHR 0x5C \<or> char_at v 2 = CHR ''/''\<close> v
      by (auto simp: telling_def local_path_at_def char_at_def elim!: prefixE)
    moreover have "a \<noteq> CHR ''<''" "a \<noteq> CHR ''>''"
      using that(1) v by (auto simp: char_at_def ascii_simps)
    ultimately have "marks [a, b, c]"
      using that(2,3) v unfolding marks_def by (auto simp: char_at_def)
    moreover have "prefix [a, b, c] v" using v by simp
    ultimately show ?thesis by blast
  qed
  have two: "\<exists>w. prefix w v \<and> marks w" if "char_at v 0 = CHR 0x5C" "char_at v 1 = CHR 0x5C"
  proof -
    note h = that
    obtain vs where v: "v = CHR 0x5C # CHR 0x5C # vs"
      using h by (cases v; cases "tl v") (auto simp: char_at_def split: if_splits)
    have "telling x" if "prefix [CHR 0x5C, CHR 0x5C] x" for x
      using that by (auto simp: telling_def local_path_at_def char_at_def elim!: prefixE)
    then have "marks [CHR 0x5C, CHR 0x5C]" unfolding marks_def by auto
    moreover have "prefix [CHR 0x5C, CHR 0x5C] v" using v by simp
    ultimately show ?thesis by blast
  qed
  show ?thesis using assms three two unfolding local_path_at_def by blast
qed

lemma telling_marks:
  assumes "telling v"
  shows "\<exists>w. prefix w v \<and> marks w"
proof -
  have t: "telling x" if "ci_starts_with x ''http://'' \<or> ci_starts_with x ''https://'' \<or>
     ci_starts_with x ''file://'' \<or> ci_starts_with x ''blob:''" for x
    using that by (simp add: telling_def web_url_at_def)
  consider "ci_starts_with v ''http://''" | "ci_starts_with v ''https://''"
    | "ci_starts_with v ''file://''" | "ci_starts_with v ''blob:''" | "local_path_at v"
    using assms unfolding telling_def web_url_at_def by blast
  then show ?thesis
  proof cases
    case 1 show ?thesis by (rule scheme_marks [OF 1]) (use t in auto)
  next
    case 2 show ?thesis by (rule scheme_marks [OF 2]) (use t in auto)
  next
    case 3 show ?thesis by (rule scheme_marks [OF 3]) (use t in auto)
  next
    case 4 show ?thesis by (rule scheme_marks [OF 4]) (use t in auto)
  next
    case 5 then show ?thesis by (rule local_marks)
  qed
qed

text \<open>What a hiding round emits is all that is left or ends with the closing bracket.\<close>

lemma quiet_chars:
  "tag_char c \<or> label_char c \<or> c \<in> {CHR ''<'', CHR ''>'', CHR ''=''} \<Longrightarrow>
   c \<noteq> CHR '':'' \<and> c \<noteq> CHR 0x5C"
  by (auto simp: tag_char_def label_char_def ascii_simps)

lemma round_quiet:
  assumes "round_emits names room prev cursor piece moved e" and "e \<noteq> Copied" and "0 < room"
  shows "piece \<noteq> [] \<and> (length piece = room \<or> last piece = CHR ''>'') \<and>
    CHR '':'' \<notin> set piece \<and> CHR 0x5C \<notin> set piece"
proof -
  have "\<exists>label body. (\<forall>c \<in> set label. label_char c \<or> c = CHR ''='') \<and>
      (\<forall>c \<in> set body. tag_char c) \<and> piece = take room (label @ CHR ''<'' # body @ ''>'')"
  proof (cases e)
    case (Hidden t)
    then obtain body where "piece = take room ([] @ CHR ''<'' # body @ ''>'')" "\<forall>c \<in> set body. tag_char c"
      using assms(1) by (auto simp: round_emits_def is_tag_def)
    then show ?thesis by (intro exI [of _ "[]"] exI [of _ body]) auto
  next
    case (Labelled label t)
    then obtain rest body where l: "label_part cursor label rest" "\<forall>c \<in> set body. tag_char c"
      and p: "piece = take room ((label @ ''='') @ CHR ''<'' # body @ ''>'')"
      using assms(1) by (auto simp: round_emits_def is_tag_def)
    then show ?thesis
      by (intro exI [of _ "label @ ''=''"] exI [of _ body]) (auto simp: label_part_def)
  qed (use assms(2) in simp)
  then obtain label body where l: "\<forall>c \<in> set label. label_char c \<or> c = CHR ''=''"
    and b: "\<forall>c \<in> set body. tag_char c" and p: "piece = take room (label @ CHR ''<'' # body @ ''>'')"
    by blast
  have "c \<noteq> CHR '':'' \<and> c \<noteq> CHR 0x5C" if "c \<in> set piece" for c
    using in_set_takeD [OF that [unfolded p]] l b by (intro quiet_chars) auto
  moreover have "length piece = room \<or> last piece = CHR ''>''" using p take_short
    by (metis append_Cons append_assoc last_snoc)
  moreover have "piece \<noteq> []" using p assms(3) by (cases label) auto
  ultimately show ?thesis by blast
qed

lemma append_split:
  assumes "u @ v = p @ r"
  shows "(\<exists>us. u = p @ us \<and> r = us @ v) \<or> (\<exists>us. p = u @ us \<and> v = us @ r \<and> us \<noteq> [])"
proof -
  obtain us where "u = p @ us \<and> us @ v = r \<or> u @ us = p \<and> v = us @ r"
    using assms unfolding append_eq_append_conv2 by blast
  then show ?thesis by (cases "us = []") auto
qed

text \<open>A cut in the output is in the piece of the first round, or in what the later rounds write.\<close>

lemma sanitized_cut:
  assumes "sanitized names room prev cursor = u @ v" "v \<noteq> []"
  obtains (later) piece moved e us where "cursor \<noteq> []" "0 < room" "round_emits names room prev cursor piece moved e"
      "u = piece @ us" "length (drop moved cursor) < length cursor"
      "sanitized names (room - length piece) (Some (char_at cursor (moved - 1))) (drop moved cursor) = us @ v"
    | (here) piece moved e us where "cursor \<noteq> []" "0 < room" "round_emits names room prev cursor piece moved e"
      "piece = u @ us" "us \<noteq> []"
      "v = us @ sanitized names (room - length piece) (Some (char_at cursor (moved - 1))) (drop moved cursor)"
proof -
  have pos: "cursor \<noteq> []" "0 < room" using assms sanitized_stop by (metis append_is_Nil_conv gr0I)+
  then obtain piece moved e where r: "round_emits names room prev cursor piece moved e"
    and s: "sanitized names room prev cursor =
      piece @ sanitized names (room - length piece) (Some (char_at cursor (moved - 1))) (drop moved cursor)"
    and less: "length (drop moved cursor) < length cursor"
    using sanitized_round [of cursor room names prev] by metis
  have "u @ v = piece @ sanitized names (room - length piece) (Some (char_at cursor (moved - 1))) (drop moved cursor)"
    using assms(1) s by simp
  from append_split [OF this] show ?thesis using later [OF pos r _ less] here [OF pos r] by blast
qed

text \<open>A text without the closing bracket that begins inside a hidden piece ends inside it.\<close>

lemma hidden_prefix:
  assumes r: "round_emits names room prev cursor piece moved e" "e \<noteq> Copied" "0 < room"
    and p: "piece = u @ us" "us \<noteq> []" and w: "CHR ''>'' \<notin> set w"
    and np: "prefix w (us @ sanitized names (room - length piece) before rest)"
  shows "prefix w us"
proof (cases "length piece = room")
  case True
  then show ?thesis using np by (simp add: sanitized_stop)
next
  case False
  then have "last us = CHR ''>''" using round_quiet [OF r] p by simp
  then obtain ys where us: "us = ys @ ''>''" using p(2) by (metis append_butlast_last_id)
  then have "prefix w (ys @ CHR ''>'' # sanitized names (room - length piece) before rest)" using np by simp
  then have "prefix w ys \<or> CHR ''>'' \<in> set w" unfolding prefix_append prefix_Cons by fastforce
  then have "prefix w ys" using w by simp
  then show ?thesis unfolding us by (rule prefix_prefix)
qed

lemma sanitized_not_telling:
  "sanitized names room prev cursor = u @ v \<Longrightarrow> \<not> telling v"
proof (induction cursor arbitrary: room prev u rule: length_induct)
  case (1 cursor)
  show ?case
  proof
    assume tell: "telling v"
    then obtain w where w: "prefix w v" "marks w" using telling_marks by blast
    then have "v \<noteq> []" by (auto simp: marks_def)
    with 1(2) show False
    proof (cases rule: sanitized_cut)
      case later
      then show False using "1.IH" tell by blast
    next
      case (here piece moved e us)
      have m: "CHR ''<'' \<notin> set w" "CHR ''>'' \<notin> set w" using w(2) unfolding marks_def by blast+
      show False
      proof (cases "e = Copied")
        case True
        then have p: "piece = [hd cursor]" "no_rule_at names prev cursor"
          using here(3) by (auto simp: round_emits_def)
        then have "u = []" using here(4,5) by (cases u) auto
        then have "prefix w cursor" using 1(2) w(1) m(1) sanitized_prefix by fastforce
        then have "telling cursor" using w(2) unfolding marks_def by blast
        then show False using p(2) unfolding telling_def no_rule_at_def by blast
      next
        case False
        have "prefix w us"
          using hidden_prefix [OF here(3) False here(2,4,5) m(2)] w(1) here(6) by simp
        then have "set w \<subseteq> set piece" using here(4) by (auto dest: set_mono_prefix)
        then show False using w(2) round_quiet [OF here(3) False here(2)] unfolding marks_def by blast
      qed
    qed
  qed
qed

section \<open>The names do not reach the output as words\<close>

text \<open>
  \<open>n\<close> stands in the output as a word: what precedes and follows it are token boundaries of the
  text itself, not the brackets of a tag.
\<close>

definition left_edge :: "char option \<Rightarrow> bool" where
  "left_edge c \<longleftrightarrow> (case c of None \<Rightarrow> True
     | Some c \<Rightarrow> is_token_boundary c \<and> c \<noteq> CHR ''<'' \<and> c \<noteq> CHR ''>'')"

definition right_edge :: "string \<Rightarrow> bool" where
  "right_edge v \<longleftrightarrow>
     v \<noteq> [] \<and> is_token_boundary (hd v) \<and> hd v \<noteq> CHR ''<'' \<and> hd v \<noteq> CHR ''>''"

definition last_char :: "char option \<Rightarrow> string \<Rightarrow> char option" where
  "last_char before u = (if u = [] then before else Some (last u))"

lemma inner_chars:
  "tag_char c \<or> label_char c \<Longrightarrow>
   \<not> is_token_boundary c \<and> c \<noteq> CHR ''<'' \<and> c \<noteq> CHR ''>'' \<and> c \<noteq> CHR ''=''"
  by (auto simp: tag_char_def label_char_def is_token_boundary_def ascii_simps)

text \<open>A word in a label and its tag can only be the whole label.\<close>

lemma word_in_label:
  assumes "label @ CHR ''<'' # body @ ''>'' = u @ n @ x # y"
    and "label = [] \<or> (\<exists>l. label = l @ ''='' \<and> (\<forall>c \<in> set l. label_char c))"
    and "\<forall>c \<in> set body. tag_char c"
    and "is_token_boundary x" "x \<noteq> CHR ''<''" "x \<noteq> CHR ''>''"
    and "u = [] \<or> is_token_boundary (last u) \<and> last u \<noteq> CHR ''<''"
  shows "u = [] \<and> label = n @ ''=''"
proof -
  have "label @ (CHR ''<'' # body @ ''>'') = (u @ n @ [x]) @ y" using assms(1) by simp
  from append_split [OF this]
  consider us where "label = (u @ n @ [x]) @ us" | us where "u @ n @ [x] = label @ us"
    "CHR ''<'' # body @ ''>'' = us @ y" "us \<noteq> []" by blast
  then show ?thesis
  proof cases
    case (1 us)
    then obtain l where l: "label = l @ ''=''" "\<forall>c \<in> set l. label_char c" using assms(2) by auto
    have "x \<in> set label" using 1 by simp
    then have x: "x = CHR ''=''" using l inner_chars assms(4) by auto
    have "us = []"
    proof (rule ccontr)
      assume "us \<noteq> []"
      then have "butlast label = u @ n @ x # butlast us" using 1 by (simp add: butlast_append)
      then have "x \<in> set l" using l(1) by simp
      then show False using l(2) inner_chars x by blast
    qed
    then have n: "l = u @ n" using 1 l(1) by simp
    have "u = []"
    proof (rule ccontr)
      assume "u \<noteq> []"
      then have "last u \<in> set l" using n by simp
      then show False using l(2) inner_chars assms(7) \<open>u \<noteq> []\<close> by blast
    qed
    then show ?thesis using n l(1) by simp
  next
    case (2 us)
    have hd: "us = CHR ''<'' # tl us" using 2(2,3) by (cases us) auto
    have "last (u @ n @ [x]) = last (label @ us)" using 2(1) by (rule arg_cong)
    then have xl: "last us = x" using 2(3) by simp
    have "tl us \<noteq> []"
    proof
      assume "tl us = []"
      then have "last us = CHR ''<''" using hd by (metis last_ConsL)
      then show False using xl assms(5) by simp
    qed
    then have "x \<in> set (tl us)" using hd xl by (metis last_ConsR last_in_set)
    moreover have "body @ ''>'' = tl us @ y" using 2(2) hd by (metis append_Cons list.inject)
    then have "set (body @ ''>'') = set (tl us @ y)" by simp
    then have "set (tl us) \<subseteq> set body \<union> {CHR ''>''}" by auto
    ultimately have "x \<in> set body" using assms(6) by auto
    then show ?thesis using assms(3,4) inner_chars by blast
  qed
qed

text \<open>A round that is not a copy is a possibly empty label, then a tag, cut at the room.\<close>

lemma round_shape:
  assumes "round_emits names room prev cursor piece moved e" and "e \<noteq> Copied"
  obtains label body where "label = [] \<or>
      (\<exists>l. label = l @ ''='' \<and> (\<forall>c \<in> set l. label_char c) \<and> label_at label)"
    "\<forall>c \<in> set body. tag_char c" "piece = take room (label @ CHR ''<'' # body @ ''>'')"
proof (cases e)
  case (Hidden t)
  then obtain body where "piece = take room ([] @ CHR ''<'' # body @ ''>'')" "\<forall>c \<in> set body. tag_char c"
    using assms(1) by (auto simp: round_emits_def is_tag_def)
  then show ?thesis by (intro that [of "[]" body]) auto
next
  case (Labelled label t)
  then obtain rest body where l: "label_part cursor label rest" "\<forall>c \<in> set body. tag_char c"
    and p: "piece = take room ((label @ ''='') @ CHR ''<'' # body @ ''>'')"
    using assms(1) by (auto simp: round_emits_def is_tag_def)
  then show ?thesis by (intro that [of "label @ ''=''" body]) (auto simp: label_part_def)
next
  case Copied
  then show ?thesis using assms(2) by simp
qed

definition word_of :: "sensitive_names \<Rightarrow> string \<Rightarrow> bool" where
  "word_of names n \<longleftrightarrow> n \<noteq> [] \<and> CHR ''<'' \<notin> set n \<and> CHR ''>'' \<notin> set n \<and>
     (map to_lower n = map to_lower (g_computer_name names) \<or>
      map to_lower n = map to_lower (g_username names)) \<and>
     \<not> label_at (n @ ''='')"

lemma word_recognised:
  assumes "word_of names n" and "prefix (n @ [x]) cursor" and "is_token_boundary x"
  shows "exact_sensitive_at cursor (g_computer_name names) \<or>
    exact_sensitive_at cursor (g_username names)"
proof -
  obtain ys where c: "cursor = n @ x # ys" using assms(2) by (auto elim: prefixE)
  have "exact_sensitive_at cursor name" if "map to_lower n = map to_lower name" for name
  proof -
    have len: "length n = length name" using that by (metis length_map)
    moreover have "n \<noteq> []" using assms(1) by (simp add: word_of_def)
    ultimately show ?thesis using that c assms(3)
      by (auto simp: exact_sensitive_at_def ci_starts_with_iff char_at_def nth_append
          simp flip: len)
  qed
  then show ?thesis using assms(1) unfolding word_of_def by blast
qed

text \<open>Where a word of the output could begin: in a copied character, in a tag, or after the piece.\<close>

lemma copied_no_word:
  assumes "no_rule_at names prev cursor" and "prefix (n @ [x]) (sanitized names room prev cursor)"
    and n: "word_of names n" and x: "is_token_boundary x" "x \<noteq> CHR ''<''" "x \<noteq> CHR ''>''"
    and "left_edge before" "before = prev \<or> before = Some (CHR ''>'')"
  shows False
proof -
  have "prefix (n @ [x]) cursor"
    by (rule sanitized_prefix [OF assms(2)]) (use n x in \<open>auto simp: word_of_def\<close>)
  from word_recognised [OF n this x(1)]
  have "\<not> at_boundary prev" using assms(1) unfolding no_rule_at_def by blast
  then show False using assms(7,8) by (auto simp: left_edge_def at_boundary_def split: option.splits)
qed

lemma hidden_no_word:
  assumes r: "round_emits names room prev cursor piece moved e" "e \<noteq> Copied" "0 < room"
    and p: "piece = u @ us" "us \<noteq> []"
    and np: "prefix (n @ [x]) (us @ sanitized names (room - length piece) between rest)"
    and n: "word_of names n" and x: "is_token_boundary x" "x \<noteq> CHR ''<''" "x \<noteq> CHR ''>''"
    and u: "u = [] \<or> is_token_boundary (last u) \<and> last u \<noteq> CHR ''<''"
  shows False
proof -
  have w: "CHR ''<'' \<notin> set n" "CHR ''>'' \<notin> set n" "\<not> label_at (n @ ''='')" using n by (auto simp: word_of_def)
  obtain label body where lb: "label = [] \<or>
      (\<exists>l. label = l @ ''='' \<and> (\<forall>c \<in> set l. label_char c) \<and> label_at label)"
    and body: "\<forall>c \<in> set body. tag_char c"
    and t: "piece = take room (label @ CHR ''<'' # body @ ''>'')"
    using round_shape [OF r(1,2)] .
  have "prefix (n @ [x]) us" using w(2) x(3) by (intro hidden_prefix [OF r p _ np]) simp
  then obtain ys where "us = n @ x # ys" by (auto elim: prefixE)
  moreover obtain zs where "label @ CHR ''<'' # body @ ''>'' = piece @ zs"
    using t by (metis append_take_drop_id)
  ultimately have "label @ CHR ''<'' # body @ ''>'' = u @ n @ x # (ys @ zs)" using p(1) by simp
  then have "u = [] \<and> label = n @ ''=''"
    using word_in_label [of label body u n x "ys @ zs"] lb body x u n w by blast
  then show False using lb w(3) by auto
qed

lemma piece_last:
  assumes r: "round_emits names room prev cursor piece moved e" "0 < room" "cursor \<noteq> []" "length piece \<noteq> room"
  shows "piece \<noteq> [] \<and> (Some (last piece) = Some (char_at cursor (moved - 1)) \<or> last piece = CHR ''>'')"
proof (cases "e = Copied")
  case True
  then show ?thesis using r by (auto simp: round_emits_def char_at_def hd_conv_nth)
next
  case False
  then show ?thesis using round_quiet [OF r(1) False r(2)] r(4) by blast
qed

lemma sanitized_no_word:
  "sanitized names room prev cursor = u @ n @ v \<Longrightarrow> word_of names n \<Longrightarrow> right_edge v \<Longrightarrow>
   left_edge (last_char before u) \<Longrightarrow> before = prev \<or> before = Some (CHR ''>'') \<Longrightarrow> False"
proof (induction cursor arbitrary: room prev before u rule: length_induct)
  case (1 cursor)
  note word = 1(3) and edge = 1(4)
  obtain x xs where v: "v = x # xs" and x: "is_token_boundary x" "x \<noteq> CHR ''<''" "x \<noteq> CHR ''>''"
    using edge by (cases v) (auto simp: right_edge_def)
  have "n @ v \<noteq> []" using v by simp
  with 1(2) show False
  proof (cases rule: sanitized_cut)
    case (later piece moved e us)
    have "length piece \<noteq> room" using later(6) v sanitized_stop by (metis append_is_Nil_conv diff_self_eq_0 list.discI)
    note last = piece_last [OF later(3,2,1) this]
    then have "left_edge (last_char (Some (last piece)) us)"
      using "1.prems"(4) later(4) by (auto simp: last_char_def)
    then show False using "1.IH" later(5,6) word edge last by blast
  next
    case (here piece moved e us)
    have np: "prefix (n @ [x]) (us @ sanitized names (room - length piece)
        (Some (char_at cursor (moved - 1))) (drop moved cursor))"
      unfolding here(6) [symmetric] v by simp
    show False
    proof (cases "e = Copied")
      case True
      then have p: "piece = [hd cursor]" "no_rule_at names prev cursor"
        using here(3) by (auto simp: round_emits_def)
      then have "u = []" using here(4,5) by (cases u) auto
      then show False using copied_no_word [OF p(2) _ word x, of room before] "1.prems" v
        by (simp add: last_char_def)
    next
      case False
      show False
        by (rule hidden_no_word [OF here(3) False here(2,4,5) np word x])
          (use "1.prems"(4) in \<open>auto simp: last_char_def left_edge_def split: if_splits\<close>)
    qed
  qed
qed

section \<open>The sanitizer as a whole\<close>

lemma sanitize_text_eq:
  "sanitize_text names input capacity =
     (if capacity = 0 then [] else sanitized names (capacity - 1) None input)"
  using sanitize_loop_append [of "[]" capacity names None input]
  by (simp add: sanitize_text_def sanitize_loop.simps)

lemma sanitize_text_not_telling: "sanitize_text names input capacity = u @ v \<Longrightarrow> \<not> telling v"
  using sanitized_not_telling [of names "capacity - 1" None input u v]
  by (auto simp: sanitize_text_eq telling_def web_url_at_def local_path_at_def char_at_def
      ascii_simps split: if_splits)

text \<open>Text at which no rule applies passes unchanged, up to the capacity.\<close>

definition before_at :: "char option \<Rightarrow> string \<Rightarrow> nat \<Rightarrow> char option" where
  "before_at prev s i = (if i = 0 then prev else Some (s ! (i - 1)))"

definition harmless :: "sensitive_names \<Rightarrow> char option \<Rightarrow> string \<Rightarrow> bool" where
  "harmless names prev s \<longleftrightarrow> (\<forall>i < length s. no_rule_at names (before_at prev s i) (drop i s))"

lemma harmless_Cons:
  assumes "harmless names prev (c # cs)"
  shows "no_rule_at names prev (c # cs)" and "harmless names (Some c) cs"
proof -
  show "no_rule_at names prev (c # cs)"
    using assms [unfolded harmless_def, rule_format, of 0] by (simp add: before_at_def)
  have "no_rule_at names (before_at (Some c) cs i) (drop i cs)" if "i < length cs" for i
    using assms [unfolded harmless_def, rule_format, of "Suc i"] that
    by (cases i) (auto simp: before_at_def)
  then show "harmless names (Some c) cs" by (simp add: harmless_def)
qed

lemma sanitized_harmless:
  "harmless names prev cursor \<Longrightarrow> sanitized names room prev cursor = take room cursor"
proof (induction cursor arbitrary: room prev)
  case Nil
  then show ?case by (simp add: sanitized_stop)
next
  case (Cons c cs)
  show ?case
  proof (cases "room = 0")
    case False
    have "sanitize_round names room prev (c # cs) = ([c], 1)"
      using harmless_Cons(1) [OF Cons.prems]
      by (auto simp: no_rule_at_def sanitize_round_def Let_def)
    then have "sanitized names room prev (c # cs) = [c] @ sanitized names (room - 1) (Some c) cs"
      using False sanitize_loop_append [of "[c]" "Suc room" names "Some c" cs]
      by (simp add: sanitized_def [of names room] sanitize_loop.simps [of _ _ _ _ "c # cs"] char_at_def)
    then show ?thesis using Cons.IH [OF harmless_Cons(2) [OF Cons.prems]] False
      by (cases room) auto
  qed (simp add: sanitized_stop)
qed

definition sample_names :: sensitive_names where
  "sample_names = \<lparr>g_username = ''ann'', g_computer_name = ''PC7''\<rparr>"

text \<open>
  C3: whatever the input and however it is cut at the capacity, no position of the sanitized text
  starts one of the URL schemes that the code recognises, in any case of the letters, a drive
  path or a UNC path.
\<close>

theorem sanitizer_hides_urls_and_paths:
  assumes "sanitize_text names input capacity = u @ v"
  shows "\<not> web_url_at v \<and> \<not> local_path_at v"
  using sanitize_text_not_telling [OF assms] by (simp add: telling_def)

theorem sanitizer_hides_urls_and_paths_witness:
  "sanitize_text sample_names ''see HTTP://a.b/c?d'' 24 = ''see '' @ ''<web-url-redacted>'' \<and>
   \<not> web_url_at ''<web-url-redacted>''"
proof -
  have "sanitize_text sample_names ''see HTTP://a.b/c?d'' 24 = ''see '' @ ''<web-url-redacted>''"
    by code_simp
  with sanitizer_hides_urls_and_paths [OF this] show ?thesis by blast
qed

text \<open>
  C15: the user and the computer name do not survive as words: where the sanitized text holds
  one of the names, in any case of its letters, between token boundaries that are not brackets
  (those of the tags), the name is one that reads as a label such as \<open>username\<close> before its
  equals sign.
\<close>

theorem sanitizer_hides_names:
  assumes "sanitize_text names input capacity = u @ n @ v"
    and "map to_lower n = map to_lower (g_computer_name names) \<or>
      map to_lower n = map to_lower (g_username names)"
    and "n \<noteq> []" and "CHR ''<'' \<notin> set n" and "CHR ''>'' \<notin> set n"
    and "u = [] \<or> is_token_boundary (last u) \<and> last u \<noteq> CHR ''<'' \<and> last u \<noteq> CHR ''>''"
    and "v \<noteq> [] \<and> is_token_boundary (hd v) \<and> hd v \<noteq> CHR ''<'' \<and> hd v \<noteq> CHR ''>''"
  shows "label_at (n @ ''='')"
proof (rule ccontr)
  assume "\<not> label_at (n @ ''='')"
  then have "word_of names n" using assms(2-5) by (simp add: word_of_def)
  moreover have "sanitized names (capacity - 1) None input = u @ n @ v"
    using assms(1,3) by (auto simp: sanitize_text_eq split: if_splits)
  moreover have "left_edge (last_char None u)" and "right_edge v"
    using assms(6,7) by (auto simp: left_edge_def last_char_def right_edge_def)
  ultimately show False using sanitized_no_word by blast
qed

theorem sanitizer_hides_names_witness:
  "label_at ''username=''"
proof -
  let ?names = "\<lparr>g_username = ''username'', g_computer_name = ''PC7''\<rparr>"
  have "sanitize_text ?names ''username=x'' 20 = [] @ ''username'' @ ''=<redacted>''"
    by code_simp
  from sanitizer_hides_names [OF this] have "label_at (''username'' @ ''='')"
    by (simp add: is_token_boundary_def ascii_simps)
  then show ?thesis by simp
qed

text \<open>
  The sanitizer ends on every input, leaves room for the NUL in every buffer that has any
  room, and passes text at which none of its rules applies unchanged up to that room.
\<close>

theorem sanitizer_bounded_and_transparent:
  assumes "0 < capacity"
  shows "length (sanitize_text names input capacity) < capacity \<and>
    (harmless names None input \<longrightarrow> sanitize_text names input capacity = take (capacity - 1) input)"
  using assms sanitized_length [of names "capacity - 1" None input]
    sanitized_harmless [of names None input "capacity - 1"]
  by (auto simp: sanitize_text_eq)

theorem sanitizer_bounded_and_transparent_witness:
  "length (sanitize_text sample_names ''a b'' 3) < 3 \<and> sanitize_text sample_names ''a b'' 3 = ''a ''"
proof -
  have "\<forall>i \<in> {0, 1, 2}. no_rule_at sample_names (before_at None ''a b'' i) (drop i ''a b'')"
    by code_simp
  then have "harmless sample_names None ''a b''"
    by (auto simp: harmless_def less_Suc_eq numeral_3_eq_3 numeral_2_eq_2)
  with sanitizer_bounded_and_transparent [of 3 sample_names "''a b''"] show ?thesis by simp
qed

text \<open>
  What the sanitizer lets through although the data disclosure excludes it: an address
  before an at-sign that ends its token, an IPv4 address before a hyphen, and IPv6 addresses.
\<close>

theorem sanitizer_gaps:
  "sanitize_text sample_names ''bob@a.com@'' 16 = ''bob@a.com@'' \<and>
   sanitize_text sample_names ''10.0.0.1-10.0.0.9'' 31 = ''10.0.0.1-<ip-address-redacted>'' \<and>
   sanitize_text sample_names ''fe80::1'' 8 = ''fe80::1''"
  by code_simp

end
