(* ===== verification/Launcher_Files.thy ===== *)
theory Launcher_Files
  imports Launcher_Text
begin

text \<open>
  The file routines of the diagnostics launcher
  (\<open>diagnostics/supermium_w2k_rc1_launcher.c\<close>): \<open>write_all\<close> and the removal of the
  disposable browser profile, \<open>delete_directory_tree\<close> with its retries. A directory is the list
  of entries that \<open>FindFirstFileA\<close> and \<open>FindNextFileA\<close> return, \<open>.\<close> and \<open>..\<close> included; a
  directory that is a reparse point (a junction) has the entries of its target, so that following
  it would show. What the system refuses is a parameter: the paths that cannot be removed and
  the directories that cannot be listed.
\<close>

section \<open>Writing everything\<close>

text \<open>
  The answers of \<open>WriteFile\<close>: the number of bytes written, or failure. The loop gives back
  whether all was written, the bytes the file got and the answers left.
\<close>

fun write_all :: "nat option list \<Rightarrow> string \<Rightarrow> bool \<times> string \<times> nat option list" where
  "write_all answers [] = (True, [], answers)"
| "write_all [] (c # cs) = (False, [], [])"
| "write_all (None # answers) (c # cs) = (False, [], answers)"
| "write_all (Some 0 # answers) (c # cs) = (False, [], answers)"
| "write_all (Some (Suc n) # answers) (c # cs) =
     (let (ok, written, answers) = write_all answers (drop n cs) in
        (ok, take (Suc n) (c # cs) @ written, answers))"

lemma write_all_prefix: "prefix (fst (snd (write_all answers data))) data"
proof (induction answers data rule: write_all.induct)
  case (5 n answers c cs)
  have "prefix (take n cs @ fst (snd (write_all answers (drop n cs)))) (take n cs @ drop n cs)"
    using 5 by (simp only: same_prefix_prefix)
  then show ?case by (simp add: case_prod_beta)
qed simp_all

lemma write_all_complete:
  "fst (write_all answers data) \<longleftrightarrow> fst (snd (write_all answers data)) = data"
proof (induction answers data rule: write_all.induct)
  case (5 n answers c cs)
  have "take n cs @ fst (snd (write_all answers (drop n cs))) = cs \<longleftrightarrow>
      fst (snd (write_all answers (drop n cs))) = drop n cs"
    by (metis append_take_drop_id same_append_eq)
  then show ?case using 5 by (simp add: case_prod_beta)
qed simp_all

section \<open>Removing a directory tree\<close>

datatype fs_node = FileNode | DirNode bool "(string \<times> fs_node) list"

record delete_env =
  undeletable :: "string \<Rightarrow> bool"
  unlistable :: "string \<Rightarrow> bool"

abbreviation dots :: "string \<Rightarrow> bool" where
  "dots name \<equiv> name = ''.'' \<or> name = ''..''"

definition real_entries :: "(string \<times> fs_node) list \<Rightarrow> (string \<times> fs_node) list" where
  "real_entries entries = filter (\<lambda>(name, _). \<not> dots name) entries"

text \<open>
  \<open>delete_directory_tree\<close> on an existing node and its loop over the entries: the result, what is
  left of the node and the paths passed to \<open>SetFileAttributesA\<close> and \<open>DeleteFileA\<close> or
  \<open>RemoveDirectoryA\<close>, in order. \<open>RemoveDirectoryA\<close> also fails on a directory that is not empty.
\<close>

fun delete_node :: "delete_env \<Rightarrow> string \<Rightarrow> fs_node \<Rightarrow> bool \<times> fs_node option \<times> string list"
and delete_entries :: "delete_env \<Rightarrow> string \<Rightarrow> (string \<times> fs_node) list \<Rightarrow>
  bool \<times> (string \<times> fs_node) list \<times> string list" where
  "delete_node env path FileNode =
     (if undeletable env path then (False, Some FileNode, [path]) else (True, None, [path]))"
| "delete_node env path (DirNode True entries) =
     (if undeletable env path then (False, Some (DirNode True entries), [path])
      else (True, None, [path]))"
| "delete_node env path (DirNode False entries) =
     (if \<not> fst (join_path MAX_PATH path ''*'') then (False, Some (DirNode False entries), [])
      else
        let (ok, left, touched) =
              (if unlistable env path then (True, entries, []) else delete_entries env path entries);
            removed = (\<not> undeletable env path \<and> real_entries left = []) in
          (ok \<and> removed, if removed then None else Some (DirNode False left), touched @ [path]))"
| "delete_entries env path [] = (True, [], [])"
| "delete_entries env path ((name, node) # rest) =
     (if dots name then
        (let (ok, left, touched) = delete_entries env path rest in (ok, (name, node) # left, touched))
      else case join_path MAX_PATH path name of
        (False, _) \<Rightarrow>
          (let (_, left, touched) = delete_entries env path rest in (False, (name, node) # left, touched))
      | (True, child) \<Rightarrow>
          (let (ok1, node1, touched1) =
                 (case node of
                    DirNode False entries \<Rightarrow> delete_node env child node
                  | _ \<Rightarrow> if undeletable env child then (False, Some node, [child])
                         else (True, None, [child]));
               (ok2, left, touched2) = delete_entries env path rest in
             (ok1 \<and> ok2, (case node1 of None \<Rightarrow> left | Some n \<Rightarrow> (name, n) # left),
              touched1 @ touched2)))"

definition delete_directory_tree ::
    "delete_env \<Rightarrow> string \<Rightarrow> fs_node option \<Rightarrow> bool \<times> fs_node option \<times> string list" where
  "delete_directory_tree env path node =
     (case node of None \<Rightarrow> (True, None, []) | Some n \<Rightarrow> delete_node env path n)"

text \<open>The attempts of \<open>delete_directory_tree_with_retries\<close>, each in the system as it is then.\<close>

fun delete_attempts ::
    "(nat \<Rightarrow> delete_env) \<Rightarrow> string \<Rightarrow> nat \<Rightarrow> nat \<Rightarrow> fs_node option \<Rightarrow> bool \<times> fs_node option" where
  "delete_attempts envs path attempt 0 node =
     (let (ok, node, _) = delete_directory_tree (envs attempt) path node in (ok, node))"
| "delete_attempts envs path attempt (Suc n) node =
     (let (ok, node, _) = delete_directory_tree (envs attempt) path node in
        if ok then (True, node) else delete_attempts envs path (Suc attempt) n node)"

definition delete_directory_tree_with_retries ::
    "(nat \<Rightarrow> delete_env) \<Rightarrow> string \<Rightarrow> fs_node option \<Rightarrow> bool \<times> fs_node option" where
  "delete_directory_tree_with_retries envs path node = delete_attempts envs path 0 30 node"

section \<open>What lies in a tree\<close>

text \<open>The paths of a node without going through a reparse point.\<close>

inductive inside :: "string \<Rightarrow> fs_node \<Rightarrow> string \<Rightarrow> bool" where
  here: "inside path node path"
| below: "(name, child) \<in> set entries \<Longrightarrow> \<not> dots name \<Longrightarrow> inside (joined path name) child p \<Longrightarrow>
    inside path (DirNode False entries) p"

inductive_cases inside_DirE: "inside path (DirNode r entries) p"

lemma inside_entries_mono:
  assumes "inside path (DirNode False entries) p" and "set entries \<subseteq> set entries'"
  shows "inside path (DirNode False entries') p"
  using assms by (auto elim!: inside_DirE intro: inside.intros)

lemma inside_prefix: "inside path node p \<Longrightarrow> prefix path p"
proof (induction rule: inside.induct)
  case (below name child entries path p)
  then show ?case by (auto simp: joined_def split: if_splits elim!: prefixE)
qed simp

lemma join_path_ok: "join_path MAX_PATH path name = (True, child) \<Longrightarrow> length path < MAX_PATH \<Longrightarrow>
    child = joined path name \<and> length child < MAX_PATH"
  by (auto simp: join_path_short)

text \<open>The cases of one entry, as one call: a file or a reparse point is removed like a node.\<close>

lemma delete_entries_Cons:
  "delete_entries env path ((name, node) # rest) =
     (if dots name \<or> \<not> fst (join_path MAX_PATH path name) then
        (let (ok, left, touched) = delete_entries env path rest in
          (dots name \<and> ok, (name, node) # left, touched))
      else
        (let (ok1, node1, touched1) = delete_node env (snd (join_path MAX_PATH path name)) node;
             (ok2, left, touched2) = delete_entries env path rest in
           (ok1 \<and> ok2, (case node1 of None \<Rightarrow> left | Some n \<Rightarrow> (name, n) # left), touched1 @ touched2)))"
proof -
  have "(case node of
          DirNode False entries \<Rightarrow> delete_node env child node
        | _ \<Rightarrow> if undeletable env child then (False, Some node, [child]) else (True, None, [child])) =
      delete_node env child node" for child
    by (cases node) (auto split: bool.split)
  then show ?thesis
    by (simp add: case_prod_beta Let_def split: prod.split bool.split)
qed

declare delete_entries.simps(2) [simp del]

text \<open>
  Induction over a tree, in the shape of the routine: the entries are joined to the path they
  are found in.
\<close>

lemma fs_induct [case_names File Link Dir Nil Entry]:
  assumes "\<And>path. P path FileNode" and "\<And>path es. P path (DirNode True es)"
    and "\<And>path es. Q path es \<Longrightarrow> P path (DirNode False es)" and "\<And>path. Q path []"
    and "\<And>path name node es. P (joined path name) node \<Longrightarrow> Q path es \<Longrightarrow> Q path ((name, node) # es)"
  shows "P path node" and "Q path es"
proof -
  have "(\<forall>path. P path node) \<and> True" for node
  proof (induction node rule: fs_node.induct)
    case (DirNode r es)
    have "Q path es" for path
      using DirNode
    proof (induction es)
      case (Cons e es)
      obtain name child where e: "e = (name, child)" by (cases e)
      have "P (joined path name) child" using Cons.prems [of e child] by (simp add: e)
      moreover have "Q path es" by (rule Cons.IH) (use Cons.prems in auto)
      ultimately show ?case using assms(5) by (simp add: e)
    qed (simp add: assms(4))
    then show ?case using assms(2,3) by (cases r) auto
  qed (simp add: assms(1))
  then show all: "P path node" for path node by blast
  show "Q path es"
    by (induction es) (auto simp: assms(4,5) all)
qed

lemma join_Entry:
  assumes "length path < MAX_PATH"
  shows "fst (join_path MAX_PATH path name) \<longleftrightarrow> length (joined path name) < MAX_PATH"
    and "fst (join_path MAX_PATH path name) \<Longrightarrow> snd (join_path MAX_PATH path name) = joined path name"
  using assms by (auto simp: join_path_short)

lemma inside_Cons:
  "inside path (DirNode False ((name, node) # es)) p \<longleftrightarrow>
     \<not> dots name \<and> inside (joined path name) node p \<or> inside path (DirNode False es) p"
  by (auto elim!: inside_DirE intro: inside.intros)

lemma touched_inside:
  "length path < MAX_PATH \<Longrightarrow> p \<in> set (snd (snd (delete_node env path node))) \<Longrightarrow> inside path node p"
  "length path < MAX_PATH \<Longrightarrow> p \<in> set (snd (snd (delete_entries env path es))) \<Longrightarrow>
     inside path (DirNode False es) p"
proof (induction path node and path es rule: fs_induct)
  case (Dir path es)
  then show ?case by (auto simp: Let_def case_prod_beta intro: here split: if_splits)
next
  case (Entry path name node es)
  then show ?case
    by (cases "dots name \<or> \<not> fst (join_path MAX_PATH path name)")
      (auto simp: delete_entries_Cons Let_def case_prod_beta inside_Cons join_Entry)
qed (auto intro: here split: if_splits)

lemma real_entries_simps [simp]:
  "real_entries [] = []"
  "real_entries ((name, node) # es) =
     (if dots name then real_entries es else (name, node) # real_entries es)"
  by (auto simp: real_entries_def)

lemma delete_answers:
  "length path < MAX_PATH \<Longrightarrow>
     fst (delete_node env path node) \<longleftrightarrow> fst (snd (delete_node env path node)) = None"
  "length path < MAX_PATH \<Longrightarrow>
     fst (delete_entries env path es) \<longleftrightarrow> real_entries (fst (snd (delete_entries env path es))) = []"
proof (induction path node and path es rule: fs_induct)
  case (Dir path es)
  then show ?case by (auto simp: Let_def case_prod_beta)
next
  case (Entry path name node es)
  then show ?case
    by (cases "dots name \<or> \<not> fst (join_path MAX_PATH path name)")
      (auto simp: delete_entries_Cons Let_def case_prod_beta join_Entry split: option.split)
qed simp_all

lemma left_inside:
  "length path < MAX_PATH \<Longrightarrow> fst (snd (delete_node env path node)) = Some r \<Longrightarrow>
     inside path r p \<Longrightarrow> inside path node p"
  "length path < MAX_PATH \<Longrightarrow> inside path (DirNode False (fst (snd (delete_entries env path es)))) p \<Longrightarrow>
     inside path (DirNode False es) p"
proof (induction path node and path es arbitrary: r p and p rule: fs_induct)
  case (Dir path es)
  then show ?case by (auto simp: Let_def case_prod_beta split: if_splits)
next
  case (Entry path name node es)
  show ?case
  proof (cases "dots name \<or> \<not> fst (join_path MAX_PATH path name)")
    case True
    then show ?thesis using Entry
      by (auto simp: delete_entries_Cons Let_def case_prod_beta inside_Cons)
  next
    case False
    then have len: "length (joined path name) < MAX_PATH" using Entry.prems join_Entry by blast
    note node = Entry.IH(1) [OF len] and rest = Entry.IH(2) [OF Entry.prems(1)]
    show ?thesis using False Entry.prems
      by (auto simp: delete_entries_Cons Let_def case_prod_beta join_Entry inside_Cons
          split: option.splits intro: rest dest: node)
  qed
qed (auto split: if_splits)

text \<open>Nothing in the way: every path can be removed and listed and has room for a search.\<close>

definition removable :: "delete_env \<Rightarrow> string \<Rightarrow> bool" where
  "removable env p \<longleftrightarrow> \<not> undeletable env p \<and> \<not> unlistable env p \<and> length p + 2 < MAX_PATH"

lemma delete_removable:
  "(\<And>p. inside path node p \<Longrightarrow> removable env p) \<Longrightarrow> fst (delete_node env path node)"
  "(\<And>p. inside path (DirNode False es) p \<Longrightarrow> removable env p) \<Longrightarrow> fst (delete_entries env path es)"
proof (induction path node and path es rule: fs_induct)
  case (Dir path es)
  have r: "removable env path" using Dir.prems here by blast
  then have len: "length path < MAX_PATH" by (simp add: removable_def)
  have "length (joined path ''*'') < MAX_PATH" using r by (auto simp: joined_def removable_def)
  then have "fst (join_path MAX_PATH path ''*'')" using join_Entry(1) [OF len] by blast
  moreover have ok: "fst (delete_entries env path es)" using Dir by blast
  moreover have "real_entries (fst (snd (delete_entries env path es))) = []"
    using delete_answers(2) [OF len] ok by blast
  ultimately show ?case using r by (simp add: removable_def Let_def case_prod_beta)
next
  case (Entry path name node es)
  have r: "removable env path" using Entry.prems here by blast
  then have len: "length path < MAX_PATH" by (simp add: removable_def)
  have rest: "fst (delete_entries env path es)" using Entry by (auto simp: inside_Cons)
  show ?case
  proof (cases "dots name")
    case True
    then show ?thesis using rest by (simp add: delete_entries_Cons Let_def case_prod_beta)
  next
    case False
    then have child: "inside (joined path name) node p \<Longrightarrow> removable env p" for p
      using Entry.prems by (simp add: inside_Cons)
    then have "length (joined path name) < MAX_PATH" using here by (fastforce simp: removable_def)
    then have j: "fst (join_path MAX_PATH path name)" using join_Entry(1) [OF len] by blast
    have "fst (delete_node env (joined path name) node)" using Entry.IH(1) child by blast
    then show ?thesis using False j join_Entry(2) [OF len j] rest
      by (simp add: delete_entries_Cons Let_def case_prod_beta)
  qed
qed (use here in \<open>auto simp: removable_def\<close>)

section \<open>The disposable profile\<close>

lemma delete_tree_answers:
  "length path < MAX_PATH \<Longrightarrow>
     fst (delete_directory_tree env path node) \<longleftrightarrow> fst (snd (delete_directory_tree env path node)) = None"
  by (auto simp: delete_directory_tree_def delete_answers split: option.split)

lemma delete_attempts_answers:
  "length path < MAX_PATH \<Longrightarrow>
     fst (delete_attempts envs path attempt n node) \<longleftrightarrow> snd (delete_attempts envs path attempt n node) = None"
proof (induction n arbitrary: attempt node)
  case 0
  then show ?case by (simp add: case_prod_beta delete_tree_answers)
next
  case (Suc n)
  then show ?case
    using delete_tree_answers [OF Suc.prems, of "envs attempt" node]
    by (auto simp: case_prod_beta Let_def)
qed

text \<open>What is left after an attempt lies in the tree, so an attempt that nothing hinders ends it.\<close>

definition within :: "string \<Rightarrow> fs_node \<Rightarrow> fs_node option \<Rightarrow> bool" where
  "within path whole node \<longleftrightarrow>
     (\<forall>n p. node = Some n \<longrightarrow> inside path n p \<longrightarrow> inside path whole p)"

lemma within_delete:
  assumes "length path < MAX_PATH" and "within path whole node"
  shows "within path whole (fst (snd (delete_directory_tree env path node)))"
  using assms left_inside(1) [OF assms(1)]
  by (cases node) (auto simp: within_def delete_directory_tree_def)

lemma delete_attempts_succeed:
  assumes "length path < MAX_PATH" and "\<And>p. inside path whole p \<Longrightarrow> removable (envs k) p"
  shows "within path whole node \<Longrightarrow> attempt \<le> k \<Longrightarrow> k \<le> attempt + n \<Longrightarrow>
    fst (delete_attempts envs path attempt n node)"
proof (induction n arbitrary: attempt node)
  case 0
  then have "fst (delete_directory_tree (envs attempt) path node)"
    using assms(2) by (cases node) (auto simp: delete_directory_tree_def within_def delete_removable)
  then show ?case by (simp add: case_prod_beta)
next
  case (Suc n)
  let ?d = "delete_directory_tree (envs attempt) path node"
  show ?case
  proof (cases "fst ?d")
    case True
    then show ?thesis by (simp add: case_prod_beta Let_def)
  next
    case False
    have "attempt \<noteq> k"
    proof
      assume "attempt = k"
      then have "fst ?d" using assms(2) Suc.prems(1)
        by (cases node) (auto simp: delete_directory_tree_def within_def delete_removable)
      then show False using False by simp
    qed
    then have "fst (delete_attempts envs path (Suc attempt) n (fst (snd ?d)))"
      using Suc.prems by (intro Suc.IH within_delete assms(1)) auto
    then show ?thesis using False by (simp add: case_prod_beta Let_def)
  qed
qed

definition sample_env :: delete_env where
  "sample_env = \<lparr>undeletable = \<lambda>_. False, unlistable = \<lambda>_. False\<rparr>"

definition sample_tree :: fs_node where
  "sample_tree = DirNode False [(''.'', FileNode), (''..'', FileNode), (''f'', FileNode),
     (''link'', DirNode True [(''secret'', FileNode)])]"

text \<open>
  C19: removing the profile passes to the deleting system calls only paths of the tree below it,
  reached through ordinary directories: never the parent through \<open>..\<close>, and never what a
  reparse point leads to.
\<close>

theorem profile_removal_contained:
  assumes "length path < MAX_PATH"
    and "p \<in> set (snd (snd (delete_directory_tree env path (Some node))))"
  shows "inside path node p \<and> prefix path p"
proof -
  have "p \<in> set (snd (snd (delete_node env path node)))"
    using assms(2) by (simp add: delete_directory_tree_def)
  from touched_inside(1) [OF assms(1) this] show ?thesis using inside_prefix by blast
qed

theorem profile_removal_contained_witness:
  "delete_directory_tree sample_env ''P'' (Some sample_tree) =
     (True, None, [joined ''P'' ''f'', joined ''P'' ''link'', ''P'']) \<and>
   inside ''P'' sample_tree (joined ''P'' ''link'')"
proof -
  have "delete_directory_tree sample_env ''P'' (Some sample_tree) =
     (True, None, [joined ''P'' ''f'', joined ''P'' ''link'', ''P''])" by code_simp
  then show ?thesis
    using profile_removal_contained [of "''P''" "joined ''P'' ''link''" sample_env sample_tree] by simp
qed

text \<open>
  The retries answer TRUE exactly when the profile is gone, and they succeed when at one of
  the 31 attempts nothing below the profile is held or too long, whatever the other attempts
  could not remove.
\<close>

theorem profile_removal_retries:
  assumes "length path < MAX_PATH"
  shows "(fst (delete_directory_tree_with_retries envs path (Some node)) \<longleftrightarrow>
      snd (delete_directory_tree_with_retries envs path (Some node)) = None) \<and>
    ((\<exists>k \<le> 30. \<forall>p. inside path node p \<longrightarrow> removable (envs k) p) \<longrightarrow>
      fst (delete_directory_tree_with_retries envs path (Some node)))"
proof -
  have w: "within path node (Some node)" by (simp add: within_def)
  have "fst (delete_attempts envs path 0 30 (Some node))"
    if "k \<le> 30" and "\<forall>p. inside path node p \<longrightarrow> removable (envs k) p" for k
    by (rule delete_attempts_succeed [OF assms _ w, of envs k]) (use that in auto)
  then show ?thesis unfolding delete_directory_tree_with_retries_def
    using delete_attempts_answers [OF assms] by blast
qed

theorem profile_removal_retries_witness:
  "delete_directory_tree_with_retries
     (\<lambda>k. if k < 2 then sample_env\<lparr>undeletable := \<lambda>p. p = joined ''P'' ''f''\<rparr> else sample_env)
     ''P'' (Some sample_tree) = (True, None)"
    (is "?r = _")
proof -
  have "?r = (True, None) \<or> \<not> fst ?r" by code_simp
  moreover have "snd ?r = None" if "fst ?r"
    using profile_removal_retries [of "''P''"
      "\<lambda>k. if k < 2 then sample_env\<lparr>undeletable := \<lambda>p. p = joined ''P'' ''f''\<rparr> else sample_env"
      sample_tree] that by simp
  moreover have "fst ?r" by code_simp
  ultimately show ?thesis by (simp add: prod_eq_iff)
qed

end
