(* ===== verification/Launcher_Log.thy ===== *)
theory Launcher_Log
  imports Launcher_Text
begin

text \<open>
  The browser log of the diagnostics launcher
  (\<open>diagnostics/supermium_w2k_rc1_launcher.c\<close>): the classification of a line, the event written
  for it and \<open>browser_log_reader_thread\<close>, which reads the browser's output from a pipe in
  chunks, assembles lines in a buffer of 16384 bytes and writes events instead of the text. The
  texts that \<open>utc_timestamp\<close> gives are a parameter, by the number of the line they are made for.
\<close>

section \<open>Classification\<close>

abbreviation mentions :: "string \<Rightarrow> string \<Rightarrow> bool" where
  "mentions line needle \<equiv> ci_find line needle \<noteq> None"

definition browser_line_category :: "string \<Rightarrow> string option" where
  "browser_line_category line =
     (if mentions line ''webaudio'' \<or> mentions line ''audio'' then Some ''audio''
      else if mentions line ''video'' then Some ''video''
      else if mentions line ''media'' then Some ''media''
      else if mentions line ''decoder'' \<or> mentions line ''decode'' then Some ''decoder''
      else if mentions line ''gpu'' \<or> mentions line ''graphics'' then Some ''graphics''
      else if mentions line ''sandbox'' then Some ''sandbox''
      else if mentions line ''crash'' then Some ''crash''
      else if mentions line ''extension'' then Some ''extension''
      else if mentions line ''network'' \<or> mentions line ''net::'' then Some ''network''
      else None)"

definition browser_line_severity :: "string \<Rightarrow> string" where
  "browser_line_severity line =
     (if mentions line ''fatal'' then ''fatal''
      else if mentions line ''error'' then ''error''
      else if mentions line ''warning'' \<or> mentions line ''warn'' then ''warning''
      else ''information'')"

section \<open>Events\<close>

text \<open>What \<open>_snprintf\<close> leaves in a buffer of 256 bytes.\<close>

definition event_text :: "string \<Rightarrow> u32 \<Rightarrow> string \<Rightarrow> string \<Rightarrow> string" where
  "event_text timestamp seen category severity =
     take 255 (''utc='' @ timestamp @ '' sequence='' @ decimal (unat seen) @ '' category='' @ category @
       '' severity='' @ severity @ CRLF)"

definition footer_text :: "u32 \<Rightarrow> u32 \<Rightarrow> string" where
  "footer_text seen kept =
     take 255 (''source_lines_seen='' @ decimal (unat seen) @ CRLF @
       ''events_retained='' @ decimal (unat kept) @ CRLF @
       ''event_limit='' @ decimal 20000 @ CRLF)"

definition header_text :: string where
  "header_text =
     ''Supermium W2K privacy-safe browser event trace'' @ CRLF @
     ''Raw Chromium text is discarded; only generated category/severity events follow.'' @ CRLF"

text \<open>
  The reader: the line buffer up to \<open>line_used\<close>, the two counters and the texts passed to
  \<open>write_all\<close>. A NUL in the buffer ends the line for the string functions.
\<close>

record log_reader =
  line :: string
  seen :: u32
  kept :: u32
  written :: "string list"

definition write_browser_category_event :: "(u32 \<Rightarrow> string) \<Rightarrow> log_reader \<Rightarrow> log_reader" where
  "write_browser_category_event utc r =
     (let text_line = takeWhile (\<lambda>c. c \<noteq> NUL) (line r);
          category = browser_line_category text_line;
          severity = browser_line_severity text_line in
        if category = None \<and> char_at severity 0 = CHR ''i'' then r
        else if kept r \<ge> 20000 then r
        else
          let category = (case category of None \<Rightarrow> ''browser'' | Some c \<Rightarrow> c) in
            r\<lparr>written := written r @ [event_text (utc (seen r)) (seen r) category severity],
              kept := kept r + 1\<rparr>)"

section \<open>The reader thread\<close>

definition end_line :: "(u32 \<Rightarrow> string) \<Rightarrow> log_reader \<Rightarrow> log_reader" where
  "end_line utc r = (write_browser_category_event utc (r\<lparr>seen := seen r + 1\<rparr>))\<lparr>line := []\<rparr>"

definition LINE_BYTES :: nat where
  "LINE_BYTES = 16384"

text \<open>The body of the inner loop, for one byte.\<close>

definition read_byte :: "(u32 \<Rightarrow> string) \<Rightarrow> char \<Rightarrow> log_reader \<Rightarrow> log_reader" where
  "read_byte utc c r =
     (let full = (length (line r) + 2 \<ge> LINE_BYTES \<or> c = CHR 0x0A);
          r = (if full then end_line utc r else r) in
        if full \<and> c = CHR 0x0A then r
        else if c \<noteq> CHR 0x0D then r\<lparr>line := line r @ [c]\<rparr> else r)"

text \<open>The outer loop over what \<open>ReadFile\<close> gives; it ends at an empty read or a failure.\<close>

fun read_loop :: "(u32 \<Rightarrow> string) \<Rightarrow> string list \<Rightarrow> log_reader \<Rightarrow> log_reader" where
  "read_loop utc [] r = r"
| "read_loop utc ([] # chunks) r = r"
| "read_loop utc ((c # cs) # chunks) r = read_loop utc chunks (fold (read_byte utc) (c # cs) r)"

definition new_reader :: log_reader where
  "new_reader = \<lparr>line = [], seen = 0, kept = 0, written = []\<rparr>"

text \<open>After the loop: the last line and the footer.\<close>

definition finish_log :: "(u32 \<Rightarrow> string) \<Rightarrow> log_reader \<Rightarrow> log_reader" where
  "finish_log utc r =
     (let r = (if line r \<noteq> [] then end_line utc r else r) in
        r\<lparr>written := written r @ [footer_text (seen r) (kept r)]\<rparr>)"

text \<open>
  The thread: its exit code, the texts written to the log and whether it closed its end of the
  pipe. The log may fail to open.
\<close>

definition browser_log_reader_thread ::
    "(u32 \<Rightarrow> string) \<Rightarrow> bool \<Rightarrow> string list \<Rightarrow> u32 \<times> string list \<times> bool" where
  "browser_log_reader_thread utc log_opens chunks =
     (if \<not> log_opens then (1, [], False)
      else
        let r = finish_log utc (read_loop utc chunks (new_reader\<lparr>written := [header_text]\<rparr>)) in
          (0, written r, True))"

section \<open>Reading in chunks is reading the whole\<close>

lemma read_loop_concat:
  "read_loop utc chunks r = fold (read_byte utc) (concat (takeWhile (\<lambda>c. c \<noteq> []) chunks)) r"
  by (induction utc chunks r rule: read_loop.induct) simp_all

section \<open>What is written\<close>

definition categories :: "string list" where
  "categories = [''audio'', ''video'', ''media'', ''decoder'', ''graphics'', ''sandbox'', ''crash'',
     ''extension'', ''network'', ''browser'']"

definition severities :: "string list" where
  "severities = [''fatal'', ''error'', ''warning'', ''information'']"

definition is_event :: "(u32 \<Rightarrow> string) \<Rightarrow> string \<Rightarrow> bool" where
  "is_event utc text_written \<longleftrightarrow> (\<exists>n. \<exists>c \<in> set categories. \<exists>s \<in> set severities.
     text_written = event_text (utc n) n c s)"

lemma category_known: "browser_line_category l = Some c \<Longrightarrow> c \<in> set categories"
  by (auto simp: browser_line_category_def categories_def split: if_splits)

lemma severity_known: "browser_line_severity l \<in> set severities"
  by (auto simp: browser_line_severity_def severities_def)

text \<open>The invariant of the reader: the buffer is never overrun, and only events are written.\<close>

definition reader_inv :: "(u32 \<Rightarrow> string) \<Rightarrow> log_reader \<Rightarrow> bool" where
  "reader_inv utc r \<longleftrightarrow>
     length (line r) + 2 \<le> LINE_BYTES \<and> kept r \<le> 20000 \<and>
     (\<exists>es. written r = header_text # es \<and> length es = unat (kept r) \<and> (\<forall>e \<in> set es. is_event utc e))"

lemma word_suc_le:
  assumes "\<not> 20000 \<le> (k :: u32)"
  shows "k + 1 \<le> 20000 \<and> unat (k + 1) = Suc (unat k)"
proof -
  have k: "unat k < 20000" using assms by (simp add: word_le_nat_alt)
  then have "unat (k + 1) = Suc (unat k)" by (simp add: unat_word_ariths)
  with k show ?thesis by (simp add: word_le_nat_alt)
qed

lemma reader_inv_event:
  assumes "reader_inv utc r"
  shows "reader_inv utc (write_browser_category_event utc r)"
proof -
  let ?l = "takeWhile (\<lambda>c. c \<noteq> NUL) (line r)"
  obtain es where es: "written r = header_text # es" "length es = unat (kept r)"
    "\<forall>e \<in> set es. is_event utc e" and len: "length (line r) + 2 \<le> LINE_BYTES"
    using assms by (auto simp: reader_inv_def)
  show ?thesis
  proof (cases "(browser_line_category ?l = None \<and> char_at (browser_line_severity ?l) 0 = CHR ''i'') \<or>
      kept r \<ge> 20000")
    case True
    then show ?thesis using assms by (auto simp: write_browser_category_event_def Let_def)
  next
    case False
    let ?c = "case browser_line_category ?l of None \<Rightarrow> ''browser'' | Some c \<Rightarrow> c"
    let ?e = "event_text (utc (seen r)) (seen r) ?c (browser_line_severity ?l)"
    have "?c \<in> set categories"
      using category_known by (auto simp: categories_def split: option.split)
    then have "is_event utc ?e" using severity_known unfolding is_event_def by blast
    moreover have "write_browser_category_event utc r = r\<lparr>written := written r @ [?e], kept := kept r + 1\<rparr>"
      using False unfolding write_browser_category_event_def Let_def
      by (subst if_not_P, blast, subst if_not_P, blast, intro refl)
    ultimately show ?thesis using es len False word_suc_le [of "kept r"]
      by (auto simp: reader_inv_def)
  qed
qed

lemma reader_inv_end_line:
  assumes "reader_inv utc r"
  shows "reader_inv utc (end_line utc r)"
proof -
  have "reader_inv utc (r\<lparr>seen := seen r + 1\<rparr>)" using assms by (simp add: reader_inv_def)
  from reader_inv_event [OF this] show ?thesis
    by (simp add: reader_inv_def end_line_def LINE_BYTES_def)
qed

lemma end_line_line [simp]: "line (end_line utc r) = []"
  by (simp add: end_line_def)

lemma reader_inv_byte:
  assumes "reader_inv utc r"
  shows "reader_inv utc (read_byte utc c r)"
proof (cases "length (line r) + 2 \<ge> LINE_BYTES \<or> c = CHR 0x0A")
  case True
  have e: "reader_inv utc (end_line utc r)" by (rule reader_inv_end_line [OF assms])
  then have "reader_inv utc ((end_line utc r)\<lparr>line := [c]\<rparr>)"
    by (simp add: reader_inv_def LINE_BYTES_def)
  then show ?thesis using True e by (auto simp: read_byte_def Let_def)
next
  case False
  then show ?thesis using assms by (auto simp: read_byte_def Let_def reader_inv_def)
qed

lemma reader_inv_fold: "reader_inv utc r \<Longrightarrow> reader_inv utc (fold (read_byte utc) s r)"
  by (induction s arbitrary: r) (auto intro: reader_inv_byte)

lemma reader_inv_start: "reader_inv utc (new_reader\<lparr>written := [header_text]\<rparr>)"
  by (simp add: reader_inv_def new_reader_def LINE_BYTES_def)

section \<open>The log of a text, line by line\<close>

text \<open>The lines of a text; what follows the last newline counts when it is not empty.\<close>

fun text_lines :: "string \<Rightarrow> string \<Rightarrow> string list" where
  "text_lines acc [] = (if acc = [] then [] else [acc])"
| "text_lines acc (c # cs) =
     (if c = CHR 0x0A then acc # text_lines [] cs
      else if c = CHR 0x0D then text_lines acc cs else text_lines (acc @ [c]) cs)"

text \<open>
  The specification: number the lines, keep those with a category or a severity above
  information, and of these the first 20000.
\<close>

definition line_event :: "(u32 \<Rightarrow> string) \<Rightarrow> u32 \<Rightarrow> string \<Rightarrow> string list" where
  "line_event utc n l =
     (let l = takeWhile (\<lambda>c. c \<noteq> NUL) l in
        case browser_line_category l of
          None \<Rightarrow> if browser_line_severity l = ''information'' then []
            else [event_text (utc n) n ''browser'' (browser_line_severity l)]
        | Some c \<Rightarrow> [event_text (utc n) n c (browser_line_severity l)])"

definition events_of :: "(u32 \<Rightarrow> string) \<Rightarrow> string list \<Rightarrow> string list" where
  "events_of utc ls = concat (map2 (\<lambda>n. line_event utc (of_nat n)) [1..<Suc (length ls)] ls)"

definition log_spec :: "(u32 \<Rightarrow> string) \<Rightarrow> string list \<Rightarrow> string list" where
  "log_spec utc ls =
     (let es = take 20000 (events_of utc ls) in
        header_text # es @ [footer_text (of_nat (length ls)) (of_nat (length es))])"

lemma severity_information:
  "char_at (browser_line_severity l) 0 = CHR ''i'' \<longleftrightarrow> browser_line_severity l = ''information''"
  by (simp add: browser_line_severity_def char_at_def)

lemma write_event_eq:
  "write_browser_category_event utc r =
     (let es = line_event utc (seen r) (line r) in
        if es = [] \<or> kept r \<ge> 20000 then r
        else r\<lparr>written := written r @ es, kept := kept r + 1\<rparr>)"
  by (simp add: write_browser_category_event_def line_event_def Let_def severity_information
      split: option.split)

lemma events_of_snoc:
  "events_of utc (ls @ [l]) = events_of utc ls @ line_event utc (of_nat (Suc (length ls))) l"
proof -
  have u: "[1..<Suc (length (ls @ [l]))] = [1..<Suc (length ls)] @ [Suc (length ls)]" by simp
  have "zip ([1..<Suc (length ls)] @ [Suc (length ls)]) (ls @ [l]) =
      zip [1..<Suc (length ls)] ls @ [(Suc (length ls), l)]"
    by (subst zip_append) (simp, cases ls, simp_all)
  then show ?thesis unfolding events_of_def u by (simp del: upt_Suc of_nat_Suc)
qed

text \<open>The state of the reader after so many lines, with the start of the next.\<close>

definition reader_at :: "(u32 \<Rightarrow> string) \<Rightarrow> string list \<Rightarrow> string \<Rightarrow> log_reader" where
  "reader_at utc ls acc =
     \<lparr>line = acc, seen = of_nat (length ls), kept = of_nat (min 20000 (length (events_of utc ls))),
      written = header_text # take 20000 (events_of utc ls)\<rparr>"

lemma line_event_cases: "line_event utc n l = [] \<or> (\<exists>e. line_event utc n l = [e])"
  by (auto simp: line_event_def Let_def split: option.split)

lemma end_line_at: "end_line utc (reader_at utc ls acc) = reader_at utc (ls @ [acc]) []"
proof -
  let ?E = "events_of utc ls" and ?n = "of_nat (Suc (length ls)) :: u32"
  let ?e = "line_event utc ?n acc"
  have n: "of_nat (length ls) + 1 = ?n" by simp
  have u: "unat (of_nat (min 20000 (length ?E)) :: u32) = min 20000 (length ?E)"
    by (rule unat_of_nat_small) auto
  then have full: "(of_nat (min 20000 (length ?E)) :: u32) \<ge> 20000 \<longleftrightarrow> 20000 \<le> length ?E"
    by (simp add: word_le_nat_alt)
  have step: "end_line utc (reader_at utc ls acc) =
      (if ?e = [] \<or> 20000 \<le> length ?E then reader_at utc ls acc
       else (reader_at utc ls acc)\<lparr>written := header_text # take 20000 ?E @ ?e,
         kept := of_nat (min 20000 (length ?E)) + 1\<rparr>)\<lparr>line := [], seen := ?n\<rparr>"
    unfolding end_line_def write_event_eq reader_at_def full [symmetric] Let_def by (simp add: n)
  show ?thesis
  proof (cases "?e = [] \<or> 20000 \<le> length ?E")
    case True
    then show ?thesis unfolding step by (auto simp: reader_at_def events_of_snoc)
  next
    case False
    then obtain e where e: "?e = [e]" using line_event_cases by blast
    have k: "of_nat (min 20000 (length ?E)) + 1 = (of_nat (min 20000 (Suc (length ?E))) :: u32)"
    proof -
      have "min 20000 (length ?E) = length ?E" "min 20000 (Suc (length ?E)) = Suc (length ?E)"
        using False by simp_all
      then show ?thesis by simp
    qed
    show ?thesis using False unfolding step k
      by (simp add: reader_at_def events_of_snoc e del: of_nat_Suc)
  qed
qed

lemma read_byte_at:
  assumes "length acc + 2 < LINE_BYTES"
  shows "read_byte utc c (reader_at utc ls acc) =
    (if c = CHR 0x0A then reader_at utc (ls @ [acc]) []
     else if c = CHR 0x0D then reader_at utc ls acc else reader_at utc ls (acc @ [c]))"
  using assms by (auto simp: read_byte_def end_line_at) (simp_all add: reader_at_def)

text \<open>The lines fit the buffer.\<close>

definition fitting :: "string list \<Rightarrow> bool" where
  "fitting ls \<longleftrightarrow> (\<forall>l \<in> set ls. length l + 2 < LINE_BYTES)"

lemma text_lines_acc: "fitting (text_lines acc s) \<Longrightarrow> length acc + 2 < LINE_BYTES"
proof (induction acc s rule: text_lines.induct)
  case (1 acc)
  then show ?case by (auto simp: fitting_def LINE_BYTES_def split: if_splits)
next
  case (2 acc c cs)
  then show ?case by (auto simp: fitting_def split: if_splits)
qed

lemma read_text_at:
  "fitting (text_lines acc s) \<Longrightarrow>
     finish_log utc (fold (read_byte utc) s (reader_at utc ls acc)) =
     finish_log utc (reader_at utc (ls @ text_lines acc s) [])"
proof (induction acc s arbitrary: ls rule: text_lines.induct)
  case (1 acc)
  then show ?case by (simp add: finish_log_def end_line_at) (simp add: reader_at_def)
next
  case (2 acc c cs)
  note len = text_lines_acc [OF 2(4)]
  have fit: "fitting (text_lines [] cs)" if "c = CHR 0x0A" using 2(4) that by (simp add: fitting_def)
  show ?case
    using 2 fit by (auto simp: read_byte_at [OF len])
qed

lemma finish_log_at: "written (finish_log utc (reader_at utc ls [])) = log_spec utc ls"
proof -
  have u: "(of_nat (min 20000 (length (events_of utc ls))) :: u32) =
      of_nat (length (take 20000 (events_of utc ls)))" by (simp add: min.commute)
  show ?thesis unfolding finish_log_def log_spec_def Let_def
    by (simp add: reader_at_def min.commute)
qed

definition sample_clock :: "u32 \<Rightarrow> string" where
  "sample_clock n = ''2026-01-01T00:00:00Z''"

text \<open>
  C22: the log of a browser session holds none of the browser's text. Whatever the pipe delivers,
  in whatever chunks, the texts written are the fixed header, at most 20000 events, each made of
  a time, a number, one of ten category words and one of four severity words, and a footer of
  counters; the line buffer is never overrun before any byte is stored.
\<close>

theorem browser_log_is_private:
  assumes "browser_log_reader_thread utc True chunks = (result, texts, closed)"
  shows "result = 0 \<and> closed \<and>
    (\<exists>es m k. texts = header_text # es @ [footer_text m k] \<and> length es \<le> 20000 \<and>
       length es = unat k \<and> list_all (is_event utc) es) \<and>
    length (line (fold (read_byte utc) bytes (new_reader\<lparr>written := [header_text]\<rparr>))) + 2 \<le> LINE_BYTES"
proof -
  let ?r = "read_loop utc chunks (new_reader\<lparr>written := [header_text]\<rparr>)"
  let ?q = "if line ?r \<noteq> [] then end_line utc ?r else ?r"
  have r: "reader_inv utc ?r" unfolding read_loop_concat
    by (intro reader_inv_fold reader_inv_start)
  then have q: "reader_inv utc ?q" using reader_inv_end_line by simp
  have out: "result = 0" "closed" "texts = written ?q @ [footer_text (seen ?q) (kept ?q)]"
    using assms by (auto simp: browser_log_reader_thread_def finish_log_def Let_def)
  obtain es where es: "written ?q = header_text # es" "length es = unat (kept ?q)"
    "\<forall>e \<in> set es. is_event utc e" and k: "kept ?q \<le> 20000"
    using q by (auto simp: reader_inv_def)
  have "length es \<le> 20000" using es(2) k by (simp add: word_le_nat_alt)
  moreover have "reader_inv utc (fold (read_byte utc) bytes (new_reader\<lparr>written := [header_text]\<rparr>))"
    by (intro reader_inv_fold reader_inv_start)
  ultimately show ?thesis using out es unfolding reader_inv_def list_all_iff by auto
qed

theorem browser_log_is_private_witness:
  "\<exists>es m k. browser_log_reader_thread sample_clock True [''GPU err'', ''or: C:/x'' @ CRLF @ ''hello''] =
     (0, header_text # es @ [footer_text m k], True) \<and> list_all (is_event sample_clock) es"
proof -
  obtain texts where out: "browser_log_reader_thread sample_clock True
      [''GPU err'', ''or: C:/x'' @ CRLF @ ''hello''] = (0, texts, True)"
    by (simp add: browser_log_reader_thread_def Let_def)
  from browser_log_is_private [OF this] show ?thesis unfolding out by blast
qed

text \<open>
  The log depends only on the lines: for a text none of whose lines is longer than the
  buffer, cut into chunks anyhow, the thread writes what the specification gives: each line is
  numbered, carriage returns are dropped, and of the lines with a category or a severity above
  information the first 20000 give an event.
\<close>

theorem browser_log_reference:
  assumes "fitting (text_lines [] text_read)" and "concat chunks = text_read" and "[] \<notin> set chunks"
  shows "browser_log_reader_thread utc True chunks = (0, log_spec utc (text_lines [] text_read), True)"
proof -
  have all: "takeWhile (\<lambda>c. c \<noteq> []) chunks = chunks"
    using assms(3) by (auto simp: takeWhile_eq_all_conv)
  have start: "new_reader\<lparr>written := [header_text]\<rparr> = reader_at utc [] []"
    by (simp add: new_reader_def reader_at_def events_of_def)
  show ?thesis
    unfolding browser_log_reader_thread_def read_loop_concat all assms(2) start
    using read_text_at [OF assms(1), of utc "[]"] finish_log_at [of utc "text_lines [] text_read"]
    by (simp add: Let_def)
qed

theorem browser_log_reference_witness:
  "browser_log_reader_thread sample_clock True [''a'', ''udio'' @ CRLF @ ''x''] =
     (0, log_spec sample_clock [''audio'', ''x''], True)"
proof -
  have lines: "text_lines [] (concat [''a'', ''udio'' @ CRLF @ ''x'']) = [''audio'', ''x'']" by simp
  have "fitting (text_lines [] (concat [''a'', ''udio'' @ CRLF @ ''x'']))"
    unfolding lines by (simp add: fitting_def LINE_BYTES_def)
  from browser_log_reference [OF this refl, of sample_clock] show ?thesis unfolding lines by simp
qed

end
