(* ===== verification/Launcher_Http.thy ===== *)
theory Launcher_Http
  imports Launcher_Text
begin

text \<open>
  The requests to the media server of the diagnostics launcher
  (\<open>diagnostics/supermium_w2k_rc1_launcher.c\<close>): receiving and answering one request
  (\<open>handle_http_client\<close>) and the record it logs (\<open>append_media_record\<close>). The request buffer is the list of bytes received;
  its string functions see it up to its first NUL. \<open>None\<close> stands for undefined behaviour of the
  C code: a conversion or a sum that does not fit an \<open>int\<close>, or a store outside the buffer.
\<close>

section \<open>Parsing helpers\<close>

definition c_text :: "string \<Rightarrow> string" where
  "c_text bytes = takeWhile (\<lambda>c. c \<noteq> NUL) bytes"

text \<open>\<open>strstr\<close>: the offset of the first occurrence.\<close>

fun strstr_offset :: "string \<Rightarrow> string \<Rightarrow> nat option" where
  "strstr_offset [] needle = (if needle = [] then Some 0 else None)"
| "strstr_offset (c # cs) needle =
     (if take (length needle) (c # cs) = needle then Some 0
      else map_option Suc (strstr_offset cs needle))"

definition in_int :: "int \<Rightarrow> bool" where
  "in_int v \<longleftrightarrow> -2147483648 \<le> v \<and> v \<le> 2147483647"

text \<open>\<open>atoi\<close>, where the value fits an \<open>int\<close>.\<close>

definition atoi :: "string \<Rightarrow> int option" where
  "atoi s =
     (let s = dropWhile is_space s;
          negative = (char_at s 0 = CHR ''-'');
          s = (if negative \<or> char_at s 0 = CHR ''+'' then drop 1 s else s);
          v = int (dec_value (takeWhile is_digit s));
          v = (if negative then - v else v) in
        if in_int v then Some v else None)"

abbreviation blank :: "char \<Rightarrow> bool" where
  "blank c \<equiv> c = CHR '' '' \<or> c = CHR 0x09"

definition find_header_value :: "string \<Rightarrow> string \<Rightarrow> string option" where
  "find_header_value request name =
     (case ci_find request name of
        None \<Rightarrow> None
      | Some found \<Rightarrow> Some (dropWhile blank (drop (length name) found)))"

definition origin_is_extension :: "string \<Rightarrow> bool" where
  "origin_is_extension request =
     (case find_header_value request ''Origin:'' of
        None \<Rightarrow> True
      | Some origin \<Rightarrow> ci_starts_with origin ''chrome-extension://'')"

section \<open>Receiving\<close>

definition REQUEST_BYTES :: nat where
  "REQUEST_BYTES = 65536"

abbreviation HEADER_END :: string where
  "HEADER_END \<equiv> [CHR 0x0D, CHR 0x0A, CHR 0x0D, CHR 0x0A]"

record http_request =
  request :: string
  header_end :: int
  content_length :: int

definition new_request :: http_request where
  "new_request = \<lparr>request = [], header_end = -1, content_length = 0\<rparr>"

text \<open>The search for the end of the header: whether the loop goes on after it, and the request.\<close>

definition scan_header :: "http_request \<Rightarrow> (bool \<times> http_request) option" where
  "scan_header r =
     (if header_end r \<ge> 0 then Some (True, r)
      else case strstr_offset (c_text (request r)) HEADER_END of
        None \<Rightarrow> Some (True, r)
      | Some found \<Rightarrow>
          let r = r\<lparr>header_end := int found + 4\<rparr> in
            (case find_header_value (c_text (request r)) ''Content-Length:'' of
               None \<Rightarrow> Some (True, r)
             | Some length_value \<Rightarrow>
                 (case atoi length_value of
                    None \<Rightarrow> None
                  | Some n \<Rightarrow> Some (\<not> (n < 0 \<or> n > 32768), r\<lparr>content_length := n\<rparr>))))"

text \<open>The loop over \<open>recv\<close>; an empty answer is an orderly or an abortive end.\<close>

fun receive :: "string list \<Rightarrow> http_request \<Rightarrow> http_request option" where
  "receive [] r = Some r"
| "receive (answer # answers) r =
     (if \<not> length (request r) + 1 < REQUEST_BYTES then Some r
      else
        let data = take (REQUEST_BYTES - length (request r) - 1) answer in
          if data = [] then Some r
          else case scan_header (r\<lparr>request := request r @ data\<rparr>) of
            None \<Rightarrow> None
          | Some (False, r) \<Rightarrow> Some r
          | Some (True, r) \<Rightarrow>
              if header_end r \<ge> 0 \<and> int (length (request r)) \<ge> header_end r + content_length r
              then Some r
              else receive answers r)"

section \<open>Answering\<close>

datatype reply = NoContent | Forbidden

definition MEDIA_HEADER :: string where
  "MEDIA_HEADER = ''X-Supermium-Diagnostics: 144-r5-w2k-rc1''"

text \<open>
  The reply, whether it carries the CORS header and the body handed to \<open>append_media_record\<close>,
  if any.
\<close>

definition answer_request :: "http_request \<Rightarrow> (reply \<times> bool \<times> string option) option" where
  "answer_request r =
     (let seen = c_text (request r) in
        if ci_starts_with seen ''OPTIONS '' then
          (if origin_is_extension seen then Some (NoContent, True, None)
           else Some (Forbidden, False, None))
        else if \<not> ci_starts_with seen ''POST /youtube '' \<or> \<not> origin_is_extension seen \<or>
          ci_find seen MEDIA_HEADER = None \<or> header_end r < 0 \<or> content_length r \<le> 0
        then Some (Forbidden, False, None)
        else if \<not> in_int (header_end r + content_length r) then None
        else if int (length (request r)) < header_end r + content_length r
        then Some (Forbidden, False, None)
        else if header_end r + content_length r \<ge> int REQUEST_BYTES then None
        else Some (NoContent, True,
          Some (c_text (take (nat (content_length r)) (drop (nat (header_end r)) (request r))))))"

definition handle_http_client :: "string list \<Rightarrow> (reply \<times> bool \<times> string option) option" where
  "handle_http_client answers = Option.bind (receive answers new_request) answer_request"

definition append_media_record :: "sensitive_names \<Rightarrow> string \<Rightarrow> string \<Rightarrow> string" where
  "append_media_record names timestamp body =
     take 127 (''{'' @ CHR 0x22 # ''received_utc'' @ CHR 0x22 # '':'' @ CHR 0x22 # timestamp @
       CHR 0x22 # '','' @ CHR 0x22 # ''payload'' @ CHR 0x22 # '':'') @
     sanitize_text names body 65536 @ ''}'' @ [CHR 0x0D, CHR 0x0A]"

section \<open>The buffer and the header\<close>

text \<open>
  What receiving establishes: the buffer keeps room for the NUL, the header end lies in it, and
  a content length was read only with it.
\<close>

definition request_inv :: "http_request \<Rightarrow> bool" where
  "request_inv r \<longleftrightarrow>
     length (request r) < REQUEST_BYTES \<and> in_int (content_length r) \<and>
     (header_end r = -1 \<and> content_length r = 0 \<or>
      4 \<le> header_end r \<and> header_end r \<le> int (length (request r)))"

lemma strstr_bound: "strstr_offset s n = Some p \<Longrightarrow> p + length n \<le> length s"
proof (induction s arbitrary: p)
  case (Cons c cs)
  then show ?case by (fastforce split: if_splits dest: arg_cong [of _ _ length])
qed (simp split: if_splits)

lemma atoi_in_int: "atoi s = Some v \<Longrightarrow> in_int v"
  by (auto simp: atoi_def Let_def split: if_splits)

lemma scan_header_inv:
  assumes "request_inv r" and "scan_header r = Some (b, r')"
  shows "request_inv r' \<and> request r' = request r"
proof -
  have "int p + 4 \<le> int (length (request r))"
    if "strstr_offset (c_text (request r)) HEADER_END = Some p" for p
    using strstr_bound [OF that] length_takeWhile_le [of "\<lambda>c. c \<noteq> NUL" "request r"]
    by (simp add: c_text_def)
  then show ?thesis using assms atoi_in_int
    by (auto simp: scan_header_def request_inv_def Let_def split: if_splits option.splits)
qed

lemma request_inv_more:
  "request_inv r \<Longrightarrow> length (request r @ data) < REQUEST_BYTES \<Longrightarrow>
   request_inv (r\<lparr>request := request r @ data\<rparr>)"
  by (auto simp: request_inv_def)

text \<open>One answer of \<open>recv\<close>: the loop stops before it, at it, or goes on behind it.\<close>

definition received :: "http_request \<Rightarrow> string \<Rightarrow> http_request" where
  "received r answer =
     r\<lparr>request := request r @ take (REQUEST_BYTES - length (request r) - 1) answer\<rparr>"

lemma receive_cases:
  obtains (stop) "receive (answer # answers) r = Some r"
  | (undefined) "scan_header (received r answer) = None" "receive (answer # answers) r = None"
      "length (request r) + 1 < REQUEST_BYTES"
  | (last) b r1 where "scan_header (received r answer) = Some (b, r1)"
      "receive (answer # answers) r = Some r1" "length (request r) + 1 < REQUEST_BYTES"
  | (more) r1 where "scan_header (received r answer) = Some (True, r1)"
      "receive (answer # answers) r = receive answers r1" "length (request r) + 1 < REQUEST_BYTES"
proof (cases "length (request r) + 1 < REQUEST_BYTES")
  case False
  then have "receive (answer # answers) r = Some r" by simp
  then show ?thesis by (rule stop)
next
  case room: True
  let ?d = "take (REQUEST_BYTES - length (request r) - 1) answer"
  have step: "receive (answer # answers) r =
      (if ?d = [] then Some r
       else case scan_header (received r answer) of
           None \<Rightarrow> None
         | Some (False, r) \<Rightarrow> Some r
         | Some (True, r) \<Rightarrow>
             if header_end r \<ge> 0 \<and> int (length (request r)) \<ge> header_end r + content_length r
             then Some r else receive answers r)"
    using room by (simp add: Let_def received_def)
  show ?thesis
  proof (cases "?d = []")
    case True
    then have "receive (answer # answers) r = Some r" unfolding step by (rule if_P)
    then show ?thesis by (rule stop)
  next
    case False
    note step = step [unfolded if_not_P [OF False]]
    show ?thesis
    proof (cases "scan_header (received r answer)")
      case None
      then show ?thesis using undefined step room by simp
    next
      case (Some x)
      obtain b r1 where x: "x = (b, r1)" by (cases x)
      note sc = Some [unfolded x]
      show ?thesis
      proof (cases "b \<and> \<not> (header_end r1 \<ge> 0 \<and> int (length (request r1)) \<ge> header_end r1 + content_length r1)")
        case True
        then have "scan_header (received r answer) = Some (True, r1)" using sc by simp
        moreover have "receive (answer # answers) r = receive answers r1"
          unfolding step sc using True by auto
        ultimately show ?thesis using more room by blast
      next
        case False
        then have "receive (answer # answers) r = Some r1" unfolding step sc by (cases b) auto
        then show ?thesis using last sc room by blast
      qed
    qed
  qed
qed

lemma received_inv:
  assumes "request_inv r" and "length (request r) + 1 < REQUEST_BYTES"
  shows "request_inv (received r answer)"
  unfolding received_def using assms by (intro request_inv_more) auto

lemma receive_inv: "request_inv r \<Longrightarrow> receive answers r = Some r' \<Longrightarrow> request_inv r'"
proof (induction answers arbitrary: r)
  case (Cons answer answers)
  show ?case
  proof (cases rule: receive_cases [of answer answers r])
    case (last b r1)
    then show ?thesis using Cons.prems scan_header_inv received_inv by fastforce
  next
    case (more r1)
    then show ?thesis using Cons scan_header_inv received_inv by (metis (no_types))
  qed (use Cons.prems in auto)
qed simp

lemma request_inv_new: "request_inv new_request"
  by (simp add: request_inv_def new_request_def REQUEST_BYTES_def in_int_def)

section \<open>A request in any chunks\<close>

lemma ci_starts_with_append: "ci_starts_with s p \<Longrightarrow> ci_starts_with (s @ t) p"
  by (induction s p rule: ci_starts_with.induct) auto

lemma ci_find_append:
  assumes "ci_find s n = Some f"
  shows "ci_find (s @ t) n = Some (f @ t)"
proof -
  have "ci_find_loop s n = Some f \<Longrightarrow> ci_find_loop (s @ t) n = Some (f @ t)" for s
  proof (induction s)
    case (Cons c cs)
    show ?case
    proof (cases "ci_starts_with (c # cs) n")
      case True
      then show ?thesis using ci_starts_with_append [OF True, of t] Cons.prems by auto
    next
      case False
      then have f: "ci_find_loop cs n = Some f" using Cons.prems by simp
      then have "length n \<le> length cs"
        by (induction cs) (auto simp: ci_starts_with_iff split: if_splits)
      then have "\<not> ci_starts_with ((c # cs) @ t) n"
        using False unfolding ci_starts_with_iff by (simp only: take_append) simp
      then show ?thesis using Cons.IH [OF f] by simp
    qed
  qed simp
  then show ?thesis using assms by (auto simp: ci_find_def split: if_splits)
qed

lemma strstr_append: "strstr_offset s n = Some p \<Longrightarrow> strstr_offset (s @ t) n = Some p"
proof (induction s arbitrary: p)
  case Nil
  then show ?case by (cases t) (auto split: if_splits)
next
  case (Cons c cs)
  have "length n \<le> length (c # cs)" using strstr_bound [OF Cons.prems] by simp
  then have eq: "take (length n) ((c # cs) @ t) = take (length n) (c # cs)"
    by (simp only: take_append) simp
  show ?case
  proof (cases "take (length n) (c # cs) = n")
    case True
    then show ?thesis using Cons.prems eq by simp
  next
    case False
    then obtain q where "strstr_offset cs n = Some q" "p = Suc q"
      using Cons.prems by auto
    then show ?thesis using Cons.IH eq False by simp
  qed
qed

lemma takeWhile_stop: "\<not> P c \<Longrightarrow> takeWhile P (xs @ c # ys) = takeWhile P xs"
  by (induction xs) auto

lemma dropWhile_stop: "dropWhile P xs \<noteq> [] \<Longrightarrow> dropWhile P (xs @ ys) = dropWhile P xs @ ys"
  by (induction xs) auto

text \<open>
  A well-formed request: its header ends once, has no NUL, and declares the length of the body.
\<close>

definition declares :: "string \<Rightarrow> nat \<Rightarrow> bool" where
  "declares head n \<longleftrightarrow>
     (\<exists>found. ci_find head ''Content-Length:'' = Some found \<and>
       takeWhile is_digit (dropWhile blank (drop (length ''Content-Length:'') found)) \<noteq> [] \<and>
       dec_value (takeWhile is_digit (dropWhile blank (drop (length ''Content-Length:'') found))) = n)"

definition well_formed :: "string \<Rightarrow> string \<Rightarrow> bool" where
  "well_formed head body \<longleftrightarrow>
     NUL \<notin> set head \<and> strstr_offset (head @ HEADER_END) HEADER_END = Some (length head) \<and>
     declares head (length body) \<and> 0 < length body \<and> length body \<le> 32768 \<and>
     length head + 4 + length body < REQUEST_BYTES"

lemma atoi_digits:
  assumes "takeWhile is_digit v \<noteq> []" and "dec_value (takeWhile is_digit v) = n" and "n \<le> 32768"
    and "\<not> is_digit c"
  shows "atoi (v @ c # t) = Some (int n)"
proof -
  obtain d ds where d: "v = d # ds" "is_digit d"
    using assms(1) by (cases v) (auto split: if_splits)
  then have "d \<noteq> CHR ''-''" "d \<noteq> CHR ''+''" "\<not> is_space d" by (auto simp: ascii_simps)
  then show ?thesis
    using takeWhile_stop [of is_digit c v t] d assms
    by (simp add: atoi_def Let_def char_at_def in_int_def)
qed

lemma declared_length:
  assumes "declares head n" and "n \<le> 32768"
  shows "\<exists>value_text. find_header_value (head @ HEADER_END @ t) ''Content-Length:'' = Some value_text \<and>
    atoi value_text = Some (int n)"
proof -
  define name where "name = ''Content-Length:''"
  obtain found where f: "ci_find head name = Some found"
    and d: "takeWhile is_digit (dropWhile blank (drop (length name) found)) \<noteq> []"
    and n: "dec_value (takeWhile is_digit (dropWhile blank (drop (length name) found))) = n"
    using assms(1) unfolding declares_def name_def by blast
  let ?v = "drop (length name) found" and ?rest = "[CHR 0x0A, CHR 0x0D, CHR 0x0A] @ t"
  have ne: "dropWhile blank ?v \<noteq> []" using d by (metis takeWhile.simps(1))
  have dr: "drop (length name) (found @ HEADER_END @ t) = ?v @ CHR 0x0D # ?rest"
  proof -
    have "length name \<le> length found" using d
      by (metis drop_all dropWhile.simps(1) nat_le_linear takeWhile.simps(1))
    then show ?thesis by simp
  qed
  have "find_header_value (head @ HEADER_END @ t) name = Some (dropWhile blank ?v @ CHR 0x0D # ?rest)"
    unfolding find_header_value_def ci_find_append [OF f] option.case dr dropWhile_stop [OF ne] ..
  moreover have "atoi (dropWhile blank ?v @ CHR 0x0D # ?rest) = Some (int n)"
    by (rule atoi_digits [OF d n assms(2)]) (simp add: ascii_simps)
  ultimately show ?thesis unfolding name_def by blast
qed

text \<open>The request while its first bytes have arrived.\<close>

definition arrived :: "string \<Rightarrow> string \<Rightarrow> string \<Rightarrow> http_request" where
  "arrived head body data =
     (if length data < length head + 4
      then \<lparr>request = data, header_end = -1, content_length = 0\<rparr>
      else \<lparr>request = data, header_end = int (length head) + 4, content_length = int (length body)\<rparr>)"

lemma c_text_head: "NUL \<notin> set head \<Longrightarrow> c_text (head @ s) = head @ c_text s"
  by (induction head) (auto simp: c_text_def)

lemma prefix_short:
  assumes "prefix data (head @ HEADER_END @ body)" and "length data < length head + 4"
  shows "prefix data (head @ HEADER_END)" and "data \<noteq> head @ HEADER_END"
proof -
  have "prefix (head @ HEADER_END) (head @ HEADER_END @ body)" by simp
  then show "prefix data (head @ HEADER_END)"
    using assms prefix_length_prefix [OF assms(1)] by simp
  show "data \<noteq> head @ HEADER_END" using assms(2) by auto
qed

lemma no_end_yet:
  assumes "well_formed head body" and "prefix data (head @ HEADER_END @ body)"
    and "length data < length head + 4"
  shows "strstr_offset (c_text data) HEADER_END = None"
proof (rule ccontr)
  assume "strstr_offset (c_text data) HEADER_END \<noteq> None"
  then obtain p where p: "strstr_offset (c_text data) HEADER_END = Some p" by blast
  have "NUL \<notin> set (head @ HEADER_END)" using assms(1) by (simp add: well_formed_def)
  then have "NUL \<notin> set data"
    using set_mono_prefix [OF prefix_short(1) [OF assms(2,3)]] by blast
  then have c: "c_text data = data" by (auto simp: c_text_def takeWhile_eq_all_conv)
  obtain t where t: "head @ HEADER_END = data @ t"
    using prefix_short(1) [OF assms(2,3)] by (rule prefixE)
  have "strstr_offset (head @ HEADER_END) HEADER_END = Some p"
    unfolding t using strstr_append p c by simp
  then have "p = length head" using assms(1) unfolding well_formed_def by simp
  then show False using strstr_bound [OF p] c assms(3) by simp
qed

text \<open>The three cases of a piece of data: after the header, still inside it, and reaching its end.\<close>

lemma scan_after_header:
  assumes r: "r = arrived head body (request r)" and full: "\<not> length (request r) < length head + 4"
  shows "scan_header (r\<lparr>request := request r @ data\<rparr>) = Some (True, arrived head body (request r @ data))"
proof -
  have "r = \<lparr>request = request r, header_end = int (length head) + 4, content_length = int (length body)\<rparr>"
    using r full by (simp add: arrived_def)
  then have r': "r\<lparr>request := request r @ data\<rparr> = \<lparr>request = request r @ data,
      header_end = int (length head) + 4, content_length = int (length body)\<rparr>"
    by (metis http_request.update_convs(1))
  show ?thesis unfolding r' using full by (simp add: scan_header_def arrived_def)
qed

lemma scan_inside_header:
  assumes wf: "well_formed head body" and pre: "prefix (request r @ data) (head @ HEADER_END @ body)"
    and r: "header_end r = -1" "content_length r = 0" and short: "length (request r @ data) < length head + 4"
  shows "scan_header (r\<lparr>request := request r @ data\<rparr>) = Some (True, arrived head body (request r @ data))"
  using no_end_yet [OF wf pre short] r short by (simp add: scan_header_def arrived_def)

lemma scan_end_of_header:
  assumes wf: "well_formed head body" and pre: "prefix (request r @ data) (head @ HEADER_END @ body)"
    and h: "header_end r = -1" and full: "\<not> length (request r @ data) < length head + 4"
  shows "scan_header (r\<lparr>request := request r @ data\<rparr>) = Some (True, arrived head body (request r @ data))"
proof -
  have "prefix (head @ HEADER_END) (head @ HEADER_END @ body)" by simp
  moreover have "length (head @ HEADER_END) \<le> length (request r @ data)" using full by simp
  ultimately have "prefix (head @ HEADER_END) (request r @ data)" using prefix_length_prefix [OF _ pre] by blast
  then obtain t where t: "request r @ data = (head @ HEADER_END) @ t" by (rule prefixE)
  have ct: "c_text (request r @ data) = (head @ HEADER_END) @ c_text t"
    unfolding t using wf c_text_head [of "head @ HEADER_END" t] by (simp add: well_formed_def)
  have s: "strstr_offset (c_text (request r @ data)) HEADER_END = Some (length head)"
    unfolding ct by (rule strstr_append) (use wf in \<open>simp add: well_formed_def\<close>)
  obtain value_text where v:
    "find_header_value (c_text (request r @ data)) ''Content-Length:'' = Some value_text"
    "atoi value_text = Some (int (length body))"
    unfolding ct using declared_length [of head "length body" "c_text t"] wf
    by (auto simp: well_formed_def)
  have "\<not> (int (length body) < 0 \<or> int (length body) > 32768)" using wf by (simp add: well_formed_def)
  then show ?thesis using h full by (simp add: scan_header_def s v Let_def arrived_def)
qed

lemma scan_arrived:
  assumes wf: "well_formed head body" and pre: "prefix (request r @ data) (head @ HEADER_END @ body)"
    and r: "r = arrived head body (request r)"
  shows "scan_header (r\<lparr>request := request r @ data\<rparr>) = Some (True, arrived head body (request r @ data))"
proof (cases "length (request r) < length head + 4")
  case False
  with r show ?thesis by (rule scan_after_header)
next
  case True
  then have "header_end r = -1" "content_length r = 0"
    using arg_cong [OF r, of header_end] arg_cong [OF r, of content_length] by (simp_all add: arrived_def)
  then show ?thesis using scan_inside_header [OF wf pre] scan_end_of_header [OF wf pre] by blast
qed

lemma receive_arrived:
  assumes wf: "well_formed head body"
  shows "r = arrived head body (request r) \<Longrightarrow> request r @ concat answers = head @ HEADER_END @ body \<Longrightarrow>
    [] \<notin> set answers \<Longrightarrow> receive answers r = Some (arrived head body (head @ HEADER_END @ body))"
proof (induction answers arbitrary: r)
  case Nil
  then show ?case by simp
next
  case (Cons answer answers)
  let ?whole = "head @ HEADER_END @ body"
  have short: "length (request r) + length answer \<le> length ?whole" and "answer \<noteq> []"
    using Cons.prems(2,3) by (auto dest: arg_cong [of _ _ length])
  moreover have "length ?whole < REQUEST_BYTES" using wf by (simp add: well_formed_def)
  ultimately have room: "length (request r) + 1 < REQUEST_BYTES"
    and all: "take (REQUEST_BYTES - length (request r) - 1) answer = answer"
    by (cases answer; simp)+
  have pre: "prefix (request r @ answer) ?whole"
    using Cons.prems(2) by (metis append.assoc concat.simps(2) prefixI)
  let ?r = "arrived head body (request r @ answer)"
  have sc: "scan_header (r\<lparr>request := request r @ answer\<rparr>) = Some (True, ?r)"
    by (rule scan_arrived [OF wf pre Cons.prems(1)])
  have step: "receive (answer # answers) r =
      (if header_end ?r \<ge> 0 \<and> int (length (request ?r)) \<ge> header_end ?r + content_length ?r
       then Some ?r else receive answers ?r)"
    unfolding receive.simps Let_def all using room \<open>answer \<noteq> []\<close> sc by simp
  have req: "request ?r = request r @ answer" by (simp add: arrived_def)
  show ?case
  proof (cases "header_end ?r \<ge> 0 \<and> int (length (request ?r)) \<ge> header_end ?r + content_length ?r")
    case True
    then have "length ?whole \<le> length (request r @ answer)"
      by (auto simp: arrived_def split: if_splits)
    then have "request r @ answer = ?whole" using pre
      by (metis append_eq_conv_conj prefix_def take_all)
    then show ?thesis using step True by simp
  next
    case False
    have "receive answers ?r = Some (arrived head body ?whole)"
      using Cons.prems by (intro Cons.IH) (auto simp: req)
    then show ?thesis using step False by simp
  qed
qed

section \<open>Any client\<close>

lemma scan_header_request: "scan_header r = Some (b, r') \<Longrightarrow> request r' = request r"
  by (auto simp: scan_header_def Let_def split: if_splits option.splits)

text \<open>What was received is a prefix of what the client sent.\<close>

lemma received_rest:
  assumes "scan_header (received r answer) = Some (b, r1)"
  shows "prefix (request r1) (request r @ answer @ more_sent)"
    and "request r1 = request r @ answer \<or> \<not> length (request r1) + 1 < REQUEST_BYTES"
proof -
  let ?n = "REQUEST_BYTES - length (request r) - 1"
  have r1: "request r1 = request r @ take ?n answer"
    using scan_header_request [OF assms] by (simp add: received_def)
  show "prefix (request r1) (request r @ answer @ more_sent)"
    unfolding r1 by (simp add: take_is_prefix prefix_prefix)
  show "request r1 = request r @ answer \<or> \<not> length (request r1) + 1 < REQUEST_BYTES"
    unfolding r1 by (cases "length answer \<le> ?n") auto
qed

lemma receive_full: "\<not> length (request r) + 1 < REQUEST_BYTES \<Longrightarrow> receive answers r = Some r"
  by (cases answers) simp_all

lemma receive_prefix: "receive answers r = Some r' \<Longrightarrow> prefix (request r') (request r @ concat answers)"
proof (induction answers arbitrary: r)
  case (Cons answer answers)
  show ?case
  proof (cases rule: receive_cases [of answer answers r])
    case (last b r1)
    then show ?thesis using Cons.prems received_rest(1) by fastforce
  next
    case (more r1)
    show ?thesis
    proof (cases "request r1 = request r @ answer")
      case True
      then show ?thesis using Cons more(2) by fastforce
    next
      case False
      then have "r' = r1" using received_rest(2) [OF more(1)] receive_full more(2) Cons.prems by simp
      then show ?thesis using received_rest(1) [OF more(1)] by simp
    qed
  qed (use Cons.prems in auto)
qed simp

lemma receive_defined:
  assumes "\<And>p v. prefix p whole \<Longrightarrow> find_header_value (c_text p) ''Content-Length:'' = Some v \<Longrightarrow>
      atoi v \<noteq> None"
  shows "prefix (request r @ concat answers) whole \<Longrightarrow> receive answers r \<noteq> None"
proof (induction answers arbitrary: r)
  case (Cons answer answers)
  show ?case
  proof (cases rule: receive_cases [of answer answers r])
    case undefined
    have "prefix (request (received r answer)) (request r @ concat (answer # answers))"
      by (simp add: received_def take_is_prefix prefix_prefix)
    then have "prefix (request (received r answer)) whole"
      using Cons.prems by (rule prefix_order.trans)
    note known = assms [OF this]
    have "scan_header (received r answer) \<noteq> None"
      using known by (auto simp: scan_header_def Let_def split: option.split)
    then show ?thesis using undefined by simp
  next
    case (more r1)
    show ?thesis
    proof (cases "request r1 = request r @ answer")
      case True
      then have "receive answers r1 \<noteq> None" using Cons by simp
      then show ?thesis using more(2) by simp
    next
      case False
      then show ?thesis using received_rest(2) [OF more(1)] receive_full more(2) by simp
    qed
  qed simp_all
qed simp

lemma answer_defined:
  assumes "request_inv r" and "header_end r + content_length r \<le> 2147483647"
  shows "answer_request r \<noteq> None"
proof -
  have "in_int (header_end r + content_length r)"
    if "\<not> header_end r < 0" "\<not> content_length r \<le> 0"
    using assms that by (auto simp: in_int_def)
  then show ?thesis using assms(1)
    by (auto simp: answer_request_def Let_def request_inv_def)
qed

text \<open>The content length held is 0 or one that was declared.\<close>

lemma scan_header_length:
  assumes "scan_header r = Some (b, r')" and "content_length r \<le> n"
    and "\<And>v. find_header_value (c_text (request r)) ''Content-Length:'' = Some v \<Longrightarrow>
      \<exists>m. atoi v = Some m \<and> m \<le> n"
  shows "content_length r' \<le> n"
  using assms by (auto simp: scan_header_def Let_def split: if_splits option.splits) 

lemma receive_length:
  assumes "\<And>p v. prefix p whole \<Longrightarrow> find_header_value (c_text p) ''Content-Length:'' = Some v \<Longrightarrow>
      \<exists>m. atoi v = Some m \<and> m \<le> n"
  shows "receive answers r = Some r' \<Longrightarrow> prefix (request r @ concat answers) whole \<Longrightarrow>
    content_length r \<le> n \<Longrightarrow> content_length r' \<le> n"
proof (induction answers arbitrary: r)
  case (Cons answer answers)
  have cl: "content_length r1 \<le> n" if "scan_header (received r answer) = Some (b, r1)" for b r1
  proof (rule scan_header_length [OF that])
    have "prefix (request (received r answer)) (request r @ concat (answer # answers))"
      by (simp add: received_def take_is_prefix prefix_prefix)
    then have "prefix (request (received r answer)) whole"
      using Cons.prems(2) by (rule prefix_order.trans)
    then show "\<exists>m. atoi v = Some m \<and> m \<le> n"
      if "find_header_value (c_text (request (received r answer))) ''Content-Length:'' = Some v" for v
      using assms that by blast
    show "content_length (received r answer) \<le> n" using Cons.prems(3) by (simp add: received_def)
  qed
  show ?case
  proof (cases rule: receive_cases [of answer answers r])
    case (last b r1)
    then show ?thesis using cl Cons.prems by auto
  next
    case (more r1)
    show ?thesis
    proof (cases "request r1 = request r @ answer")
      case True
      then show ?thesis using Cons more cl [OF more(1)] by simp
    next
      case False
      then show ?thesis using received_rest(2) [OF more(1)] receive_full more(2) cl [OF more(1)]
          Cons.prems(1) by simp
    qed
  qed (use Cons.prems in auto)
qed simp


text \<open>A request as the extension sends it.\<close>

definition sample_head :: string where
  "sample_head = ''POST /youtube HTTP/1.1'' @ [CHR 0x0D, CHR 0x0A] @ MEDIA_HEADER @
     [CHR 0x0D, CHR 0x0A] @ ''Content-Length: 2''"

lemma sample_declares: "declares sample_head 2"
proof -
  have "ci_find sample_head ''Content-Length:'' = Some ''Content-Length: 2''" by code_simp
  then show ?thesis by (simp add: declares_def dec_value_def ascii_simps)
qed

lemma sample_well_formed: "well_formed sample_head ''ab''"
proof -
  have "strstr_offset (sample_head @ HEADER_END) HEADER_END = Some (length sample_head)" by code_simp
  moreover have "length sample_head = 82" by (simp add: sample_head_def MEDIA_HEADER_def)
  moreover have "NUL \<notin> set sample_head" by (simp add: sample_head_def MEDIA_HEADER_def)
  ultimately show ?thesis using sample_declares [unfolded numeral_2_eq_2]
    by (simp add: well_formed_def REQUEST_BYTES_def)
qed

lemma handle_well_formed:
  assumes "well_formed head body" and "concat answers = head @ HEADER_END @ body" and "[] \<notin> set answers"
  shows "handle_http_client answers =
    (let seen = c_text (head @ HEADER_END @ body) in
       if ci_starts_with seen ''OPTIONS ''
       then Some (if origin_is_extension seen then (NoContent, True, None) else (Forbidden, False, None))
       else if ci_starts_with seen ''POST /youtube '' \<and> origin_is_extension seen \<and>
         ci_find seen MEDIA_HEADER \<noteq> None
       then Some (NoContent, True, Some (c_text body)) else Some (Forbidden, False, None))"
proof -
  let ?whole = "head @ HEADER_END @ body"
  have wf: "0 < length body" "length body \<le> 32768" "length head + 4 + length body < REQUEST_BYTES"
    using assms(1) by (auto simp: well_formed_def)
  have "receive answers new_request = Some (arrived head body ?whole)"
    by (rule receive_arrived [OF assms(1)])
      (use assms(2,3) in \<open>simp_all add: new_request_def arrived_def\<close>)
  then have h: "handle_http_client answers = answer_request (arrived head body ?whole)"
    by (simp add: handle_http_client_def)
  have a: "arrived head body ?whole = \<lparr>request = ?whole, header_end = int (length head) + 4,
      content_length = int (length body)\<rparr>" by (simp add: arrived_def)
  have sum: "in_int (int (length head) + 4 + int (length body))"
    using wf by (simp add: in_int_def REQUEST_BYTES_def)
  have body: "take (nat (int (length body))) (drop (nat (int (length head) + 4)) ?whole) = body"
    by (simp add: nat_add_distrib)
  show ?thesis unfolding h a answer_request_def Let_def http_request.simps body
    using sum wf by simp
qed

text \<open>
  C37: a well-formed request, its body no longer than 32768 bytes, is answered and its whole body
  recorded in the same way however the network cuts it into pieces, and never with undefined
  behaviour.
\<close>

theorem http_chunks_do_not_matter:
  assumes "well_formed head body" and "concat answers = head @ HEADER_END @ body" and "[] \<notin> set answers"
  shows "handle_http_client answers =
    (let seen = c_text (head @ HEADER_END @ body) in
       if ci_starts_with seen ''OPTIONS ''
       then Some (if origin_is_extension seen then (NoContent, True, None) else (Forbidden, False, None))
       else if ci_starts_with seen ''POST /youtube '' \<and> origin_is_extension seen \<and>
         ci_find seen MEDIA_HEADER \<noteq> None
       then Some (NoContent, True, Some (c_text body)) else Some (Forbidden, False, None))"
  by (rule handle_well_formed [OF assms])

lemma sample_answer:
  assumes "concat answers = sample_head @ HEADER_END @ ''ab''" and "[] \<notin> set answers"
  shows "handle_http_client answers = Some (NoContent, True, Some ''ab'')"
proof -
  have "\<not> ci_starts_with (c_text (sample_head @ HEADER_END @ ''ab'')) ''OPTIONS '' \<and>
      ci_starts_with (c_text (sample_head @ HEADER_END @ ''ab'')) ''POST /youtube '' \<and>
      origin_is_extension (c_text (sample_head @ HEADER_END @ ''ab'')) \<and>
      ci_find (c_text (sample_head @ HEADER_END @ ''ab'')) MEDIA_HEADER \<noteq> None \<and>
      c_text ''ab'' = ''ab''" by code_simp
  then show ?thesis using handle_well_formed [OF sample_well_formed assms] by simp
qed

theorem http_chunks_do_not_matter_witness:
  "handle_http_client [sample_head @ HEADER_END, ''a'', ''b''] = handle_http_client
     [take 7 sample_head, drop 7 sample_head @ HEADER_END @ ''ab'']"
proof -
  have c: "concat [sample_head @ HEADER_END, ''a'', ''b''] = sample_head @ HEADER_END @ ''ab''"
    "concat [take 7 sample_head, drop 7 sample_head @ HEADER_END @ ''ab''] =
       sample_head @ HEADER_END @ ''ab''"
  proof -
    show "concat [sample_head @ HEADER_END, ''a'', ''b''] = sample_head @ HEADER_END @ ''ab''" by simp
    have "take 7 x @ drop 7 x @ y = x @ y" for x y :: string
      by (metis append_assoc append_take_drop_id)
    then show "concat [take 7 sample_head, drop 7 sample_head @ HEADER_END @ ''ab''] =
        sample_head @ HEADER_END @ ''ab''" by (simp only: concat.simps append_Nil2 append_assoc)
  qed
  have n: "[] \<notin> set [sample_head @ HEADER_END, ''a'', ''b'']"
    "[] \<notin> set [take 7 sample_head, drop 7 sample_head @ HEADER_END @ ''ab'']"
    by (simp_all add: sample_head_def)
  show ?thesis
    unfolding http_chunks_do_not_matter [OF sample_well_formed c(1) n(1)]
      http_chunks_do_not_matter [OF sample_well_formed c(2) n(2)] ..
qed


text \<open>
  Handling a request has no undefined behaviour, no store outside the buffer included,
  when every length that any beginning of the request declares is at most 2147418110, which
  leaves room for the header.
\<close>

theorem http_defined:
  assumes "\<And>p v. prefix p (concat answers) \<Longrightarrow> find_header_value (c_text p) ''Content-Length:'' = Some v \<Longrightarrow>
      \<exists>m. atoi v = Some m \<and> m \<le> 2147418110"
  shows "handle_http_client answers \<noteq> None"
proof -
  have p: "prefix (request new_request @ concat answers) (concat answers)" by (simp add: new_request_def)
  have "receive answers new_request \<noteq> None"
    by (rule receive_defined [OF _ p]) (use assms in fastforce)
  then obtain r where r: "receive answers new_request = Some r" by blast
  have "content_length r \<le> 2147418110"
    by (rule receive_length [OF assms r p]) (auto simp: new_request_def)
  moreover have inv: "request_inv r" by (rule receive_inv [OF request_inv_new r])
  moreover have "header_end r \<le> 65536"
    using inv by (auto simp: request_inv_def REQUEST_BYTES_def)
  ultimately have "answer_request r \<noteq> None" by (intro answer_defined) auto
  then show ?thesis using r by (simp add: handle_http_client_def)
qed

theorem http_defined_witness: "handle_http_client [''GET /''] \<noteq> None"
proof (rule http_defined)
  fix p v
  assume p: "prefix p (concat [''GET /''])"
    and v: "find_header_value (c_text p) ''Content-Length:'' = Some v"
  have "\<forall>p \<in> set (prefixes ''GET /''). find_header_value (c_text p) ''Content-Length:'' = None"
    by code_simp
  moreover have "p \<in> set (prefixes ''GET /'')" unfolding in_set_prefixes using p by simp
  ultimately have "find_header_value (c_text p) ''Content-Length:'' = None" by (rule bspec)
  then show "\<exists>m. atoi v = Some m \<and> m \<le> 2147418110" using v by simp
qed

definition overflow_request :: string where
  "overflow_request = ''POST /youtube HTTP/1.1'' @ [CHR 0x0D, CHR 0x0A] @ MEDIA_HEADER @
     [CHR 0x0D, CHR 0x0A] @ ''Content-Length: 2147483647'' @ HEADER_END"


end
