(* ===== verification/Launcher_Server.thy ===== *)
theory Launcher_Server
  imports W2K_Prelude
begin

text \<open>
  The media diagnostics server of the launcher (\<open>start_media_server\<close>, \<open>media_server_thread\<close> and
  \<open>stop_media_server\<close> in \<open>diagnostics/supermium_w2k_rc1_launcher.c\<close>): the launcher and the server
  thread share the listening socket, the log and its lock, and run interleaved. Each call of the
  system, each test and each store to a shared variable is a step; system calls fail at will.
  What a client sends is left to the theory of the requests: here a request is logged or not.
\<close>

section \<open>The two threads\<close>

datatype server_pc =
    SvNone | SvLoad | SvStartup | SvSocket | SvBind | SvFailClose | SvFailClear
  | SvLoop | SvAccept | SvReceive | SvTest | SvWrite | SvShut
  | SvExit | SvExitClose | SvExitClear | SvDone nat

datatype stop_pc = MnRun | MnTest | MnClose | MnClear | MnWait | MnLog | MnLock | MnDone

text \<open>
  \<open>listening\<close>: \<open>g_listen_socket\<close> holds the socket; \<open>closes\<close>: how often the listening socket has
  been closed, once it exists; \<open>misused\<close>: the log or its lock was used after its release.
\<close>

record server_sys =
  listening :: bool
  closes :: "nat option"
  g_server_stop :: bool
  g_media_server_ready :: bool
  log_open :: bool
  g_media_lock_ready :: bool
  clients :: nat
  misused :: bool
  gave_up_waiting :: bool
  sv :: server_pc
  mn :: stop_pc

text \<open>The answers: whether the log is created and whether the thread is.\<close>

definition start_media_server :: "bool \<Rightarrow> bool \<Rightarrow> server_sys" where
  "start_media_server log_created thread_created =
     \<lparr>listening = False, closes = None, g_server_stop = False, g_media_server_ready = False,
      log_open = log_created, g_media_lock_ready = True, clients = 0, misused = False,
      gave_up_waiting = False,
      sv = (if log_created \<and> thread_created then SvLoad else SvNone), mn = MnRun\<rparr>"

text \<open>\<open>closesocket\<close> on what the shared variable holds at that moment.\<close>

definition close_listener :: "server_sys \<Rightarrow> server_sys" where
  "close_listener s = (if listening s then s\<lparr>closes := map_option Suc (closes s)\<rparr> else s)"

text \<open>One step of the server thread; binding and accepting need a socket that is open.\<close>

fun media_server_thread :: "bool \<Rightarrow> server_pc \<Rightarrow> server_sys \<Rightarrow> (server_pc \<times> server_sys) option" where
  "media_server_thread ok SvLoad s = Some (if ok then SvStartup else SvDone 1, s)"
| "media_server_thread ok SvStartup s = Some (if ok then SvSocket else SvDone 2, s)"
| "media_server_thread ok SvSocket s =
     Some (if ok then (SvBind, s\<lparr>listening := True, closes := Some 0\<rparr>) else (SvDone 3, s))"
| "media_server_thread ok SvBind s =
     Some (if ok \<and> closes s = Some 0 then (SvLoop, s\<lparr>g_media_server_ready := True\<rparr>) else (SvFailClose, s))"
| "media_server_thread ok SvFailClose s = Some (SvFailClear, close_listener s)"
| "media_server_thread ok SvFailClear s = Some (SvDone 4, s\<lparr>listening := False\<rparr>)"
| "media_server_thread ok SvLoop s = Some (if g_server_stop s then SvExit else SvAccept, s)"
| "media_server_thread ok SvAccept s =
     Some (if ok \<and> closes s = Some 0 then (SvReceive, s\<lparr>clients := clients s + 1\<rparr>) else (SvExit, s))"
| "media_server_thread ok SvReceive s = Some (if ok then SvTest else SvShut, s)"
| "media_server_thread ok SvTest s =
     Some (if \<not> log_open s \<or> \<not> g_media_lock_ready s then SvShut else SvWrite, s)"
| "media_server_thread ok SvWrite s =
     Some (SvShut, s\<lparr>misused := misused s \<or> \<not> log_open s \<or> \<not> g_media_lock_ready s\<rparr>)"
| "media_server_thread ok SvShut s = Some (SvLoop, s\<lparr>clients := clients s - 1\<rparr>)"
| "media_server_thread ok SvExit s = Some (if listening s then SvExitClose else SvDone 0, s)"
| "media_server_thread ok SvExitClose s = Some (SvExitClear, close_listener s)"
| "media_server_thread ok SvExitClear s = Some (SvDone 0, s\<lparr>listening := False\<rparr>)"
| "media_server_thread ok _ s = None"

fun server_ended :: "server_pc \<Rightarrow> bool" where
  "server_ended SvNone = True" | "server_ended (SvDone c) = True" | "server_ended _ = False"

text \<open>One step of \<open>stop_media_server\<close>; the flag says whether a wait for a thread that still runs times out.\<close>

fun stop_media_server :: "bool \<Rightarrow> stop_pc \<Rightarrow> server_sys \<Rightarrow> (stop_pc \<times> server_sys) option" where
  "stop_media_server times_out MnRun s = Some (MnTest, s\<lparr>g_server_stop := True\<rparr>)"
| "stop_media_server times_out MnTest s = Some (if listening s then MnClose else MnWait, s)"
| "stop_media_server times_out MnClose s = Some (MnClear, close_listener s)"
| "stop_media_server times_out MnClear s = Some (MnWait, s\<lparr>listening := False\<rparr>)"
| "stop_media_server times_out MnWait s =
     (if server_ended (sv s) then Some (MnLog, s)
      else if times_out then Some (MnLog, s\<lparr>gave_up_waiting := True\<rparr>)
      else None)"
| "stop_media_server times_out MnLog s = Some (MnLock, s\<lparr>log_open := False\<rparr>)"
| "stop_media_server times_out MnLock s = Some (MnDone, s\<lparr>g_media_lock_ready := False\<rparr>)"
| "stop_media_server times_out MnDone s = None"

inductive server_step :: "server_sys \<Rightarrow> server_sys \<Rightarrow> bool" for s :: server_sys where
  server: "media_server_thread ok (sv s) s = Some (p, s') \<Longrightarrow> server_step s (s'\<lparr>sv := p\<rparr>)"
| launcher: "stop_media_server times_out (mn s) s = Some (p, s') \<Longrightarrow> server_step s (s'\<lparr>mn := p\<rparr>)"

abbreviation server_reachable :: "server_sys \<Rightarrow> bool" where
  "server_reachable \<equiv> reach (\<lambda>s. \<exists>l t. s = start_media_server l t) server_step"

section \<open>The invariant\<close>

fun before_socket :: "server_pc \<Rightarrow> bool" where
  "before_socket SvNone = True" | "before_socket SvLoad = True" | "before_socket SvStartup = True"
| "before_socket SvSocket = True" | "before_socket (SvDone c) = (c = 1 \<or> c = 2 \<or> c = 3)"
| "before_socket _ = False"

fun closing :: "server_pc \<Rightarrow> bool" where
  "closing SvFailClear = True" | "closing SvExitClear = True" | "closing (SvDone c) = (c = 0 \<or> c = 4)"
| "closing _ = False"

fun socket_done :: "server_pc \<Rightarrow> bool" where
  "socket_done (SvDone c) = (c = 0 \<or> c = 4)" | "socket_done _ = False"

fun good_code :: "server_pc \<Rightarrow> bool" where
  "good_code (SvDone c) = (c \<le> 4)" | "good_code _ = True"

fun serving :: "server_pc \<Rightarrow> bool" where
  "serving SvReceive = True" | "serving SvTest = True" | "serving SvWrite = True"
| "serving SvShut = True" | "serving _ = False"

fun past_wait :: "stop_pc \<Rightarrow> bool" where
  "past_wait MnLog = True" | "past_wait MnLock = True" | "past_wait MnDone = True" | "past_wait _ = False"

fun may_have_closed :: "stop_pc \<Rightarrow> bool" where
  "may_have_closed MnRun = False" | "may_have_closed MnTest = False" | "may_have_closed MnClose = False"
| "may_have_closed _ = True"

fun at_close :: "stop_pc \<Rightarrow> bool" where
  "at_close MnClose = True" | "at_close MnClear = True" | "at_close _ = False"

text \<open>The socket: who may have closed it so far.\<close>

definition closed_by :: "server_sys \<Rightarrow> nat" where
  "closed_by s = (if closing (sv s) then 1 else 0) + (if may_have_closed (mn s) then 1 else 0)"

definition socket_inv :: "server_sys \<Rightarrow> bool" where
  "socket_inv s \<longleftrightarrow>
     good_code (sv s) \<and> (closes s = None \<longleftrightarrow> before_socket (sv s)) \<and>
     (listening s \<longrightarrow> closes s \<noteq> None) \<and> (at_close (mn s) \<longrightarrow> closes s \<noteq> None) \<and>
     (closes s = Some 0 \<longrightarrow> listening s \<and> \<not> closing (sv s) \<and> mn s \<noteq> MnClear) \<and>
     (\<forall>n. closes s = Some n \<longrightarrow> n \<le> closed_by s) \<and>
     (socket_done (sv s) \<longrightarrow> \<not> listening s)"

text \<open>Clients, the log and its lock.\<close>

definition log_inv :: "server_sys \<Rightarrow> bool" where
  "log_inv s \<longleftrightarrow>
     clients s = (if serving (sv s) then 1 else 0) \<and>
     (past_wait (mn s) \<longrightarrow> gave_up_waiting s \<or> server_ended (sv s)) \<and>
     (\<not> past_wait (mn s) \<longrightarrow> g_media_lock_ready s \<and> (log_open s \<or> sv s = SvNone)) \<and>
     (misused s \<longrightarrow> gave_up_waiting s)"

lemma server_inv_start: "socket_inv (start_media_server l t) \<and> log_inv (start_media_server l t)"
  by (simp add: socket_inv_def log_inv_def start_media_server_def)

lemma server_thread_socket_inv:
  assumes "media_server_thread ok (sv s) s = Some (p, s')" "socket_inv s"
  shows "socket_inv (s'\<lparr>sv := p\<rparr>)"
  using assms
  by (cases "sv s"; cases "closes s"; clarsimp simp: socket_inv_def closed_by_def close_listener_def split: if_splits)

lemma stop_socket_inv:
  assumes "stop_media_server times_out (mn s) s = Some (p, s')" "socket_inv s"
  shows "socket_inv (s'\<lparr>mn := p\<rparr>)"
  using assms
  by (cases "mn s"; cases "closes s"; clarsimp simp: socket_inv_def closed_by_def close_listener_def split: if_splits)

lemma server_thread_log_inv:
  assumes "media_server_thread ok (sv s) s = Some (p, s')" "log_inv s"
  shows "log_inv (s'\<lparr>sv := p\<rparr>)"
  using assms
  by (cases "sv s"; cases "past_wait (mn s)"; clarsimp simp: log_inv_def close_listener_def split: if_splits)

lemma stop_log_inv:
  assumes "stop_media_server times_out (mn s) s = Some (p, s')" "log_inv s"
  shows "log_inv (s'\<lparr>mn := p\<rparr>)"
  using assms
  by (cases "mn s"; cases "server_ended (sv s)"; clarsimp simp: log_inv_def close_listener_def split: if_splits)

lemma server_step_inv: "server_step s s' \<Longrightarrow> socket_inv s \<and> log_inv s \<Longrightarrow> socket_inv s' \<and> log_inv s'"
  by (erule server_step.cases)
    (auto simp: server_thread_socket_inv stop_socket_inv server_thread_log_inv stop_log_inv)

interpretation media_server: inductive_invariant "\<lambda>s. \<exists>l t. s = start_media_server l t" server_step
    "\<lambda>s. socket_inv s \<and> log_inv s"
proof unfold_locales
  show "socket_inv s \<and> log_inv s" if "\<exists>l t. s = start_media_server l t" for s
    using that server_inv_start by blast
qed (rule server_step_inv)

section \<open>Properties\<close>

text \<open>Runs: whose turn it is, with the answer it gets.\<close>

fun server_run :: "(bool \<times> bool) list \<Rightarrow> server_sys \<Rightarrow> server_sys option" where
  "server_run [] s = Some s"
| "server_run ((is_server, answer) # rest) s =
     (if is_server
      then (case media_server_thread answer (sv s) s of
              None \<Rightarrow> None | Some (p, s) \<Rightarrow> server_run rest (s\<lparr>sv := p\<rparr>))
      else (case stop_media_server answer (mn s) s of
              None \<Rightarrow> None | Some (p, s) \<Rightarrow> server_run rest (s\<lparr>mn := p\<rparr>)))"

lemma server_run_reachable:
  "server_reachable s \<Longrightarrow> server_run acts s = Some s' \<Longrightarrow> server_reachable s'"
proof (induction acts arbitrary: s)
  case (Cons a acts)
  obtain is_server answer where a: "a = (is_server, answer)" by (cases a)
  show ?case
  proof (cases is_server)
    case True
    then obtain p t where t: "media_server_thread answer (sv s) s = Some (p, t)"
      "server_run acts (t\<lparr>sv := p\<rparr>) = Some s'"
      using Cons.prems(2) a by (auto split: option.splits)
    from Cons.IH [OF reach_step [OF Cons.prems(1) server [OF t(1)]] t(2)] show ?thesis .
  next
    case False
    then obtain p t where t: "stop_media_server answer (mn s) s = Some (p, t)"
      "server_run acts (t\<lparr>mn := p\<rparr>) = Some s'"
      using Cons.prems(2) a by (auto split: option.splits)
    from Cons.IH [OF reach_step [OF Cons.prems(1) launcher [OF t(1)]] t(2)] show ?thesis .
  qed
qed simp

lemma server_run_start: "server_run acts (start_media_server l t) = Some s \<Longrightarrow> server_reachable s"
  by (rule server_run_reachable [OF reach_init]) blast+

text \<open>
  C32: In every interleaving, when the server thread has ended no client is left open, and the listening
  socket has been closed if there was one, once or (see below) twice. The log and its lock are never used
  after their release as long as the launcher's wait for the thread has not timed out.
\<close>

theorem server_releases_everything:
  assumes "server_reachable s"
  shows "(sv s = SvDone c \<longrightarrow> c \<le> 4 \<and> clients s = 0 \<and>
            (if c \<in> {0, 4} then closes s \<in> {Some 1, Some 2} \<and> \<not> listening s else closes s = None)) \<and>
         (\<not> gave_up_waiting s \<longrightarrow> \<not> misused s \<and> (mn s = MnDone \<longrightarrow> server_ended (sv s)))"
proof -
  have i: "socket_inv s" "log_inv s" using media_server.reach_inv [OF assms] by simp_all
  have code: "c = 0 \<or> c = 1 \<or> c = 2 \<or> c = 3 \<or> c = 4" if "sv s = SvDone c"
    using i(1) that by (auto simp: socket_inv_def)
  have "closes s \<in> {Some 1, Some 2} \<and> \<not> listening s" if sv: "sv s = SvDone c" "c \<in> {0, 4}"
  proof -
    have "closes s \<noteq> None" "closes s \<noteq> Some 0" "\<not> listening s" "closed_by s \<le> 2"
      using i(1) sv by (auto simp: socket_inv_def closed_by_def)
    moreover have "n \<le> closed_by s" if "closes s = Some n" for n using i(1) that by (simp add: socket_inv_def)
    ultimately show ?thesis by (cases "closes s") (fastforce dest: le_trans)+
  qed
  moreover have "closes s = None" if "sv s = SvDone c" "c \<notin> {0, 4}"
    using i(1) that code by (auto simp: socket_inv_def)
  moreover have "clients s = 0" if "sv s = SvDone c" using i(2) that by (simp add: log_inv_def)
  moreover have "misused s \<longrightarrow> gave_up_waiting s" "mn s = MnDone \<longrightarrow> gave_up_waiting s \<or> server_ended (sv s)"
    using i(2) by (auto simp: log_inv_def)
  ultimately show ?thesis using code by auto
qed

text \<open>An ordinary session: the server serves one client, the launcher stops it while it waits for the next.\<close>

definition serve_and_stop :: "(bool \<times> bool) list" where
  "serve_and_stop = replicate 9 (True, True) @ [(True, True), (True, True)] @ replicate 4 (False, False) @
     [(True, False), (True, True)] @ replicate 3 (False, False)"

theorem server_releases_everything_witness:
  "\<exists>s. server_run serve_and_stop (start_media_server True True) = Some s \<and> sv s = SvDone 0 \<and>
     closes s \<in> {Some 1, Some 2} \<and> mn s = MnDone \<and> \<not> misused s"
proof -
  obtain s where s: "server_run serve_and_stop (start_media_server True True) = Some s"
    "sv s = SvDone 0" "mn s = MnDone" "\<not> gave_up_waiting s"
    by (simp add: serve_and_stop_def start_media_server_def close_listener_def numeral_eq_Suc)
  from server_releases_everything [OF server_run_start [OF s(1)]] s show ?thesis by auto
qed

text \<open>
  The launcher closes the listening socket to end the server's \<open>accept\<close>, and clears the shared
  variable afterwards. A server thread that comes back in between closes the same socket again; by then the
  number may stand for another socket.
\<close>

theorem server_socket_closed_twice:
  "\<exists>s. server_reachable s \<and> sv s = SvExitClear \<and> mn s = MnClear \<and> closes s = Some 2"
proof -
  obtain s where "server_run (replicate 5 (True, True) @ replicate 3 (False, False) @ replicate 3 (True, True))
      (start_media_server True True) = Some s" "sv s = SvExitClear" "mn s = MnClear" "closes s = Some 2"
    by (simp add: start_media_server_def close_listener_def numeral_eq_Suc)
  then show ?thesis using server_run_start by blast
qed

text \<open>
  A client that keeps its connection open for longer than the launcher waits makes it release the log
  and the lock under the server thread, which then enters a deleted critical section.
\<close>

theorem server_log_used_after_release:
  "\<exists>s. server_reachable s \<and> misused s \<and> gave_up_waiting s \<and> \<not> g_media_lock_ready s"
proof -
  obtain s where "server_run (replicate 8 (True, True) @ replicate 7 (False, True) @ [(True, True)])
      (start_media_server True True) = Some s" "misused s" "gave_up_waiting s" "\<not> g_media_lock_ready s"
    by (simp add: start_media_server_def close_listener_def numeral_eq_Suc)
  then show ?thesis using server_run_start by blast
qed

end
