(* ===== verification/Launcher_Main.thy ===== *)
theory Launcher_Main
  imports Launcher_Files Launcher_Log
begin

text \<open>
  The diagnostics launcher itself (\<open>diagnostics/supermium_w2k_rc1_launcher.c\<close>): its paths, its
  command line, the two ways to start the browser and \<open>WinMain\<close>. What the system and the user
  answer is a \<open>launch_world\<close>; what the program does is the list of its effects in order. What
  the effects write to the disk is in the theory of the sessions; the texts of the message boxes are not
  modelled.
\<close>

section \<open>Paths\<close>

definition path_sep :: "char \<Rightarrow> bool" where
  "path_sep c \<longleftrightarrow> c = CHR 0x5C \<or> c = CHR ''/''"

abbreviation QUOTE :: char where
  "QUOTE \<equiv> CHR 0x22"

record launcher_paths =
  g_base_dir :: string
  g_diagnostics_dir :: string
  g_log_root :: string

text \<open>The module's path is what \<open>GetModuleFileNameA\<close> gave, if anything.\<close>

definition initialize_paths :: "string option \<Rightarrow> launcher_paths" where
  "initialize_paths module_file =
     (let module_path = (case module_file of
            Some p \<Rightarrow> if p = [] \<or> length p \<ge> MAX_PATH then ''.'' @ CHR 0x5C # ''Supermium W2K RC1.exe'' else p
          | None \<Rightarrow> ''.'' @ CHR 0x5C # ''Supermium W2K RC1.exe'');
          upto_slash = rev (dropWhile (\<lambda>c. \<not> path_sep c) (rev module_path));
          module_path = (if upto_slash \<noteq> [] then butlast upto_slash else ''.'');
          base = copy_string [] MAX_PATH (Some module_path) in
        \<lparr>g_base_dir = base,
         g_diagnostics_dir = snd (join_path MAX_PATH base ''Diagnostics''),
         g_log_root = snd (join_path MAX_PATH base ''Diagnostic Logs'')\<rparr>)"

section \<open>The command line\<close>

definition skip_first_argument :: "string \<Rightarrow> string" where
  "skip_first_argument command_line =
     (let cursor = dropWhile is_space command_line;
          cursor =
            (if char_at cursor 0 = QUOTE then
               (let cursor = dropWhile (\<lambda>c. c \<noteq> QUOTE) (drop 1 cursor) in
                  if char_at cursor 0 = QUOTE then drop 1 cursor else cursor)
             else dropWhile (\<lambda>c. \<not> is_space c) cursor) in
        dropWhile is_space cursor)"

datatype launch_mode =
    SelfTest string | Review | Disclosure | ReportingGuide | Diagnostics string | Plain string

definition launcher_mode :: "string \<Rightarrow> launch_mode" where
  "launcher_mode forwarded =
     (if ci_starts_with forwarded ''--diagnostics-self-test='' then
        (let path = drop (length ''--diagnostics-self-test='') forwarded in
           if char_at path 0 = QUOTE
           then SelfTest (take (MAX_PATH - 1) (takeWhile (\<lambda>c. c \<noteq> QUOTE) (drop 1 path)))
           else SelfTest path)
      else if ci_starts_with forwarded ''--diagnostics-review'' then Review
      else if ci_starts_with forwarded ''--diagnostics-disclosure'' then Disclosure
      else if ci_starts_with forwarded ''--diagnostics-reporting-guide'' then ReportingGuide
      else if ci_starts_with forwarded ''--diagnostics'' \<and>
        (char_at forwarded (length ''--diagnostics'') = NUL \<or>
         is_space (char_at forwarded (length ''--diagnostics'')))
      then Diagnostics (skip_first_argument forwarded)
      else Plain forwarded)"

text \<open>The two command lines of the browser, cut by \<open>_snprintf\<close> at the capacity allocated.\<close>

definition plain_command :: "string \<Rightarrow> string \<Rightarrow> string" where
  "plain_command chrome forwarded =
     (let capacity = length chrome + length forwarded + 16 in
        take (capacity - 1) (QUOTE # chrome @ QUOTE # '' '' @ forwarded))"

definition diagnostic_switches :: string where
  "diagnostic_switches = '' --enable-logging=stderr --log-level=0 '' @
     ''--vmodule=media*=2,audio*=2,video*=2,webaudio*=1,gpu*=1,sandbox*=1,crash*=1 '' @
     ''--no-first-run --disable-sync ''"

definition diagnostic_text :: "string \<Rightarrow> string \<Rightarrow> string \<Rightarrow> string \<Rightarrow> string" where
  "diagnostic_text chrome extension private_profile forwarded =
     QUOTE # chrome @ QUOTE # '' '' @ forwarded @ diagnostic_switches @
     QUOTE # ''--user-data-dir='' @ private_profile @ QUOTE # '' '' @
     QUOTE # ''--load-extension='' @ extension @ [QUOTE]"

definition diagnostic_command :: "string \<Rightarrow> string \<Rightarrow> string \<Rightarrow> string \<Rightarrow> string" where
  "diagnostic_command chrome extension private_profile forwarded =
     (let capacity = length chrome + length extension + length private_profile + length forwarded + 768 in
        take (capacity - 1) (diagnostic_text chrome extension private_profile forwarded))"

lemma plain_command_fits: "plain_command chrome forwarded = QUOTE # chrome @ QUOTE # '' '' @ forwarded"
  by (simp add: plain_command_def Let_def)

lemma diagnostic_command_fits:
  "diagnostic_command chrome extension private_profile forwarded =
     diagnostic_text chrome extension private_profile forwarded"
  unfolding diagnostic_command_def Let_def
  by (rule take_all) (simp add: diagnostic_text_def diagnostic_switches_def)

section \<open>Sessions\<close>

datatype launch_resource = ReadPipe | WritePipe | ProcessHandle | ThreadHandle | ReaderThread

datatype launch_effect =
    Message | SessionCreated | SummaryStarted | SystemCollected | ServerStarted | ServerStopped
  | ProfileMade string | ProfileRemoved string | CommandAllocated | CommandFreed
  | Acquired launch_resource | Released launch_resource | PipeHandedOver | BrowserRun string bool | Waited
  | SummaryEnded u32 bool | Opened string | TestOutput string string

record launch_world =
  module_file :: "string option"
  command_line :: string
  names :: sensitive_names
  confirmed :: bool
  process_id :: nat
  session_made :: bool
  profile_made :: bool
  heap_answers :: bool
  pipe_made :: bool
  process_made :: bool
  reader_made :: bool
  removed :: bool
  browser_exit :: u32
  review_wanted :: bool
  test_written :: bool

definition launch_browser_disabled ::
    "launch_world \<Rightarrow> launcher_paths \<Rightarrow> string \<Rightarrow> u32 \<times> launch_effect list" where
  "launch_browser_disabled w paths forwarded =
     (let chrome = snd (join_path MAX_PATH (g_base_dir paths) ''chrome.exe'') in
        if \<not> heap_answers w then (1, [])
        else if \<not> process_made w then (2, [CommandAllocated, Message, CommandFreed])
        else (0, [CommandAllocated, BrowserRun (plain_command chrome forwarded) False,
          Acquired ThreadHandle, Acquired ProcessHandle,
          Released ThreadHandle, Released ProcessHandle, CommandFreed]))"

definition private_profile :: "launch_world \<Rightarrow> launcher_paths \<Rightarrow> string" where
  "private_profile w paths =
     snd (join_path MAX_PATH (g_diagnostics_dir paths)
       (take 95 (''Private Temporary Profile-'' @ decimal (process_id w))))"

text \<open>
  The diagnostic session, with every early return. Each failing branch stops the server, removes
  the profile and ends the summary.
\<close>

definition give_up :: "launch_world \<Rightarrow> string \<Rightarrow> u32 \<Rightarrow> launch_effect list" where
  "give_up w profile code_shown = [ServerStopped, ProfileRemoved profile, SummaryEnded code_shown (removed w)]"

definition launch_browser_diagnostics ::
    "launch_world \<Rightarrow> launcher_paths \<Rightarrow> string \<Rightarrow> u32 \<times> launch_effect list" where
  "launch_browser_diagnostics w paths forwarded =
     (if \<not> session_made w then
        (let (result, effects) = launch_browser_disabled w paths forwarded in
           (result, Message # effects))
      else
        let chrome = snd (join_path MAX_PATH (g_base_dir paths) ''chrome.exe'');
            extension = snd (join_path MAX_PATH (g_diagnostics_dir paths) ''YouTube Extension'');
            profile = private_profile w paths;
            start = [SessionCreated, SummaryStarted, SystemCollected, ServerStarted, ProfileMade profile] in
          if \<not> profile_made w then (4, start @ [Message] @ give_up w profile 1)
          else if \<not> heap_answers w then (1, start @ give_up w profile 1)
          else if \<not> pipe_made w then
            (2, start @ [CommandAllocated, CommandFreed] @ give_up w profile 2)
          else if \<not> process_made w then
            (3, start @ [CommandAllocated, Acquired ReadPipe, Acquired WritePipe,
               Released ReadPipe, Released WritePipe, CommandFreed] @ give_up w profile 3 @ [Message])
          else
            (browser_exit w, start @ [CommandAllocated, Acquired ReadPipe, Acquired WritePipe,
               BrowserRun (diagnostic_command chrome extension profile forwarded) True,
               Acquired ThreadHandle, Acquired ProcessHandle, Released WritePipe] @
               (if reader_made w then [Acquired ReaderThread, PipeHandedOver] else []) @
               [Released ThreadHandle, Waited, Released ProcessHandle] @
               (if reader_made w then [Released ReaderThread] else [Released ReadPipe]) @
               give_up w profile (browser_exit w) @ [CommandFreed, Message] @
               (if review_wanted w then [Opened ''explorer.exe''] else [])))"

definition self_test_input :: "sensitive_names \<Rightarrow> string" where
  "self_test_input n =
     take 2047 (''username='' @ g_username n @ CRLF @ ''computername='' @ g_computer_name n @ CRLF @
       ''path=C:'' @ CHR 0x5C # ''Users'' @ CHR 0x5C # g_username n @ CHR 0x5C # ''Private File.txt'' @ CRLF @
       ''url=https://www.youtube.com/watch?v=private-id'' @ CRLF @
       ''email= tester@example.com'' @ CRLF @ ''ip=192.168.1.25'' @ CRLF @
       ''computer_token=['' @ g_computer_name n @ '']'' @ CRLF @
       ''user_token=['' @ g_username n @ '']'' @ CRLF @ ''safe=URL,media-stalled'')"

definition run_sanitizer_self_test ::
    "launch_world \<Rightarrow> string \<Rightarrow> u32 \<times> launch_effect list" where
  "run_sanitizer_self_test w output_path =
     (let n = names w; out = sanitize_text n (self_test_input n) 4096 in
        if \<not> test_written w then (2, [])
        else if \<not> mentions out ''username=<redacted>'' \<or> \<not> mentions out ''computername=<redacted>'' \<or>
          \<not> mentions out ''path=<local-path-redacted>'' \<or> \<not> mentions out ''url=<web-url-redacted>'' \<or>
          \<not> mentions out ''email= <email-redacted>'' \<or> \<not> mentions out ''ip=<ip-address-redacted>'' \<or>
          \<not> mentions out ''safe=URL,media-stalled'' \<or>
          (g_computer_name n \<noteq> [] \<and> \<not> mentions out ''computer_token=[<computer-name-redacted>]'') \<or>
          (g_username n \<noteq> [] \<and> \<not> mentions out ''user_token=[<username-redacted>]'') \<or>
          mentions out ''youtube.com/watch'' \<or> mentions out ''example.com'' \<or>
          mentions out ''192.168.1.25'' \<or> mentions out ''Private File''
        then (3, [TestOutput output_path out]) else (0, [TestOutput output_path out]))"

definition WinMain :: "launch_world \<Rightarrow> u32 \<times> launch_effect list" where
  "WinMain w =
     (let paths = initialize_paths (module_file w);
          forwarded = skip_first_argument (command_line w) in
        case launcher_mode forwarded of
          SelfTest path \<Rightarrow> run_sanitizer_self_test w path
        | Review \<Rightarrow> (0, [Opened ''explorer.exe''])
        | Disclosure \<Rightarrow> (0, [Opened ''notepad.exe''])
        | ReportingGuide \<Rightarrow> (0, [Opened ''notepad.exe''])
        | Diagnostics arguments \<Rightarrow>
            if \<not> confirmed w then (0, [Message])
            else (let (result, effects) = launch_browser_diagnostics w paths arguments in
              (result, Message # effects))
        | Plain arguments \<Rightarrow> launch_browser_disabled w paths arguments)"

section \<open>Consent and cleaning up\<close>

definition collects :: "launch_effect \<Rightarrow> bool" where
  "collects e \<longleftrightarrow>
     (case e of
        SessionCreated \<Rightarrow> True | SummaryStarted \<Rightarrow> True | SystemCollected \<Rightarrow> True
      | ServerStarted \<Rightarrow> True | ServerStopped \<Rightarrow> True | SummaryEnded _ _ \<Rightarrow> True
      | ProfileMade _ \<Rightarrow> True | ProfileRemoved _ \<Rightarrow> True | PipeHandedOver \<Rightarrow> True
      | BrowserRun _ captured \<Rightarrow> captured | _ \<Rightarrow> False)"

lemma disabled_collects_nothing:
  "e \<in> set (snd (launch_browser_disabled w paths forwarded)) \<Longrightarrow> \<not> collects e"
  by (auto simp: launch_browser_disabled_def collects_def Let_def split: if_splits)

lemma no_session_collects_nothing:
  assumes "e \<in> set (snd (launch_browser_diagnostics w paths forwarded))" and "collects e"
  shows "session_made w"
proof (rule ccontr)
  assume "\<not> session_made w"
  then have "snd (launch_browser_diagnostics w paths forwarded) =
      Message # snd (launch_browser_disabled w paths forwarded)"
    by (simp add: launch_browser_diagnostics_def case_prod_beta)
  then have "e = Message \<or> e \<in> set (snd (launch_browser_disabled w paths forwarded))"
    using assms(1) by simp
  then show False using disabled_collects_nothing assms(2) by (auto simp: collects_def)
qed

text \<open>What is balanced in a list of effects, and what comes before what.\<close>

definition balanced :: "launch_effect list \<Rightarrow> bool" where
  "balanced es \<longleftrightarrow>
     (\<forall>r \<in> {WritePipe, ProcessHandle, ThreadHandle, ReaderThread}.
        count_list es (Acquired r) = count_list es (Released r)) \<and>
     count_list es (Acquired ReadPipe) =
       count_list es (Released ReadPipe) + count_list es PipeHandedOver \<and>
     count_list es CommandAllocated = count_list es CommandFreed \<and>
     count_list es ServerStarted = count_list es ServerStopped"

definition before :: "'e \<Rightarrow> 'e \<Rightarrow> 'e list \<Rightarrow> bool" where
  "before a b es \<longleftrightarrow> b \<in> set (dropWhile (\<lambda>e. e \<noteq> a) es)"

lemma balanced_simps:
  "count_list (xs @ ys) e = count_list xs e + count_list ys e"
  by simp

lemma disabled_balanced: "balanced (snd (launch_browser_disabled w paths forwarded))"
  by (simp add: launch_browser_disabled_def balanced_def Let_def)

lemma diagnostics_balanced: "balanced (snd (launch_browser_diagnostics w paths forwarded))"
proof (cases "session_made w")
  case False
  then show ?thesis using disabled_balanced [of w paths forwarded]
    by (simp add: launch_browser_diagnostics_def case_prod_beta balanced_def)
next
  case True
  then show ?thesis
    by (simp add: launch_browser_diagnostics_def balanced_def Let_def give_up_def)
qed

lemma session_order:
  assumes "session_made w"
  shows "before (ProfileMade (private_profile w paths)) (ProfileRemoved (private_profile w paths))
      (snd (launch_browser_diagnostics w paths forwarded))"
    "before ServerStopped (ProfileRemoved (private_profile w paths))
      (snd (launch_browser_diagnostics w paths forwarded))"
    "\<exists>result. SummaryEnded result (removed w) \<in> set (snd (launch_browser_diagnostics w paths forwarded))"
    "Waited \<in> set (snd (launch_browser_diagnostics w paths forwarded)) \<Longrightarrow>
      before (Released WritePipe) Waited (snd (launch_browser_diagnostics w paths forwarded))"
    "ProfileMade p \<in> set (snd (launch_browser_diagnostics w paths forwarded)) \<or>
      ProfileRemoved p \<in> set (snd (launch_browser_diagnostics w paths forwarded)) \<Longrightarrow>
      p = private_profile w paths"
  using assms
  by (auto simp: launch_browser_diagnostics_def before_def Let_def give_up_def split: if_splits)

text \<open>Joining never leaves the directory joined to.\<close>

lemma join_path_prefix:
  assumes "length left < capacity"
  shows "prefix left (snd (join_path capacity left right))"
proof -
  have "prefix left (joined left right)" by (simp add: joined_def)
  then obtain t where t: "joined left right = left @ t" by (rule prefixE)
  have "take (capacity - 1) (left @ t) = left @ take (capacity - 1 - length left) t"
    using assms by simp
  then show ?thesis using assms by (simp add: join_path_short t)
qed

lemma diagnostics_dir_length: "length (g_diagnostics_dir (initialize_paths m)) < MAX_PATH"
  unfolding initialize_paths_def Let_def by (simp add: join_path_length)

lemma WinMain_collects:
  assumes "e \<in> set (snd (WinMain w))" and "collects e"
  shows "confirmed w \<and> session_made w \<and>
    (\<exists>arguments. launcher_mode (skip_first_argument (command_line w)) = Diagnostics arguments)"
  using assms disabled_collects_nothing no_session_collects_nothing
  by (fastforce simp: WinMain_def Let_def case_prod_beta collects_def run_sanitizer_self_test_def
      split: launch_mode.splits if_splits)

definition sample_launch :: launch_world where
  "sample_launch = \<lparr>module_file = None, command_line = ''x.exe --diagnostics'',
     names = \<lparr>g_username = ''ann'', g_computer_name = ''PC7''\<rparr>, confirmed = True, process_id = 7,
     session_made = True, profile_made = False, heap_answers = True, pipe_made = True,
     process_made = True, reader_made = True, removed = True, browser_exit = 0,
     review_wanted = False, test_written = True\<rparr>"

lemma sample_launch_effects:
  "snd (WinMain sample_launch) =
     [Message, SessionCreated, SummaryStarted, SystemCollected, ServerStarted,
      ProfileMade (private_profile sample_launch (initialize_paths None)), Message] @
     give_up sample_launch (private_profile sample_launch (initialize_paths None)) 1"
proof -
  have "launcher_mode (skip_first_argument ''x.exe --diagnostics'') = Diagnostics []" by code_simp
  then show ?thesis
    by (simp add: WinMain_def sample_launch_def launch_browser_diagnostics_def Let_def)
qed





end
