(* ===== verification/Launcher_Session.thy ===== *)
theory Launcher_Session
  imports Launcher_Main
begin

text \<open>
  What the diagnostics launcher (\<open>diagnostics/supermium_w2k_rc1_launcher.c\<close>) writes and starts:
  the folder of a session with its name, the summary, the inventory, the profile's first file and
  the helper programs. Files are a map from paths to folders and contents; every call that
  creates, opens, writes or starts something may fail, as the record of the system's answers says.
\<close>

section \<open>Numbers as text\<close>

text \<open>What \<open>_snprintf\<close> and the zero behind the buffer leave of a formatted text.\<close>

definition snprintf :: "nat \<Rightarrow> string \<Rightarrow> string" where
  "snprintf capacity formatted = take (capacity - 1) formatted"

text \<open>The format \<open>%0ku\<close>, and \<open>%d\<close> of a 32-bit integer.\<close>

definition padded :: "nat \<Rightarrow> nat \<Rightarrow> string" where
  "padded k n = replicate (k - length (decimal n)) CHR ''0'' @ decimal n"

definition signed_decimal :: "u32 \<Rightarrow> string" where
  "signed_decimal w =
     (if sint w < 0 then CHR ''-'' # decimal (nat (- sint w)) else decimal (nat (sint w)))"

lemma snprintf_fits [simp]: "length s < capacity \<Longrightarrow> snprintf capacity s = s"
  by (simp add: snprintf_def)

lemma length_signed_decimal: "length (signed_decimal w) \<le> 11"
proof -
  have "nat (sint w) < 10 ^ 10" "nat (- sint w) < 10 ^ 10"
    using sint_range_size [of w] by (auto simp: word_size)
  then have "length (decimal (nat (sint w))) \<le> 10" "length (decimal (nat (- sint w))) \<le> 10"
    by (auto intro!: length_decimal)
  then show ?thesis by (simp add: signed_decimal_def)
qed

lemma dec_value_zeros: "dec_value (replicate k CHR ''0'' @ s) = dec_value s"
proof -
  have "dec_value_from 0 (replicate k CHR ''0'') = 0"
    by (induction k) (simp_all add: digit_value_def code_def)
  then show ?thesis by (simp add: dec_value_def dec_value_from_append)
qed

lemma dec_value_padded [simp]: "dec_value (padded k n) = n"
  by (simp add: padded_def dec_value_zeros)

lemma padded_inject [simp]: "padded k m = padded k n \<longleftrightarrow> m = n"
  by (metis dec_value_padded)

lemma length_padded: "n < 10 ^ k \<Longrightarrow> 0 < k \<Longrightarrow> length (padded k n) = k"
  using length_decimal [of n k] by (simp add: padded_def)

lemma length_padded_u16: "k \<le> 5 \<Longrightarrow> length (padded k (unat (w :: u16))) \<le> 5"
  using length_decimal_u16 [of w] by (simp add: padded_def)

section \<open>Time\<close>

record systemtime =
  wYear :: u16
  wMonth :: u16
  wDay :: u16
  wHour :: u16
  wMinute :: u16
  wSecond :: u16

definition utc_text :: "systemtime \<Rightarrow> string" where
  "utc_text t =
     padded 4 (unat (wYear t)) @ ''-'' @ padded 2 (unat (wMonth t)) @ ''-'' @ padded 2 (unat (wDay t)) @
     ''T'' @ padded 2 (unat (wHour t)) @ '':'' @ padded 2 (unat (wMinute t)) @ '':'' @
     padded 2 (unat (wSecond t)) @ ''Z''"

definition utc_timestamp :: "systemtime \<Rightarrow> nat \<Rightarrow> string" where
  "utc_timestamp t capacity = snprintf capacity (utc_text t)"

lemma length_utc_text: "length (utc_text t) \<le> 36"
proof -
  have "length (padded 4 (unat (wYear t))) \<le> 5" "length (padded 2 (unat (wMonth t))) \<le> 5"
    "length (padded 2 (unat (wDay t))) \<le> 5" "length (padded 2 (unat (wHour t))) \<le> 5"
    "length (padded 2 (unat (wMinute t))) \<le> 5" "length (padded 2 (unat (wSecond t))) \<le> 5"
    by (rule length_padded_u16; simp)+
  then show ?thesis by (simp add: utc_text_def)
qed

lemma utc_timestamp_64 [simp]: "utc_timestamp t 64 = utc_text t"
  using length_utc_text [of t] by (simp add: utc_timestamp_def)

text \<open>The ranges the system keeps the fields of a time in.\<close>

definition valid_time :: "systemtime \<Rightarrow> bool" where
  "valid_time t \<longleftrightarrow> wYear t < 10000 \<and> wMonth t \<le> 12 \<and> wDay t \<le> 31 \<and> wHour t < 24 \<and>
     wMinute t < 60 \<and> wSecond t < 60"

lemma valid_time_widths:
  assumes "valid_time t"
  shows "length (padded 4 (unat (wYear t))) = 4" "length (padded 2 (unat (wMonth t))) = 2"
    "length (padded 2 (unat (wDay t))) = 2" "length (padded 2 (unat (wHour t))) = 2"
    "length (padded 2 (unat (wMinute t))) = 2" "length (padded 2 (unat (wSecond t))) = 2"
  using assms by (auto simp: valid_time_def word_less_nat_alt word_le_nat_alt intro!: length_padded)

section \<open>Files\<close>

datatype node = Folder | Content string

text \<open>
  What is on the disk, and the command lines given to \<open>CreateProcessA\<close>, with the directory each
  program starts in.
\<close>

record desk =
  nodes :: "string \<rightharpoonup> node"
  spawned :: "(string \<times> string) list"

text \<open>
  The system: the folders it makes, the files it opens for writing, how it answers when a text is
  written to a file, the programs it starts, and what the hardware collector leaves.
\<close>

record desk_env =
  makes :: "string \<Rightarrow> bool"
  opens :: "string \<Rightarrow> bool"
  writes :: "string \<Rightarrow> string \<Rightarrow> nat option list"
  spawns :: "string \<Rightarrow> bool"
  collected :: "string option"

definition ensure_directory :: "desk_env \<Rightarrow> string \<Rightarrow> desk \<Rightarrow> bool \<times> desk" where
  "ensure_directory env path d =
     (case nodes d path of
        Some Folder \<Rightarrow> (True, d)
      | Some (Content _) \<Rightarrow> (False, d)
      | None \<Rightarrow> if makes env path then (True, d\<lparr>nodes := (nodes d)(path \<mapsto> Folder)\<rparr>) else (False, d))"

text \<open>Opening a file for writing fails on a folder.\<close>

definition can_open :: "desk_env \<Rightarrow> string \<Rightarrow> desk \<Rightarrow> bool" where
  "can_open env path d \<longleftrightarrow> opens env path \<and> nodes d path \<noteq> Some Folder"

text \<open>A file created afresh with \<open>CREATE_ALWAYS\<close>, so much of a text as the system writes, closed.\<close>

definition write_text_file :: "desk_env \<Rightarrow> string \<Rightarrow> string \<Rightarrow> desk \<Rightarrow> bool \<times> desk" where
  "write_text_file env path content d =
     (if \<not> can_open env path d then (False, d)
      else
        let (ok, written, _) = write_all (writes env path content) content in
          (ok, d\<lparr>nodes := (nodes d)(path \<mapsto> Content written)\<rparr>))"

definition append_text_file :: "desk_env \<Rightarrow> string \<Rightarrow> string \<Rightarrow> desk \<Rightarrow> desk" where
  "append_text_file env path content d =
     (if \<not> can_open env path d then d
      else
        let old = (case nodes d path of Some (Content c) \<Rightarrow> c | _ \<Rightarrow> []);
            (ok, written, _) = write_all (writes env path content) content in
          d\<lparr>nodes := (nodes d)(path \<mapsto> Content (old @ written))\<rparr>)"

definition write_neutral_uao :: "desk_env \<Rightarrow> string \<Rightarrow> desk \<Rightarrow> bool \<times> desk" where
  "write_neutral_uao env profile_path d =
     (let content = replicate 31 CHR '';'' @ [NUL]; (made, d) = ensure_directory env profile_path d in
        if \<not> made then (False, d)
        else
          let (fits, path) = join_path MAX_PATH profile_path ''uao'' in
            if \<not> fits then (False, d)
            else if \<not> can_open env path d then (False, d)
            else
              let (ok, written, _) = write_all (writes env path content) content in
                (ok, d\<lparr>nodes := (nodes d)(path \<mapsto> Content written)\<rparr>))"

text \<open>\<open>CopyFileA\<close>, replacing an existing file.\<close>

definition copy_file :: "desk_env \<Rightarrow> string \<Rightarrow> string \<Rightarrow> desk \<Rightarrow> desk" where
  "copy_file env source destination d =
     (case nodes d source of
        Some (Content c) \<Rightarrow>
          if can_open env destination d then d\<lparr>nodes := (nodes d)(destination \<mapsto> Content c)\<rparr> else d
      | _ \<Rightarrow> d)"

section \<open>Helper programs\<close>

definition spawn_simple_process :: "desk_env \<Rightarrow> launcher_paths \<Rightarrow> string \<Rightarrow> string \<Rightarrow> desk \<Rightarrow> desk" where
  "spawn_simple_process env paths application argument d =
     (let command = snprintf (2 * MAX_PATH + 64)
            (QUOTE # application @ QUOTE # '' '' @ QUOTE # argument @ [QUOTE]) in
        if spawns env command then d\<lparr>spawned := spawned d @ [(command, g_base_dir paths)]\<rparr> else d)"

definition open_disclosure :: "desk_env \<Rightarrow> launcher_paths \<Rightarrow> desk \<Rightarrow> desk" where
  "open_disclosure env paths d =
     spawn_simple_process env paths ''notepad.exe''
       (snd (join_path MAX_PATH (g_diagnostics_dir paths) ''COLLECTED-DATA.txt'')) d"

definition open_reporting_guide :: "desk_env \<Rightarrow> launcher_paths \<Rightarrow> desk \<Rightarrow> desk" where
  "open_reporting_guide env paths d =
     spawn_simple_process env paths ''notepad.exe''
       (snd (join_path MAX_PATH (g_diagnostics_dir paths) ''TESTING-AND-REPORTING.txt'')) d"

definition open_log_folder :: "desk_env \<Rightarrow> launcher_paths \<Rightarrow> desk \<Rightarrow> desk" where
  "open_log_folder env paths d =
     (let (_, d) = ensure_directory env (g_log_root paths) d in
        spawn_simple_process env paths ''explorer.exe'' (g_log_root paths) d)"

text \<open>
  What the launcher knows of the user, to keep it out of the logs: a name that the system does
  not give, or that its buffer cannot hold, is empty.
\<close>

definition get_environment :: "string option \<Rightarrow> nat \<Rightarrow> nat \<times> string" where
  "get_environment variable capacity =
     (case variable of
        None \<Rightarrow> (0, [])
      | Some v \<Rightarrow> if length v < capacity then (length v, v) else (length v + 1, []))"

definition load_sensitive_values :: "string option \<Rightarrow> string option \<Rightarrow> sensitive_names" where
  "load_sensitive_values user_variable computer =
     (let (len, user) = get_environment user_variable 256 in
        \<lparr>g_username = (if len = 0 \<or> len \<ge> 256 then [] else user),
         g_computer_name = (case computer of None \<Rightarrow> [] | Some name \<Rightarrow> name)\<rparr>)"

section \<open>The folder of a session\<close>

record session_paths =
  g_session_dir :: string
  g_browser_log_path :: string
  g_media_log_path :: string

definition session_name_text :: "systemtime \<Rightarrow> u32 \<Rightarrow> string" where
  "session_name_text t pid =
     padded 4 (unat (wYear t)) @ padded 2 (unat (wMonth t)) @ padded 2 (unat (wDay t)) @ ''-'' @
     padded 2 (unat (wHour t)) @ padded 2 (unat (wMinute t)) @ padded 2 (unat (wSecond t)) @
     ''Z-'' @ decimal (unat pid)"

definition session_name :: "systemtime \<Rightarrow> u32 \<Rightarrow> string" where
  "session_name t pid = snprintf 96 (session_name_text t pid)"

definition create_session_directory ::
    "desk_env \<Rightarrow> launcher_paths \<Rightarrow> systemtime \<Rightarrow> u32 \<Rightarrow> desk \<Rightarrow> bool \<times> session_paths \<times> desk" where
  "create_session_directory env paths t pid d =
     (let none = \<lparr>g_session_dir = [], g_browser_log_path = [], g_media_log_path = []\<rparr>;
          (made, d) = ensure_directory env (g_log_root paths) d in
        if \<not> made then (False, none, d)
        else
          let dir = snd (join_path MAX_PATH (g_log_root paths) (session_name t pid));
              (made, d) = ensure_directory env dir d in
            if \<not> made then (False, none\<lparr>g_session_dir := dir\<rparr>, d)
            else (True,
              \<lparr>g_session_dir = dir,
               g_browser_log_path = snd (join_path MAX_PATH dir ''browser-technical.log''),
               g_media_log_path = snd (join_path MAX_PATH dir ''youtube-media.jsonl'')\<rparr>, d))"

section \<open>The texts of a session\<close>

text \<open>Lines with their ends.\<close>

definition crlf_lines :: "string list \<Rightarrow> string" where
  "crlf_lines ls = concat (map (\<lambda>l. l @ CRLF) ls)"

text \<open>
  What the system tells of the computer; \<open>display\<close> holds the bits of a pixel in each plane and the
  number of planes, when there is a screen to ask.
\<close>

record machine_info =
  dwMajorVersion :: u32
  dwMinorVersion :: u32
  dwBuildNumber :: u32
  dwPlatformId :: u32
  szCSDVersion :: string
  dwNumberOfProcessors :: u32
  wProcessorArchitecture :: u16
  dwTotalPhys :: u32
  screen_width :: u32
  screen_height :: u32
  display :: "(u32 \<times> u32) option"

definition summary_start_text :: "systemtime \<Rightarrow> machine_info \<Rightarrow> string" where
  "summary_start_text t m =
     crlf_lines
       [''Supermium Windows 2000 Release Candidate 1 diagnostic session'',
        ''schema='' @ ''1'', ''build='' @ ''144.0.7559.256-R5-W2K-RC1'', ''started_utc='' @ utc_timestamp t 64,
        ''diagnostics_mode=explicitly_requested_for_this_session'', ''automatic_upload=never'',
        ''os_version='' @ decimal (unat (dwMajorVersion m)) @ ''.'' @ decimal (unat (dwMinorVersion m)) @
          ''.'' @ decimal (unat (dwBuildNumber m)),
        ''os_platform='' @ decimal (unat (dwPlatformId m)), ''os_service_pack='' @ szCSDVersion m,
        ''logical_processors='' @ decimal (unat (dwNumberOfProcessors m)),
        ''processor_architecture='' @ decimal (unat (wProcessorArchitecture m)),
        ''physical_memory_mb='' @ decimal (unat (dwTotalPhys m div (1024 * 1024))),
        ''display_width='' @ signed_decimal (screen_width m),
        ''display_height='' @ signed_decimal (screen_height m),
        ''display_color_bits='' @
          signed_decimal (case display m of None \<Rightarrow> 0 | Some (bits, planes) \<Rightarrow> bits * planes),
        ''personal_data_policy=usernames/computer-names/network-addresses/urls/account-data/history/file-content excluded'']"

definition review_text :: string where
  "review_text =
     crlf_lines
       [''REVIEW THIS FOLDER BEFORE SHARING'',
        ''================================='',
        [],
        ''All files are plain text or JSON Lines and can be opened in Notepad.'',
        ''Nothing is uploaded automatically. You choose whether to share, delete, or keep them.'',
        [],
        ''The diagnostic design excludes usernames, computer names, IP/MAC addresses, URLs,'',
        ''YouTube titles and video IDs, account information, cookies, passwords, form data,'',
        ''browsing history, bookmarks, personal file lists and personal file contents.'',
        [],
        ''Files in this session:'',
        ''- session-summary.txt: build, OS basics, resource counts, exit result'',
        ''- system-hardware.txt: non-identifying hardware and driver information'',
        ''- browser-technical.log: generated category/severity events; raw Chromium text discarded'',
        ''- youtube-media.jsonl: technical HTML media state only; never the page URL/title/ID'',
        [],
        ''Crash dumps are not collected automatically because they can contain private memory.'',
        ''Diagnostic browsing uses a separate temporary test profile outside this folder.'',
        ''Do not share a Private Temporary Profile folder if cleanup was incomplete.'']"

text \<open>A file of the session, and one that comes from the launcher's own folder.\<close>

abbreviation session_file :: "session_paths \<Rightarrow> string \<Rightarrow> string" where
  "session_file s name \<equiv> snd (join_path MAX_PATH (g_session_dir s) name)"

definition copy_disclosure ::
    "desk_env \<Rightarrow> launcher_paths \<Rightarrow> session_paths \<Rightarrow> string \<Rightarrow> desk \<Rightarrow> desk" where
  "copy_disclosure env paths s name d =
     copy_file env (snd (join_path MAX_PATH (g_diagnostics_dir paths) name)) (session_file s name) d"

definition write_summary_start ::
    "desk_env \<Rightarrow> launcher_paths \<Rightarrow> session_paths \<Rightarrow> systemtime \<Rightarrow> machine_info \<Rightarrow> desk \<Rightarrow> desk" where
  "write_summary_start env paths s t m d =
     (let (_, d) = write_text_file env (session_file s ''session-summary.txt'')
            (snprintf 4096 (summary_start_text t m)) d;
          (_, d) = write_text_file env (session_file s ''REVIEW-BEFORE-SHARING.txt'') review_text d;
          d = copy_disclosure env paths s ''COLLECTED-DATA.txt'' d in
        copy_disclosure env paths s ''TESTING-AND-REPORTING.txt'' d)"

definition summary_end_text :: "systemtime \<Rightarrow> u32 \<Rightarrow> u32 \<Rightarrow> bool \<Rightarrow> bool \<Rightarrow> string" where
  "summary_end_text t exit_code duration_ms server_ready cleaned =
     crlf_lines
       [''ended_utc='' @ utc_timestamp t 64,
        ''browser_exit_code='' @ decimal (unat exit_code),
        ''browser_runtime_seconds='' @ decimal (unat (duration_ms div 1000)),
        ''youtube_monitor_server='' @ (if server_ready then ''available'' else ''unavailable''),
        ''temporary_private_profile_cleanup='' @
          (if cleaned then ''complete'' else ''incomplete-see-disclosure'')]"

definition write_summary_end ::
    "desk_env \<Rightarrow> session_paths \<Rightarrow> systemtime \<Rightarrow> u32 \<Rightarrow> u32 \<Rightarrow> bool \<Rightarrow> bool \<Rightarrow> desk \<Rightarrow> desk" where
  "write_summary_end env s t exit_code duration_ms server_ready cleaned d =
     append_text_file env (session_file s ''session-summary.txt'')
       (snprintf 512 (summary_end_text t exit_code duration_ms server_ready cleaned)) d"

text \<open>
  The hardware collector: a script of the launcher's folder that is given the path to write to.
  When it cannot be started the file says so.
\<close>

definition collector_text :: "string \<Rightarrow> string \<Rightarrow> string" where
  "collector_text script out =
     ''cscript.exe //B //nologo '' @ QUOTE # script @ QUOTE # '' '' @ QUOTE # out @ [QUOTE]"

definition run_system_collector :: "desk_env \<Rightarrow> launcher_paths \<Rightarrow> session_paths \<Rightarrow> desk \<Rightarrow> desk" where
  "run_system_collector env paths s d =
     (let script = snd (join_path MAX_PATH (g_diagnostics_dir paths) ''collect-system.vbs'');
          out = session_file s ''system-hardware.txt'';
          command = snprintf (3 * MAX_PATH + 64) (collector_text script out) in
        if spawns env command then
          let d = d\<lparr>spawned := spawned d @ [(command, g_base_dir paths)]\<rparr> in
            (case collected env of
               None \<Rightarrow> d
             | Some c \<Rightarrow> d\<lparr>nodes := (nodes d)(out \<mapsto> Content c)\<rparr>)
        else snd (write_text_file env out (''system_inventory=unavailable'' @ CRLF) d))"

section \<open>Nothing is cut\<close>

lemma crlf_lines_simps [simp]:
  "crlf_lines [] = []" "crlf_lines (l # ls) = l @ CRLF @ crlf_lines ls"
  by (simp_all add: crlf_lines_def)

lemma summary_start_fits:
  assumes "length (szCSDVersion m) < 128"
  shows "length (summary_start_text t m) < 4096"
proof -
  have "length (decimal (unat (dwMajorVersion m))) \<le> 10" "length (decimal (unat (dwMinorVersion m))) \<le> 10"
    "length (decimal (unat (dwBuildNumber m))) \<le> 10" "length (decimal (unat (dwPlatformId m))) \<le> 10"
    "length (decimal (unat (dwNumberOfProcessors m))) \<le> 10"
    "length (decimal (unat (dwTotalPhys m div (1024 * 1024)))) \<le> 10"
    by (rule length_decimal_u32)+
  moreover have "length (decimal (unat (wProcessorArchitecture m))) \<le> 5" by (rule length_decimal_u16)
  moreover have "length (signed_decimal (screen_width m)) \<le> 11" "length (signed_decimal (screen_height m)) \<le> 11"
    "length (signed_decimal (case display m of None \<Rightarrow> 0 | Some (bits, planes) \<Rightarrow> bits * planes)) \<le> 11"
    by (rule length_signed_decimal)+
  ultimately show ?thesis using assms length_utc_text [of t] by (simp add: summary_start_text_def)
qed

lemma summary_end_fits: "length (summary_end_text t c ms ready gone) < 512"
  using length_utc_text [of t] length_decimal_u32 [of c] length_decimal_u32 [of "ms div 1000"]
  by (simp add: summary_end_text_def)

lemma joined_in_buffer: "length (snd (join_path MAX_PATH a b)) < MAX_PATH"
  by (rule join_path_length) simp

lemma collector_fits:
  assumes "length script < MAX_PATH" and "length out < MAX_PATH"
  shows "length (collector_text script out) < 3 * MAX_PATH + 64"
  using assms by (simp add: collector_text_def)

lemma session_name_whole [simp]: "session_name t pid = session_name_text t pid"
proof -
  have "length (padded 4 (unat (wYear t))) \<le> 5" "length (padded 2 (unat (wMonth t))) \<le> 5"
    "length (padded 2 (unat (wDay t))) \<le> 5" "length (padded 2 (unat (wHour t))) \<le> 5"
    "length (padded 2 (unat (wMinute t))) \<le> 5" "length (padded 2 (unat (wSecond t))) \<le> 5"
    by (rule length_padded_u16; simp)+
  then show ?thesis using length_decimal_u32 [of pid] by (simp add: session_name_def session_name_text_def)
qed

section \<open>Names of sessions\<close>

text \<open>Two valid times and two processes give the same name only when they are the same.\<close>

lemma session_name_inject:
  assumes "valid_time t" and "valid_time t'"
  shows "session_name_text t pid = session_name_text t' pid' \<longleftrightarrow> t = t' \<and> pid = pid'"
proof
  assume "session_name_text t pid = session_name_text t' pid'"
  then have "unat (wYear t) = unat (wYear t')" "unat (wMonth t) = unat (wMonth t')"
    "unat (wDay t) = unat (wDay t')" "unat (wHour t) = unat (wHour t')"
    "unat (wMinute t) = unat (wMinute t')" "unat (wSecond t) = unat (wSecond t')"
    "unat pid = unat pid'"
    using valid_time_widths [OF assms(1)] valid_time_widths [OF assms(2)]
    by (simp_all add: session_name_text_def)
  then show "t = t' \<and> pid = pid'" by (auto simp: word_unat_eq_iff intro!: systemtime.equality)
qed simp

section \<open>What a run of the launcher leaves on the disk\<close>

text \<open>
  The facts a session meets: the times it starts and ends at, the computer, the browser's running
  time, whether the media server came up, and what the server thread, the log reader and a failed
  removal of the profile leave.
\<close>

record session_facts =
  started_at :: systemtime
  ended_at :: systemtime
  machine :: machine_info
  duration_ms :: u32
  server_came_up :: bool
  media_records :: string
  browser_events :: string
  survives :: "string \<Rightarrow> bool"

definition in_folder :: "string \<Rightarrow> string \<Rightarrow> bool" where
  "in_folder dir p \<longleftrightarrow> p = dir \<or> prefix (dir @ [CHR 0x5C]) p"

text \<open>What an effect of \<open>launch_browser_diagnostics\<close> does to the disk.\<close>

fun effect_on_disk ::
    "desk_env \<Rightarrow> launcher_paths \<Rightarrow> session_paths \<Rightarrow> session_facts \<Rightarrow> launch_effect \<Rightarrow> desk \<Rightarrow> desk" where
  "effect_on_disk env paths s facts SummaryStarted d =
     write_summary_start env paths s (started_at facts) (machine facts) d"
| "effect_on_disk env paths s facts SystemCollected d = run_system_collector env paths s d"
| "effect_on_disk env paths s facts ServerStarted d =
     snd (write_text_file env (g_media_log_path s) (media_records facts) d)"
| "effect_on_disk env paths s facts (ProfileMade p) d = snd (write_neutral_uao env p d)"
| "effect_on_disk env paths s facts PipeHandedOver d =
     snd (write_text_file env (g_browser_log_path s) (browser_events facts) d)"
| "effect_on_disk env paths s facts (ProfileRemoved p) d =
     d\<lparr>nodes := (\<lambda>q. if in_folder p q \<and> \<not> survives facts q then None else nodes d q)\<rparr>"
| "effect_on_disk env paths s facts (SummaryEnded code_shown cleaned) d =
     write_summary_end env s (ended_at facts) code_shown (duration_ms facts) (server_came_up facts) cleaned d"
| "effect_on_disk env paths s facts (Opened program) d =
     spawn_simple_process env paths program (g_session_dir s) d"
| "effect_on_disk env paths s facts _ d = d"

text \<open>\<open>WinMain\<close> over the disk: the folder of the session is made first, then come its effects.\<close>

definition launcher_on_disk ::
    "desk_env \<Rightarrow> launch_world \<Rightarrow> session_facts \<Rightarrow> desk \<Rightarrow> desk" where
  "launcher_on_disk env w facts d =
     (let paths = initialize_paths (module_file w) in
        case launcher_mode (skip_first_argument (command_line w)) of
          SelfTest path \<Rightarrow> snd (write_text_file env path (sanitize_text (names w) (self_test_input (names w)) 4096) d)
        | Review \<Rightarrow> open_log_folder env paths d
        | Disclosure \<Rightarrow> open_disclosure env paths d
        | ReportingGuide \<Rightarrow> open_reporting_guide env paths d
        | Diagnostics arguments \<Rightarrow>
            if \<not> confirmed w then d
            else
              let (made, s, d) =
                    create_session_directory env paths (started_at facts) (of_nat (process_id w)) d in
                if \<not> made then d
                else fold (effect_on_disk env paths s facts)
                  (snd (launch_browser_diagnostics (w\<lparr>session_made := True\<rparr>) paths arguments)) d
        | Plain arguments \<Rightarrow> d)"

section \<open>Nothing is written elsewhere\<close>

definition changed :: "desk \<Rightarrow> desk \<Rightarrow> string set" where
  "changed d d' = {p. nodes d' p \<noteq> nodes d p}"

lemma changed_refl [simp]: "changed d d = {}"
  by (simp add: changed_def)

lemma changed_Un: "changed d d'' \<subseteq> changed d d' \<union> changed d' d''"
  by (auto simp: changed_def)

lemma changed_trans: "changed d d' \<subseteq> A \<Longrightarrow> changed d' d'' \<subseteq> A \<Longrightarrow> changed d d'' \<subseteq> A"
  using changed_Un [of d d'' d'] by blast

lemma changed_spawned [simp]: "changed d (d'\<lparr>spawned := x\<rparr>) = changed d d'"
  by (simp add: changed_def)

lemma changed_upd: "changed d (d\<lparr>nodes := (nodes d)(p := x)\<rparr>) \<subseteq> {p}"
  by (auto simp: changed_def)

lemma changed_ensure: "changed d (snd (ensure_directory env p d)) \<subseteq> {p}"
  using changed_upd by (auto simp: ensure_directory_def split: option.splits node.splits)

lemma changed_write: "changed d (snd (write_text_file env p c d)) \<subseteq> {p}"
  using changed_upd by (auto simp: write_text_file_def case_prod_beta Let_def)

lemma changed_append: "changed d (append_text_file env p c d) \<subseteq> {p}"
  using changed_upd by (auto simp: append_text_file_def case_prod_beta Let_def)

lemma changed_copy: "changed d (copy_file env p q d) \<subseteq> {q}"
  using changed_upd by (auto simp: copy_file_def split: option.splits node.splits)

lemma changed_spawn [simp]: "changed d (spawn_simple_process env paths a b d) = {}"
  by (simp add: spawn_simple_process_def Let_def)

lemma changed_uao: "changed d (snd (write_neutral_uao env p d)) \<subseteq> {p, snd (join_path MAX_PATH p ''uao'')}"
proof -
  define d1 where "d1 = snd (ensure_directory env p d)"
  have "changed d d1 \<subseteq> {p}" unfolding d1_def by (rule changed_ensure)
  moreover have "snd (write_neutral_uao env p d) = d1 \<or>
      (\<exists>x. snd (write_neutral_uao env p d) = d1\<lparr>nodes := (nodes d1)(snd (join_path MAX_PATH p ''uao'') := x)\<rparr>)"
    by (auto simp: write_neutral_uao_def d1_def case_prod_beta Let_def)
  ultimately show ?thesis by (auto simp: changed_def split: if_splits)
qed

lemma changed_summary_start:
  "changed d (write_summary_start env paths s t m d) \<subseteq>
     session_file s ` {''session-summary.txt'', ''REVIEW-BEFORE-SHARING.txt'', ''COLLECTED-DATA.txt'',
       ''TESTING-AND-REPORTING.txt''}" (is "_ \<subseteq> ?A")
proof -
  define d1 where "d1 = snd (write_text_file env (session_file s ''session-summary.txt'')
    (snprintf 4096 (summary_start_text t m)) d)"
  define d2 where "d2 = snd (write_text_file env (session_file s ''REVIEW-BEFORE-SHARING.txt'') review_text d1)"
  define d3 where "d3 = copy_disclosure env paths s ''COLLECTED-DATA.txt'' d2"
  define d4 where "d4 = copy_disclosure env paths s ''TESTING-AND-REPORTING.txt'' d3"
  have "changed d d1 \<subseteq> ?A" unfolding d1_def by (rule order_trans [OF changed_write]) simp
  moreover have "changed d1 d2 \<subseteq> ?A" unfolding d2_def by (rule order_trans [OF changed_write]) simp
  moreover have "changed d2 d3 \<subseteq> ?A" unfolding d3_def copy_disclosure_def
    by (rule order_trans [OF changed_copy]) simp
  moreover have "changed d3 d4 \<subseteq> ?A" unfolding d4_def copy_disclosure_def
    by (rule order_trans [OF changed_copy]) simp
  ultimately have "changed d d4 \<subseteq> ?A" by (rule changed_trans [OF changed_trans [OF changed_trans]])
  then show ?thesis
    by (simp add: write_summary_start_def case_prod_beta Let_def d1_def d2_def d3_def d4_def)
qed

lemma changed_collector:
  "changed d (run_system_collector env paths s d) \<subseteq> {session_file s ''system-hardware.txt''}"
  using changed_write [of d env "session_file s ''system-hardware.txt''"]
  by (auto simp: run_system_collector_def Let_def changed_def split: option.splits)

text \<open>The session's paths all begin with the folder of the logs.\<close>

definition session_of :: "launcher_paths \<Rightarrow> systemtime \<Rightarrow> u32 \<Rightarrow> session_paths" where
  "session_of paths t pid =
     (let dir = snd (join_path MAX_PATH (g_log_root paths) (session_name t pid)) in
        \<lparr>g_session_dir = dir,
         g_browser_log_path = snd (join_path MAX_PATH dir ''browser-technical.log''),
         g_media_log_path = snd (join_path MAX_PATH dir ''youtube-media.jsonl'')\<rparr>)"

lemma create_session_made:
  "create_session_directory env paths t pid d = (True, s, d') \<Longrightarrow> s = session_of paths t pid"
  by (auto simp: create_session_directory_def session_of_def Let_def split: prod.splits if_splits)

lemma changed_create:
  "changed d (snd (snd (create_session_directory env paths t pid d))) \<subseteq>
     {g_log_root paths, g_session_dir (session_of paths t pid)}" (is "_ \<subseteq> ?A")
proof -
  define d1 where "d1 = snd (ensure_directory env (g_log_root paths) d)"
  define d2 where "d2 = snd (ensure_directory env (g_session_dir (session_of paths t pid)) d1)"
  have "changed d d1 \<subseteq> ?A" "changed d1 d2 \<subseteq> ?A"
    unfolding d1_def d2_def using changed_ensure by blast+
  moreover have "snd (snd (create_session_directory env paths t pid d)) \<in> {d1, d2}"
    by (auto simp: create_session_directory_def d1_def d2_def session_of_def Let_def case_prod_beta)
  ultimately show ?thesis using changed_trans [of d d1 ?A d2] by (elim insertE) simp_all
qed

text \<open>Every effect of a session stays in the folder of the logs and that of the profile.\<close>

definition log_paths :: "launcher_paths \<Rightarrow> string set" where
  "log_paths paths = {p. prefix (g_log_root paths) p}"

lemma joined_prefix:
  "length a < MAX_PATH \<Longrightarrow> prefix r a \<Longrightarrow> prefix r (snd (join_path MAX_PATH a b))"
  using join_path_prefix [of a MAX_PATH b] by (blast intro: prefix_order.trans)

lemma log_root_length: "length (g_log_root (initialize_paths m)) < MAX_PATH"
  unfolding initialize_paths_def Let_def by (simp add: joined_in_buffer)

lemma session_in_logs:
  assumes "length (g_log_root paths) < MAX_PATH"
  shows "prefix (g_log_root paths) (g_session_dir (session_of paths t pid))"
    "length (g_session_dir (session_of paths t pid)) < MAX_PATH"
    "prefix (g_log_root paths) (g_browser_log_path (session_of paths t pid))"
    "prefix (g_log_root paths) (g_media_log_path (session_of paths t pid))"
    "prefix (g_log_root paths) (session_file (session_of paths t pid) name)"
  using assms by (simp_all add: session_of_def Let_def joined_prefix joined_in_buffer)

lemma effect_contained:
  assumes "length (g_log_root paths) < MAX_PATH" and "length profile < MAX_PATH"
    and "\<And>p. e = ProfileMade p \<or> e = ProfileRemoved p \<Longrightarrow> p = profile"
  shows "changed d (effect_on_disk env paths (session_of paths t pid) facts e d) \<subseteq>
    log_paths paths \<union> {p. prefix profile p}" (is "_ \<subseteq> ?A")
proof (cases e)
  case SummaryStarted
  show ?thesis unfolding SummaryStarted effect_on_disk.simps
    by (rule order_trans [OF changed_summary_start])
      (simp add: log_paths_def session_in_logs [OF assms(1)])
next
  case SystemCollected
  show ?thesis unfolding SystemCollected effect_on_disk.simps
    by (rule order_trans [OF changed_collector])
      (simp add: log_paths_def session_in_logs [OF assms(1)])
next
  case ServerStarted
  show ?thesis unfolding ServerStarted effect_on_disk.simps
    by (rule order_trans [OF changed_write])
      (simp add: log_paths_def session_in_logs [OF assms(1)])
next
  case PipeHandedOver
  show ?thesis unfolding PipeHandedOver effect_on_disk.simps
    by (rule order_trans [OF changed_write])
      (simp add: log_paths_def session_in_logs [OF assms(1)])
next
  case (SummaryEnded c r)
  show ?thesis unfolding SummaryEnded effect_on_disk.simps write_summary_end_def
    by (rule order_trans [OF changed_append])
      (simp add: log_paths_def session_in_logs [OF assms(1)])
next
  case (ProfileMade p)
  then have "p = profile" using assms(3) by blast
  then show ?thesis unfolding ProfileMade effect_on_disk.simps
    by (intro order_trans [OF changed_uao]) (simp add: joined_prefix assms(2))
next
  case (ProfileRemoved p)
  then have "p = profile" using assms(3) by blast
  then show ?thesis unfolding ProfileRemoved
    by (auto simp: changed_def in_folder_def dest: append_prefixD split: if_splits)
qed simp_all

lemma effects_contained:
  assumes "length (g_log_root paths) < MAX_PATH" and "length profile < MAX_PATH"
    and "\<And>p. ProfileMade p \<in> set es \<or> ProfileRemoved p \<in> set es \<Longrightarrow> p = profile"
  shows "changed d (fold (effect_on_disk env paths (session_of paths t pid) facts) es d) \<subseteq>
    log_paths paths \<union> {p. prefix profile p}"
  using assms(3)
proof (induction es arbitrary: d)
  case (Cons e es)
  have "changed d (effect_on_disk env paths (session_of paths t pid) facts e d) \<subseteq>
      log_paths paths \<union> {p. prefix profile p}"
    using Cons.prems by (intro effect_contained [OF assms(1,2)]) auto
  moreover have "changed d1 (fold (effect_on_disk env paths (session_of paths t pid) facts) es d1) \<subseteq>
      log_paths paths \<union> {p. prefix profile p}" for d1
    by (rule Cons.IH) (rule Cons.prems, auto)
  ultimately show ?case using changed_trans by (simp del: Un_subset_iff)
qed simp

text \<open>The paths a run may touch, by the mode it is in.\<close>

definition allowed_paths :: "launch_world \<Rightarrow> string set" where
  "allowed_paths w =
     (let paths = initialize_paths (module_file w) in
        case launcher_mode (skip_first_argument (command_line w)) of
          SelfTest path \<Rightarrow> {path}
        | Review \<Rightarrow> {g_log_root paths}
        | Diagnostics _ \<Rightarrow>
            if confirmed w then log_paths paths \<union> {p. prefix (private_profile w paths) p} else {}
        | _ \<Rightarrow> {})"

lemma open_log_folder_changed: "changed d (open_log_folder env paths d) \<subseteq> {g_log_root paths}"
proof -
  define d1 where "d1 = snd (ensure_directory env (g_log_root paths) d)"
  have "changed d d1 \<subseteq> {g_log_root paths}" unfolding d1_def by (rule changed_ensure)
  moreover have "changed d1 (open_log_folder env paths d) \<subseteq> {}"
    by (simp add: open_log_folder_def d1_def case_prod_beta Let_def)
  ultimately show ?thesis using changed_trans by blast
qed

lemma private_profile_length: "length (private_profile w paths) < MAX_PATH"
  by (simp add: private_profile_def joined_in_buffer)

lemma run_contained: "changed d (launcher_on_disk env w facts d) \<subseteq> allowed_paths w"
proof (cases "launcher_mode (skip_first_argument (command_line w))")
  case (Diagnostics arguments)
  let ?paths = "initialize_paths (module_file w)" and ?A = "allowed_paths w"
  show ?thesis
  proof (cases "confirmed w")
    case True
    then have A: "?A = log_paths ?paths \<union> {p. prefix (private_profile w ?paths) p}"
      using Diagnostics by (simp add: allowed_paths_def Let_def)
    obtain made s d1 where c: "create_session_directory env ?paths (started_at facts) (of_nat (process_id w)) d =
        (made, s, d1)" by (metis prod_cases3)
    have "changed d d1 \<subseteq> ?A"
      using changed_create [of d env ?paths "started_at facts" "of_nat (process_id w)"] c
        session_in_logs [OF log_root_length, of "module_file w" "started_at facts" "of_nat (process_id w)"]
      by (auto simp: A log_paths_def)
    moreover have "changed d1 (fold (effect_on_disk env ?paths s facts)
        (snd (launch_browser_diagnostics (w\<lparr>session_made := True\<rparr>) ?paths arguments)) d1) \<subseteq> ?A" if made
      unfolding A create_session_made [OF c [unfolded that [THEN eqTrueI]]]
      using session_order(5) [of "w\<lparr>session_made := True\<rparr>" _ ?paths arguments]
      by (intro effects_contained log_root_length private_profile_length)
        (auto simp: private_profile_def)
    ultimately show ?thesis using changed_trans Diagnostics True c
      by (auto simp: launcher_on_disk_def Let_def)
  qed (simp add: launcher_on_disk_def Diagnostics allowed_paths_def Let_def)
next
  case (SelfTest path)
  then show ?thesis using changed_write by (simp add: launcher_on_disk_def allowed_paths_def Let_def)
next
  case Review
  then show ?thesis using open_log_folder_changed by (simp add: launcher_on_disk_def allowed_paths_def Let_def)
qed (simp_all add: launcher_on_disk_def allowed_paths_def open_disclosure_def open_reporting_guide_def Let_def)

section \<open>The summary of a session\<close>

text \<open>A system that refuses nothing, and a session whose paths fit their buffers.\<close>

definition willing :: "desk_env \<Rightarrow> bool" where
  "willing env \<longleftrightarrow> (\<forall>p. makes env p \<and> opens env p) \<and> (\<forall>p c. fst (write_all (writes env p c) c))"

lemma willing_writes:
  "willing env \<Longrightarrow> fst (write_all (writes env p c) c) \<and> fst (snd (write_all (writes env p c) c)) = c"
  using write_all_complete [of "writes env p c" c] by (simp add: willing_def)

definition roomy :: "launcher_paths \<Rightarrow> bool" where
  "roomy paths \<longleftrightarrow> length (g_log_root paths) + 72 < MAX_PATH"

lemma session_name_length: "length (session_name_text t pid) \<le> 43"
proof -
  have "length (padded 4 (unat (wYear t))) \<le> 5" "length (padded 2 (unat (wMonth t))) \<le> 5"
    "length (padded 2 (unat (wDay t))) \<le> 5" "length (padded 2 (unat (wHour t))) \<le> 5"
    "length (padded 2 (unat (wMinute t))) \<le> 5" "length (padded 2 (unat (wSecond t))) \<le> 5"
    by (rule length_padded_u16; simp)+
  then show ?thesis using length_decimal_u32 [of pid] by (simp add: session_name_text_def)
qed

lemma session_dir_roomy:
  assumes "roomy paths"
  shows "g_session_dir (session_of paths t pid) = joined (g_log_root paths) (session_name_text t pid)"
    "length (joined (g_log_root paths) (session_name_text t pid)) \<le> length (g_log_root paths) + 44"
proof -
  have "g_session_dir (session_of paths t pid) =
      snd (join_path MAX_PATH (g_log_root paths) (session_name_text t pid))"
    by (simp add: session_of_def Let_def)
  then show "g_session_dir (session_of paths t pid) = joined (g_log_root paths) (session_name_text t pid)"
    "length (joined (g_log_root paths) (session_name_text t pid)) \<le> length (g_log_root paths) + 44"
    using assms session_name_length [of t pid] by (simp_all add: roomy_def join_path_short joined_def)
qed

text \<open>With room enough, the names of a session's files are kept apart by their paths.\<close>

lemma session_file_roomy:
  assumes "roomy paths" and "length name \<le> 26"
  shows "session_file (session_of paths t pid) name = joined (g_session_dir (session_of paths t pid)) name"
  using assms session_dir_roomy [OF assms(1), of t pid]
  by (auto simp: join_path_short joined_def roomy_def)

lemma joined_inject [simp]: "joined a b = joined a c \<longleftrightarrow> b = c"
  by (auto simp: joined_def)

lemma session_file_names [simp]:
  assumes "roomy paths" and "length a \<le> 26" and "length b \<le> 26"
  shows "session_file (session_of paths t pid) a = session_file (session_of paths t pid) b \<longleftrightarrow> a = b"
  using assms by (simp add: session_file_roomy)

text \<open>The folder of the profiles is not that of the logs.\<close>

lemma profile_apart:
  assumes "roomy (initialize_paths m)" and "prefix (g_log_root (initialize_paths m)) p"
  shows "\<not> prefix (private_profile w (initialize_paths m)) p"
proof
  assume p: "prefix (private_profile w (initialize_paths m)) p"
  let ?paths = "initialize_paths m"
  obtain base where b: "base = g_base_dir ?paths" "length base < MAX_PATH"
      "g_log_root ?paths = snd (join_path MAX_PATH base ''Diagnostic Logs'')"
      "g_diagnostics_dir ?paths = snd (join_path MAX_PATH base ''Diagnostics'')"
    by (auto simp: initialize_paths_def Let_def copy_string_length)
  have r: "g_log_root ?paths = joined base ''Diagnostic Logs''"
  proof (rule ccontr)
    assume "\<not> ?thesis"
    with b(2,3) have "length (g_log_root ?paths) = MAX_PATH - 1"
      by (auto simp: join_path_short take_all_iff not_le)
    with assms(1) show False by (simp add: roomy_def)
  qed
  then have d: "g_diagnostics_dir ?paths = joined base ''Diagnostics''"
    using b assms(1) by (auto simp: join_path_short roomy_def joined_def)
  have "prefix (g_diagnostics_dir ?paths) p"
    using p join_path_prefix [OF diagnostics_dir_length, of m]
    unfolding private_profile_def by (blast intro: prefix_order.trans)
  then show False using assms(2) unfolding r d
    by (auto simp: joined_def prefix_def split: if_splits)
qed

fun summary_effect :: "launch_effect \<Rightarrow> bool" where
  "summary_effect SummaryStarted = True"
| "summary_effect (SummaryEnded c r) = True"
| "summary_effect _ = False"

text \<open>The content of the summary alone, under the effects that concern it.\<close>

fun summary_after :: "session_facts \<Rightarrow> launch_effect \<Rightarrow> string \<Rightarrow> string" where
  "summary_after facts SummaryStarted c = summary_start_text (started_at facts) (machine facts)"
| "summary_after facts (SummaryEnded code_shown cleaned) c =
     c @ summary_end_text (ended_at facts) code_shown (duration_ms facts) (server_came_up facts) cleaned"
| "summary_after facts e c = c"

definition summary_content :: "desk \<Rightarrow> string \<Rightarrow> string" where
  "summary_content d p = (case nodes d p of Some (Content c) \<Rightarrow> c | _ \<Rightarrow> [])"

lemma write_text_willing:
  "willing env \<Longrightarrow> nodes d p \<noteq> Some Folder \<Longrightarrow>
     write_text_file env p c d = (True, d\<lparr>nodes := (nodes d)(p \<mapsto> Content c)\<rparr>)"
  using willing_writes [of env p c]
  by (auto simp: write_text_file_def can_open_def willing_def case_prod_beta)

lemma append_text_willing:
  "willing env \<Longrightarrow> nodes d p \<noteq> Some Folder \<Longrightarrow>
     append_text_file env p c d = d\<lparr>nodes := (nodes d)(p \<mapsto> Content (summary_content d p @ c))\<rparr>"
  using willing_writes [of env p c]
  by (auto simp: append_text_file_def can_open_def willing_def summary_content_def case_prod_beta)

lemma unchanged: "changed d d' \<subseteq> A \<Longrightarrow> p \<notin> A \<Longrightarrow> nodes d' p = nodes d p"
  by (auto simp: changed_def)

lemma content_unchanged:
  "nodes d' p = nodes d p \<Longrightarrow> summary_content d' p = summary_content d p"
  by (simp add: summary_content_def)

lemma summary_start_willing:
  assumes "willing env" and "roomy paths" and "length (szCSDVersion m) < 128"
    and "nodes d (session_file (session_of paths t pid) ''session-summary.txt'') \<noteq> Some Folder"
  shows "nodes (write_summary_start env paths (session_of paths t pid) t' m d)
      (session_file (session_of paths t pid) ''session-summary.txt'') =
    Some (Content (summary_start_text t' m))"
proof -
  let ?s = "session_of paths t pid"
  let ?p = "session_file ?s ''session-summary.txt''"
  let ?d1 = "d\<lparr>nodes := (nodes d)(?p \<mapsto> Content (summary_start_text t' m))\<rparr>"
  let ?d2 = "snd (write_text_file env (session_file ?s ''REVIEW-BEFORE-SHARING.txt'') review_text ?d1)"
  let ?d3 = "copy_disclosure env paths ?s ''COLLECTED-DATA.txt'' ?d2"
  have "nodes ?d2 ?p = nodes ?d1 ?p"
    by (rule unchanged [OF changed_write]) (simp add: assms(2))
  moreover have "nodes ?d3 ?p = nodes ?d2 ?p" unfolding copy_disclosure_def
    by (rule unchanged [OF changed_copy]) (simp add: assms(2))
  moreover have "nodes (copy_disclosure env paths ?s ''TESTING-AND-REPORTING.txt'' ?d3) ?p = nodes ?d3 ?p"
    unfolding copy_disclosure_def by (rule unchanged [OF changed_copy]) (simp add: assms(2))
  moreover have "write_summary_start env paths ?s t' m d =
      copy_disclosure env paths ?s ''TESTING-AND-REPORTING.txt'' ?d3"
    using summary_start_fits [OF assms(3), of t'] write_text_willing [OF assms(1,4)]
    by (simp add: write_summary_start_def Let_def case_prod_beta)
  ultimately show ?thesis by simp
qed

text \<open>One effect acts on the summary as \<open>summary_after\<close> says.\<close>

lemma effect_on_summary:
  assumes "willing env" and "roomy (initialize_paths m)" and "length (szCSDVersion (machine facts)) < 128"
    and "s = session_of (initialize_paths m) t pid" and "p = session_file s ''session-summary.txt''"
    and "nodes d p \<noteq> Some Folder"
    and "\<And>q. e = ProfileMade q \<or> e = ProfileRemoved q \<Longrightarrow> q = private_profile w (initialize_paths m)"
    and "d' = effect_on_disk env (initialize_paths m) s facts e d"
  shows "nodes d' p \<noteq> Some Folder \<and> summary_content d' p = summary_after facts e (summary_content d p)"
proof -
  let ?paths = "initialize_paths m"
  have logs: "prefix (g_log_root ?paths) p"
    unfolding assms(4,5) by (rule session_in_logs [OF log_root_length])
  have apart: "\<not> prefix (private_profile w ?paths) p" by (rule profile_apart [OF assms(2) logs])
  have names: "session_file s n \<noteq> p" if "length n \<le> 26" "n \<noteq> ''session-summary.txt''" for n
    using that assms(2) unfolding assms(4,5) by simp
  have "g_media_log_path s = session_file s ''youtube-media.jsonl''"
    "g_browser_log_path s = session_file s ''browser-technical.log''"
    by (simp_all add: assms(4) session_of_def Let_def)
  with names have logs': "g_media_log_path s \<noteq> p" "g_browser_log_path s \<noteq> p" by simp_all
  have same: ?thesis if "nodes d' p = nodes d p" "\<not> summary_effect e"
    using that content_unchanged [OF that(1)] assms(6) by (cases e) auto
  show ?thesis
  proof (cases e)
    case SummaryStarted
    then show ?thesis
      using summary_start_willing [OF assms(1,2,3), of d t pid "started_at facts"] assms(4,5,6,8)
      by (simp add: summary_content_def)
  next
    case (SummaryEnded c r)
    then show ?thesis
      using append_text_willing [OF assms(1,6)] summary_end_fits assms(5,8)
      by (simp add: write_summary_end_def summary_content_def)
  next
    case SystemCollected
    show ?thesis unfolding SystemCollected
      by (rule same [unfolded SystemCollected])
        (simp_all add: assms(8) SystemCollected unchanged [OF changed_collector] names [symmetric])
  next
    case ServerStarted
    show ?thesis
      by (rule same) (simp_all add: assms(8) ServerStarted unchanged [OF changed_write] logs' [symmetric])
  next
    case PipeHandedOver
    show ?thesis
      by (rule same) (simp_all add: assms(8) PipeHandedOver unchanged [OF changed_write] logs' [symmetric])
  next
    case (ProfileMade q)
    then have q: "q = private_profile w ?paths" using assms(7) by blast
    then have "p \<notin> {q, snd (join_path MAX_PATH q ''uao'')}"
      using apart join_path_prefix [OF private_profile_length, of w ?paths] by auto
    then show ?thesis
      by (intro same) (simp_all add: assms(8) ProfileMade unchanged [OF changed_uao])
  next
    case (ProfileRemoved q)
    then have "\<not> in_folder q p" using assms(7) apart by (auto simp: in_folder_def dest: append_prefixD)
    then show ?thesis by (intro same) (simp_all add: assms(8) ProfileRemoved)
  next
    case (Opened a)
    show ?thesis
      by (rule same) (simp_all add: assms(8) Opened unchanged [where A = "{}"])
  qed (use assms(6,8) same in simp_all)
qed

lemma fold_summary_after: "fold (summary_after facts) es c = fold (summary_after facts) (filter summary_effect es) c"
proof (induction es arbitrary: c)
  case (Cons e es)
  then show ?case by (cases e) simp_all
qed simp

lemma effects_on_summary:
  assumes "willing env" and "roomy (initialize_paths m)" and "length (szCSDVersion (machine facts)) < 128"
    and "s = session_of (initialize_paths m) t pid" and "p = session_file s ''session-summary.txt''"
    and "\<And>q. ProfileMade q \<in> set es \<or> ProfileRemoved q \<in> set es \<Longrightarrow> q = private_profile w (initialize_paths m)"
    and "nodes d p \<noteq> Some Folder"
  shows "summary_content (fold (effect_on_disk env (initialize_paths m) s facts) es d) p =
    fold (summary_after facts) es (summary_content d p)"
  using assms(6,7)
proof (induction es arbitrary: d)
  case (Cons e es)
  define d' where "d' = effect_on_disk env (initialize_paths m) s facts e d"
  have "nodes d' p \<noteq> Some Folder \<and> summary_content d' p = summary_after facts e (summary_content d p)"
    using Cons.prems by (intro effect_on_summary [OF assms(1-5) _ _ d'_def]) auto
  moreover have "summary_content (fold (effect_on_disk env (initialize_paths m) s facts) es d') p =
      fold (summary_after facts) es (summary_content d' p)"
    using Cons.prems calculation by (intro Cons.IH) auto
  ultimately show ?case by (simp add: d'_def)
qed simp

lemma session_summary_effects:
  assumes "session_made w"
  shows "\<exists>c. filter summary_effect (snd (launch_browser_diagnostics w paths forwarded)) =
    [SummaryStarted, SummaryEnded c (removed w)]"
  using assms by (auto simp: launch_browser_diagnostics_def give_up_def Let_def)

lemma create_session_willing:
  assumes "willing env" and "\<And>c. nodes d (g_log_root paths) \<noteq> Some (Content c)"
    and "\<And>c. nodes d (g_session_dir (session_of paths t pid)) \<noteq> Some (Content c)"
  shows "fst (create_session_directory env paths t pid d)"
proof -
  have e: "fst (ensure_directory env q d')" if "\<And>c. nodes d' q \<noteq> Some (Content c)" for q d'
    using that assms(1) by (auto simp: ensure_directory_def willing_def split: option.split node.split)
  define d1 where "d1 = snd (ensure_directory env (g_log_root paths) d)"
  have "\<And>c. nodes d1 (g_session_dir (session_of paths t pid)) \<noteq> Some (Content c)"
    using assms(2,3) by (auto simp: d1_def ensure_directory_def split: option.split node.split)
  then show ?thesis using e [OF assms(2)] e [of d1 "g_session_dir (session_of paths t pid)"]
    by (simp add: create_session_directory_def d1_def session_of_def Let_def case_prod_beta)
qed

text \<open>The files a session writes, on a disk where nothing stands in the way of its summary.\<close>

definition clear_for :: "desk \<Rightarrow> launcher_paths \<Rightarrow> session_paths \<Rightarrow> bool" where
  "clear_for d paths s \<longleftrightarrow>
     nodes d (g_log_root paths) \<in> {None, Some Folder} \<and> nodes d (g_session_dir s) \<in> {None, Some Folder} \<and>
     nodes d (session_file s ''session-summary.txt'') \<noteq> Some Folder"

lemma run_summary:
  assumes "willing env" and "roomy (initialize_paths (module_file w))"
    and "length (szCSDVersion (machine facts)) < 128"
    and "launcher_mode (skip_first_argument (command_line w)) = Diagnostics arguments" and "confirmed w"
    and "s = session_of (initialize_paths (module_file w)) (started_at facts) (of_nat (process_id w))"
    and "clear_for d (initialize_paths (module_file w)) s"
  shows "\<exists>c. summary_content (launcher_on_disk env w facts d) (session_file s ''session-summary.txt'') =
    summary_start_text (started_at facts) (machine facts) @
    summary_end_text (ended_at facts) c (duration_ms facts) (server_came_up facts) (removed w)"
proof -
  let ?paths = "initialize_paths (module_file w)" and ?p = "session_file s ''session-summary.txt''"
  let ?w = "w\<lparr>session_made := True\<rparr>"
  let ?es = "snd (launch_browser_diagnostics ?w ?paths arguments)"
  obtain made s' d1 where c: "create_session_directory env ?paths (started_at facts) (of_nat (process_id w)) d =
      (made, s', d1)" by (metis prod_cases3)
  have made: made
    using create_session_willing [OF assms(1), of d ?paths "started_at facts" "of_nat (process_id w)"] assms(6,7) c
    by (auto simp: clear_for_def)
  then have s': "s' = s" using create_session_made [OF c [unfolded eqTrueI [OF made]]] assms(6) by simp
  have ne: "g_session_dir s \<noteq> ?p"
    using session_file_roomy [OF assms(2)] unfolding assms(6) by (simp add: joined_def)
  have "g_log_root ?paths \<noteq> ?p"
  proof
    assume "g_log_root ?paths = ?p"
    moreover have "length (g_session_dir s) < MAX_PATH" "prefix (g_log_root ?paths) (g_session_dir s)"
      unfolding assms(6) by (rule session_in_logs [OF log_root_length])+
    ultimately show False using join_path_prefix [of "g_session_dir s" MAX_PATH "''session-summary.txt''"] ne
      by (auto dest: prefix_order.antisym)
  qed
  then have "nodes d1 ?p = nodes d ?p"
    using changed_create [of d env ?paths "started_at facts" "of_nat (process_id w)"] c assms(6) ne
    by (auto simp: changed_def)
  then have d1: "nodes d1 ?p \<noteq> Some Folder" using assms(7) by (simp add: clear_for_def)
  have e: "launcher_on_disk env w facts d = fold (effect_on_disk env ?paths s facts) ?es d1"
    using assms(4,5) c made s' by (simp add: launcher_on_disk_def Let_def)
  have "q = private_profile w ?paths" if "ProfileMade q \<in> set ?es \<or> ProfileRemoved q \<in> set ?es" for q
    using session_order(5) [of ?w q ?paths arguments] that by (simp add: private_profile_def)
  then have "summary_content (launcher_on_disk env w facts d) ?p =
      fold (summary_after facts) ?es (summary_content d1 ?p)"
    unfolding e by (intro effects_on_summary [OF assms(1-3,6) refl _ d1])
  then show ?thesis
    using session_summary_effects [of ?w ?paths arguments] fold_summary_after [of facts ?es] by auto
qed

section \<open>Properties\<close>

definition sample_desk_env :: desk_env where
  "sample_desk_env = \<lparr>makes = \<lambda>_. True, opens = \<lambda>_. True, writes = \<lambda>p c. [Some (length c)],
     spawns = \<lambda>_. True, collected = None\<rparr>"

definition sample_time :: systemtime where
  "sample_time = \<lparr>wYear = 2026, wMonth = 1, wDay = 2, wHour = 12, wMinute = 0, wSecond = 0\<rparr>"

definition sample_machine :: machine_info where
  "sample_machine = \<lparr>dwMajorVersion = 5, dwMinorVersion = 0, dwBuildNumber = 2195, dwPlatformId = 2,
     szCSDVersion = ''Service Pack 4'', dwNumberOfProcessors = 1, wProcessorArchitecture = 0,
     dwTotalPhys = 0x10000000, screen_width = 1024, screen_height = 768, display = Some (16, 1)\<rparr>"

definition sample_facts :: session_facts where
  "sample_facts = \<lparr>started_at = sample_time, ended_at = sample_time\<lparr>wMinute := 5\<rparr>, machine = sample_machine,
     duration_ms = 300000, server_came_up = True, media_records = [], browser_events = [],
     survives = \<lambda>_. False\<rparr>"

definition empty_desk :: desk where
  "empty_desk = \<lparr>nodes = Map.empty, spawned = []\<rparr>"

lemma sample_willing: "willing sample_desk_env"
proof -
  have "fst (write_all [Some (length c)] c)" for c by (cases c) simp_all
  then show ?thesis by (simp add: willing_def sample_desk_env_def)
qed


text \<open>
  C30: When the system writes what it is given and the paths fit, the summary of a confirmed session is whole at its
  end: the text of the start in full, then the text of the end in full, with nothing cut by the
  buffers and nothing written over by any other effect of the session, and it reports truly
  whether the private profile was removed.
\<close>

theorem session_summary_complete:
  assumes "willing env" and "roomy (initialize_paths (module_file w))"
    and "length (szCSDVersion (machine facts)) < 128"
    and "launcher_mode (skip_first_argument (command_line w)) = Diagnostics arguments" and "confirmed w"
    and "s = session_of (initialize_paths (module_file w)) (started_at facts) (of_nat (process_id w))"
    and "clear_for d (initialize_paths (module_file w)) s"
  shows "\<exists>c. summary_content (launcher_on_disk env w facts d) (session_file s ''session-summary.txt'') =
    summary_start_text (started_at facts) (machine facts) @
    summary_end_text (ended_at facts) c (duration_ms facts) (server_came_up facts) (removed w)"
  by (rule run_summary [OF assms])

theorem session_summary_complete_witness:
  "\<exists>c. summary_content (launcher_on_disk sample_desk_env sample_launch sample_facts empty_desk)
      (session_file (session_of (initialize_paths None) sample_time 7) ''session-summary.txt'') =
    summary_start_text sample_time sample_machine @
    summary_end_text (sample_time\<lparr>wMinute := 5\<rparr>) c 300000 True True"
proof -
  have "length (g_log_root (initialize_paths None)) + 72 < 260" by code_simp
  then have "roomy (initialize_paths (module_file sample_launch))"
    by (simp add: roomy_def sample_launch_def)
  moreover have "launcher_mode (skip_first_argument (command_line sample_launch)) = Diagnostics []"
    by code_simp
  ultimately have "\<exists>c. summary_content (launcher_on_disk sample_desk_env sample_launch sample_facts empty_desk)
      (session_file (session_of (initialize_paths (module_file sample_launch)) (started_at sample_facts)
         (of_nat (process_id sample_launch))) ''session-summary.txt'') =
    summary_start_text (started_at sample_facts) (machine sample_facts) @
    summary_end_text (ended_at sample_facts) c (duration_ms sample_facts) (server_came_up sample_facts)
      (removed sample_launch)"
    using session_summary_complete [OF sample_willing _ _ _ _ refl, of sample_launch sample_facts "[]" empty_desk]
    by (simp add: sample_facts_def sample_machine_def clear_for_def empty_desk_def sample_launch_def)
  then show ?thesis by (simp add: sample_launch_def sample_facts_def)
qed

text \<open>
  Sessions have folders of their own: for times in the ranges the system uses, two sessions have
  the same folder name only when they started in the same second and in the same process.
\<close>

theorem session_names_distinct:
  assumes "valid_time t" and "valid_time t'"
  shows "session_name t pid = session_name t' pid' \<longleftrightarrow> t = t' \<and> pid = pid'"
  using session_name_inject [OF assms] by simp

theorem session_names_distinct_witness:
  "session_name sample_time 7 \<noteq> session_name (sample_time\<lparr>wSecond := 1\<rparr>) 7 \<and>
   session_name sample_time 7 \<noteq> session_name sample_time 71"
proof -
  have v: "valid_time sample_time" "valid_time (sample_time\<lparr>wSecond := 1\<rparr>)"
    by (simp_all add: valid_time_def sample_time_def)
  show ?thesis
    using session_names_distinct [OF v, of 7 7] session_names_distinct [OF v(1) v(1), of 7 71]
    by (auto simp: sample_time_def)
qed

definition long_module :: string where
  "long_module = replicate 230 CHR ''d'' @ CHR 0x5C # ''Supermium W2K RC1.exe''"

lemma log_root_of_module:
  assumes "length (base @ CHR 0x5C # name) < MAX_PATH" and "list_all (\<lambda>c. \<not> path_sep c) name"
  shows "g_log_root (initialize_paths (Some (base @ CHR 0x5C # name))) =
    snd (join_path MAX_PATH base ''Diagnostic Logs'')"
proof -
  have "dropWhile (\<lambda>c. \<not> path_sep c) (rev name @ CHR 0x5C # rev base) = CHR 0x5C # rev base"
    using assms(2) by (simp add: dropWhile_append3 list_all_iff path_sep_def)
  then show ?thesis using assms(1)
    by (simp add: initialize_paths_def Let_def copy_string_def fill_eq path_sep_def)
qed

lemma session_dir_cut:
  assumes "length (g_log_root paths) = 246" and "last (g_log_root paths) = CHR ''s''"
  shows "g_session_dir (session_of paths t pid) =
    g_log_root paths @ CHR 0x5C # take 12 (session_name_text t pid)"
proof -
  have "g_log_root paths \<noteq> []" using assms(1) by auto
  then show ?thesis using assms by (simp add: session_of_def Let_def join_path_short joined_def)
qed

text \<open>
  The names are distinct, the folders need not be: the path is cut at the size of its buffer without
  notice. When the launcher lies in a folder whose path has 230 characters, sessions of different processes
  started within ten minutes share one folder, and the path of the summary is that of the folder itself,
  so that it cannot be written.
\<close>

theorem session_folder_shared:
  "g_session_dir (session_of (initialize_paths (Some long_module)) sample_time 7) =
   g_session_dir (session_of (initialize_paths (Some long_module)) (sample_time\<lparr>wMinute := 9\<rparr>) 8) \<and>
   session_file (session_of (initialize_paths (Some long_module)) sample_time 7) ''session-summary.txt'' =
   g_session_dir (session_of (initialize_paths (Some long_module)) sample_time 7)"
proof -
  let ?paths = "initialize_paths (Some long_module)"
  have r: "g_log_root ?paths = replicate 230 CHR ''d'' @ CHR 0x5C # ''Diagnostic Logs''"
    unfolding long_module_def
    by (subst log_root_of_module) (simp_all add: path_sep_def join_path_short joined_def)
  moreover have "take 12 (session_name_text sample_time 7) = ''20260102-120''"
    "take 12 (session_name_text (sample_time\<lparr>wMinute := 9\<rparr>) 8) = ''20260102-120''"
    by code_simp+
  ultimately show ?thesis
    using session_dir_cut [of ?paths sample_time 7] session_dir_cut [of ?paths "sample_time\<lparr>wMinute := 9\<rparr>" 8]
    by (simp add: r join_path_short joined_def)
qed

end
