(* ===== verification/Launcher_Media.thy ===== *)
theory Launcher_Media
  imports Launcher_Http Launcher_Session
begin

text \<open>
  The media server of the diagnostics launcher (\<open>diagnostics/supermium_w2k_rc1_launcher.c\<close>) around
  its requests: looking up the Winsock functions, the address it listens on, the text of its
  responses, and the log that a row of clients leaves. The log is the composition of the requests,
  the time stamps and the sanitizer.
\<close>

section \<open>Winsock\<close>

definition network_short :: "u16 \<Rightarrow> u16" where
  "network_short host_value =
     (let v = (ucast host_value :: u32) in ucast (drop_bit 8 v OR push_bit 8 v))"

definition MEDIA_PORT :: u16 where
  "MEDIA_PORT = 9223"

record w2k_sockaddr =
  sa_family :: u16
  sa_port :: u16
  sa_addr :: u32

definition listen_address :: w2k_sockaddr where
  "listen_address = \<lparr>sa_family = 2, sa_port = network_short MEDIA_PORT, sa_addr = 0x0100007F\<rparr>"

text \<open>The bytes of the address as they lie in memory: family, port, address, eight zeros.\<close>

definition sockaddr_bytes :: "w2k_sockaddr \<Rightarrow> u8 list" where
  "sockaddr_bytes a =
     [ucast (sa_family a), ucast (drop_bit 8 (sa_family a)), ucast (sa_port a), ucast (drop_bit 8 (sa_port a))] @
     le32_encode (sa_addr a) @ replicate 8 0"

definition winsock_names :: "string list" where
  "winsock_names =
     [''WSAStartup'', ''WSACleanup'', ''socket'', ''bind'', ''listen'', ''accept'', ''recv'', ''send'',
      ''shutdown'', ''closesocket'']"

text \<open>
  The library's exports, when it loads (0 is NULL), and the function pointers, by name: whether all
  were found, and the pointers after it.
\<close>

definition load_winsock :: "(string \<Rightarrow> u32) option \<Rightarrow> (string \<Rightarrow> u32) \<Rightarrow> bool \<times> (string \<Rightarrow> u32)" where
  "load_winsock library pointers =
     (case library of
        None \<Rightarrow> (False, pointers)
      | Some get_proc \<Rightarrow>
          (let pointers = fold (\<lambda>n p. p(n := get_proc n)) winsock_names pointers in
             (list_all (\<lambda>n. pointers n \<noteq> 0) winsock_names, pointers)))"

lemma network_short_bits:
  "bit (network_short v) n \<longleftrightarrow> (if n < 8 then bit v (8 + n) else n < 16 \<and> bit v (n - 8))"
  by (auto simp: network_short_def Let_def bit_simps dest: bit_imp_le_length)

lemma network_short_twice: "network_short (network_short v) = v"
  by (rule bit_word_eqI) (auto simp: network_short_bits)

lemma load_winsock_pointers:
  "fst (load_winsock library pointers) \<Longrightarrow>
     \<exists>get_proc. library = Some get_proc \<and>
       (\<forall>n \<in> set winsock_names. snd (load_winsock library pointers) n = get_proc n \<and> get_proc n \<noteq> 0)"
proof -
  have "fold (\<lambda>n p. p(n := f n)) ns p = (\<lambda>n. if n \<in> set ns then f n else p n)" for f :: "string \<Rightarrow> u32" and ns p
    by (induction ns arbitrary: p) (auto simp: fun_eq_iff)
  then show "fst (load_winsock library pointers) \<Longrightarrow> ?thesis"
    by (auto simp: load_winsock_def Let_def list_all_iff split: option.splits)
qed

section \<open>Responses\<close>

definition cors_headers :: string where
  "cors_headers =
     crlf_lines
       [''Access-Control-Allow-Origin: *'', ''Access-Control-Allow-Methods: POST, OPTIONS'',
        ''Access-Control-Allow-Headers: Content-Type, X-Supermium-Diagnostics'',
        ''Access-Control-Allow-Private-Network: true'']"

definition response_text :: "string \<Rightarrow> string option \<Rightarrow> string" where
  "response_text status extra =
     ''HTTP/1.1 '' @ status @ CRLF @ ''Connection: close'' @ CRLF @ ''Content-Length: 0'' @ CRLF @
     ''Cache-Control: no-store'' @ CRLF @ (case extra of None \<Rightarrow> [] | Some e \<Rightarrow> e) @ CRLF"

definition send_http :: "string \<Rightarrow> string option \<Rightarrow> string" where
  "send_http status extra = snprintf 1024 (response_text status extra)"

fun status_of :: "reply \<Rightarrow> string" where
  "status_of NoContent = ''204 No Content''"
| "status_of Forbidden = ''403 Forbidden''"

text \<open>What one client gets back, for what it sent.\<close>

definition response_to :: "string list \<Rightarrow> string option" where
  "response_to answers =
     map_option (\<lambda>(reply, cors, _). send_http (status_of reply) (if cors then Some cors_headers else None))
       (handle_http_client answers)"

text \<open>A complete header block: lines that are not empty, each with its end, and an empty line.\<close>

definition header_block :: "string \<Rightarrow> string list \<Rightarrow> bool" where
  "header_block s ls \<longleftrightarrow> s = crlf_lines ls @ CRLF \<and>
     list_all (\<lambda>l. l \<noteq> [] \<and> CHR 0x0D \<notin> set l \<and> CHR 0x0A \<notin> set l) ls"

lemma crlf_lines_append [simp]: "crlf_lines (xs @ ys) = crlf_lines xs @ crlf_lines ys"
  by (simp add: crlf_lines_def)

definition response_lines :: "reply \<Rightarrow> bool \<Rightarrow> string list" where
  "response_lines reply cors =
     [''HTTP/1.1 '' @ status_of reply, ''Connection: close'', ''Content-Length: 0'', ''Cache-Control: no-store''] @
     (if cors then
        [''Access-Control-Allow-Origin: *'', ''Access-Control-Allow-Methods: POST, OPTIONS'',
         ''Access-Control-Allow-Headers: Content-Type, X-Supermium-Diagnostics'',
         ''Access-Control-Allow-Private-Network: true''] else [])"

lemma response_block:
  "header_block (send_http (status_of reply) (if cors then Some cors_headers else None))
     (response_lines reply cors)"
  by (cases reply; cases cors)
    (simp_all add: header_block_def send_http_def snprintf_def response_text_def cors_headers_def response_lines_def)

section \<open>The log\<close>

text \<open>
  A row of clients, each with the time its record is written at and what \<open>recv\<close> gives of it, and
  the log they leave.
\<close>

definition record_of :: "sensitive_names \<Rightarrow> systemtime \<times> string list \<Rightarrow> string" where
  "record_of known client =
     (case handle_http_client (snd client) of
        Some (_, _, Some body) \<Rightarrow> append_media_record known (utc_timestamp (fst client) 64) body
      | _ \<Rightarrow> [])"

definition media_log :: "sensitive_names \<Rightarrow> (systemtime \<times> string list) list \<Rightarrow> string" where
  "media_log known clients_served = concat (map (record_of known) clients_served)"

section \<open>What the log does not show\<close>

text \<open>Text at no position of which a URL scheme or a local path starts, whatever follows it.\<close>

fun calm :: "string \<Rightarrow> bool" where
  "calm [] = True"
| "calm (c # cs) \<longleftrightarrow>
     c \<noteq> CHR 0x5C \<and> to_lower c \<notin> {CHR ''h'', CHR ''f'', CHR ''b''} \<and>
     (is_alpha c \<longrightarrow> cs \<noteq> [] \<and> hd cs \<noteq> CHR '':'') \<and> calm cs"

lemma calm_not_telling:
  assumes "calm (c # cs)"
  shows "\<not> telling (c # cs @ r)"
proof -
  have "\<not> web_url_at (c # cs @ r)"
    using assms by (auto simp: web_url_at_def ci_equal_char_def ascii_simps of_char_of split: if_splits)
  moreover have "char_at (c # cs @ r) 1 = hd cs" if "cs \<noteq> []"
    using that by (cases cs) (simp_all add: char_at_def)
  then have "\<not> local_path_at (c # cs @ r)"
    using assms by (auto simp: local_path_at_def char_at_def)
  ultimately show ?thesis by (simp add: telling_def)
qed

lemma calm_drop: "calm s \<Longrightarrow> s = u @ v \<Longrightarrow> calm v"
  by (induction u arbitrary: s) auto

lemma calm_append: "calm xs \<Longrightarrow> calm ys \<Longrightarrow> calm (xs @ ys)"
  by (induction xs) (auto simp: hd_append)

lemma calm_digits: "list_all is_digit s \<Longrightarrow> calm s"
  by (induction s) (auto simp: ascii_simps of_char_of)

lemma calm_padded: "calm (padded k n)"
  by (rule calm_digits) (simp add: padded_def digits_decimal, simp add: list_all_iff ascii_simps of_char_of)

text \<open>The end of a record hides nothing that the sanitized text would have shown.\<close>

lemma to_lower_brace: "to_lower c = CHR 0x7D \<longleftrightarrow> c = CHR 0x7D"
proof (cases "is_upper c")
  case True
  then have "of_char (to_lower c) = (of_char c + 32 :: nat)"
    by (simp add: ascii_simps of_char_of)
  then have "(of_char (to_lower c) :: nat) \<noteq> of_char (CHR 0x7D)" "(of_char c :: nat) \<noteq> of_char (CHR 0x7D)"
    using True by (simp_all add: ascii_simps)
  then show ?thesis by metis
qed (simp add: to_lower_def)

lemma ci_starts_with_cut:
  "ci_starts_with (v @ CHR 0x7D # r) p \<Longrightarrow> CHR 0x7D \<notin> set p \<Longrightarrow> ci_starts_with v p"
proof (induction v p rule: ci_starts_with.induct)
  case (2 p ps)
  moreover have "to_lower (CHR 0x7D) = CHR 0x7D" by (simp add: to_lower_brace)
  ultimately show ?case using to_lower_brace [of p] by (auto simp: ci_equal_char_def)
qed auto

lemma local_path_cut:
  assumes "local_path_at (v @ CHR 0x7D # r)"
  shows "local_path_at v"
proof -
  let ?s = "v @ CHR 0x7D # r"
  have lt: "i < length v \<Longrightarrow> char_at ?s i = char_at v i" for i by (simp add: char_at_def nth_append)
  have eq: "char_at ?s (length v) = CHR 0x7D" by (simp add: char_at_def)
  have n: "\<not> is_alpha (CHR 0x7D)" by (simp add: ascii_simps)
  consider "length v = 0" | "length v = 1" | "length v = 2" | "2 < length v" by linarith
  then show ?thesis
  proof cases
    case 1
    then show ?thesis using assms n eq by (simp add: local_path_at_def)
  next
    case 2
    then show ?thesis using assms n eq by (simp add: local_path_at_def)
  next
    case 3
    then show ?thesis using assms eq lt [of 0] lt [of 1] by (simp add: local_path_at_def)
  next
    case 4
    then have "v \<noteq> []" by auto
    then show ?thesis using 4 assms lt [of 0] lt [of 1] lt [of 2] by (simp add: local_path_at_def)
  qed
qed

lemma telling_cut: "telling (v @ CHR 0x7D # r) \<Longrightarrow> telling v"
  using local_path_cut [of v r] ci_starts_with_cut [of v r] unfolding telling_def web_url_at_def by auto

text \<open>Text no position of which starts a URL scheme or a local path.\<close>

definition silent :: "string \<Rightarrow> bool" where
  "silent s \<longleftrightarrow> (\<forall>u v. s = u @ v \<longrightarrow> \<not> telling v)"

lemma not_telling_Nil [simp]: "\<not> telling []"
  by (simp add: telling_def web_url_at_def local_path_at_def char_at_def ascii_simps)

lemma silent_Nil [simp]: "silent []"
  by (simp add: silent_def)

lemma silent_calm:
  assumes "calm h" and "silent x"
  shows "silent (h @ x)"
  unfolding silent_def
proof (intro allI impI)
  fix u v assume "h @ x = u @ v"
  then consider h' where "h = u @ h'" "v = h' @ x" | u' where "x = u' @ v"
    by (auto simp: append_eq_append_conv2)
  then show "\<not> telling v"
  proof cases
    case 1
    then have "calm h'" using assms(1) calm_drop by blast
    then show ?thesis using calm_not_telling 1 assms(2)
      by (cases h') (auto simp: silent_def)
  next
    case 2
    then show ?thesis using assms(2) by (auto simp: silent_def)
  qed
qed

lemma silent_brace:
  assumes "silent s" and "silent x"
  shows "silent (s @ CHR 0x7D # x)"
  unfolding silent_def
proof (intro allI impI)
  fix u v assume "s @ CHR 0x7D # x = u @ v"
  then consider s' where "s = u @ s'" "v = s' @ CHR 0x7D # x" | u' where "x = u' @ v" | "v = CHR 0x7D # x"
    by (auto simp: append_eq_append_conv2 Cons_eq_append_conv)
  then show "\<not> telling v"
  proof cases
    case 1
    then show ?thesis using assms(1) telling_cut by (auto simp: silent_def)
  next
    case 2
    then show ?thesis using assms(2) by (auto simp: silent_def)
  next
    case 3
    then show ?thesis using telling_cut [of "[]" x] by auto
  qed
qed

text \<open>
  The contract of a sanitizer, and what a client that writes records with it may rely on: a row of
  records, each a calm head, a sanitized text and a closing brace with a line end, is silent.
\<close>

locale record_sanitizer =
  fixes clean :: "string \<Rightarrow> string"
  assumes clean_silent: "silent (clean body)"
begin

lemma record_silent: "calm head \<Longrightarrow> silent rest \<Longrightarrow> silent (head @ clean body @ CHR 0x7D # CRLF @ rest)"
  by (intro silent_calm silent_brace clean_silent) (simp_all add: ascii_simps of_char_of)

lemma records_silent:
  assumes "list_all calm (map fst records)"
  shows "silent (concat (map (\<lambda>(head, body). head @ clean body @ CHR 0x7D # CRLF) records))"
  using assms
proof (induction records)
  case (Cons r rs)
  obtain head body where r: "r = (head, body)" by force
  show ?case using record_silent [of head "concat (map (\<lambda>(head, body). head @ clean body @ CHR 0x7D # CRLF) rs)" body]
      Cons by (simp add: r)
qed simp

end

interpretation media: record_sanitizer "\<lambda>body. sanitize_text known body 65536" for known
  by unfold_locales (auto simp: silent_def dest: sanitize_text_not_telling)

lemma lower_TZ: "to_lower CHR ''T'' = CHR ''t''" "to_lower CHR ''Z'' = CHR ''z''"
  by code_simp+

lemma calm_T:
  assumes "calm y"
  shows "calm (CHR ''T'' # padded k n @ y)"
proof -
  have "list_all is_digit (padded k n)"
    by (simp add: padded_def digits_decimal) (simp add: list_all_iff ascii_simps of_char_of)
  moreover have "padded k n \<noteq> []" by (simp add: padded_def)
  ultimately have "padded k n \<noteq> [] \<and> hd (padded k n) \<noteq> CHR '':''"
    by (cases "padded k n") (auto simp: ascii_simps)
  then show ?thesis using calm_append [OF calm_padded assms] by (simp add: lower_TZ)
qed

lemma calm_utc:
  assumes "calm s"
  shows "calm (utc_text t @ CHR 0x22 # s)"
proof -
  have sep: "calm (CHR ''-'' # y)" "calm (CHR '':'' # y)" if "calm y" for y
    using that by (simp_all add: ascii_simps of_char_of)
  have "to_lower (CHR 0x22) = CHR 0x22" "\<not> is_alpha (CHR 0x22)" by (simp_all add: ascii_simps)
  then have "calm (''Z'' @ CHR 0x22 # s)" using assms by (simp add: lower_TZ)
  then show ?thesis
    unfolding utc_text_def append_assoc append_Cons append_Nil
    by (intro calm_append calm_padded sep calm_T)
qed

definition record_head :: "systemtime \<Rightarrow> string" where
  "record_head t = ''{'' @ CHR 0x22 # ''received_utc'' @ CHR 0x22 # '':'' @ CHR 0x22 # utc_text t @
     CHR 0x22 # '','' @ CHR 0x22 # ''payload'' @ CHR 0x22 # '':''"

lemma calm_record_head: "calm (record_head t)"
proof -
  have "calm (utc_text t @ CHR 0x22 # '','' @ CHR 0x22 # ''payload'' @ CHR 0x22 # '':'')"
    by (rule calm_utc) (simp add: ascii_simps of_char_of)
  then show ?thesis by (simp add: record_head_def ascii_simps of_char_of)
qed

lemma append_media_record_eq:
  "append_media_record known (utc_text t) body =
     record_head t @ sanitize_text known body 65536 @ CHR 0x7D # CRLF"
  using length_utc_text [of t] by (simp add: append_media_record_def record_head_def)

lemma media_log_silent: "silent (media_log known served)"
proof -
  define recs where "recs = concat (map (\<lambda>c. case handle_http_client (snd c) of
      Some (_, _, Some body) \<Rightarrow> [(record_head (fst c), body)] | _ \<Rightarrow> []) served)"
  have "media_log known served =
      concat (map (\<lambda>(head, body). head @ sanitize_text known body 65536 @ CHR 0x7D # CRLF) recs)"
    unfolding recs_def media_log_def
    by (induction served) (auto simp: record_of_def append_media_record_eq split: option.split)
  moreover have "list_all calm (map fst recs)" unfolding recs_def
    by (induction served) (auto simp: calm_record_head split: option.split)
  ultimately show ?thesis using media.records_silent by simp
qed

section \<open>Properties\<close>



text \<open>
  Every response is one complete header block of the code's own text: at most 1023 bytes, none of them cut,
  lines without line ends inside, an empty line only at the end, and nothing of the request in
  it; a request without an answer is one whose handling is undefined.
\<close>

theorem responses_are_complete:
  "case response_to answers of
     None \<Rightarrow> handle_http_client answers = None
   | Some response \<Rightarrow>
       (case handle_http_client answers of
          None \<Rightarrow> False
        | Some (reply, cors, _) \<Rightarrow>
            header_block response (response_lines reply cors) \<and> length response < 1024)"
proof (cases "handle_http_client answers")
  case (Some r)
  obtain reply cors b where r: "r = (reply, cors, b)" by (metis prod_cases3)
  have "length (send_http (status_of reply) (if cors then Some cors_headers else None)) < 1024"
    by (simp add: send_http_def snprintf_def)
  then show ?thesis using response_block [of reply cors] Some
    by (simp add: response_to_def r)
qed (simp add: response_to_def)

text \<open>
  The address the media server binds is, byte for byte, the internet family, port 9223 in network order and
  127.0.0.1: no other computer can connect.
\<close>

theorem listens_on_loopback:
  "sockaddr_bytes listen_address = [2, 0, 0x24, 0x07, 127, 0, 0, 1] @ replicate 8 0"
  by code_simp

end
