(* ===== verification/Spec2Isabelle.thy ===== *)
theory Spec2Isabelle
  imports Winsock_Text Winsock_Resolver Winsock_Load
    Srw_Lock Sync_Exports Lazy_Slot Cond_Var Cond_Wait Cond_Srw Job_Query
    Veh_List Veh_Handlers Veh_Imports Veh_Entry Wts_Bridge
    Sfx_Crc Sfx_Names Sfx_Footer Sfx_Extract Sfx_Messages
    Cert_Roots
    Launcher_Text Launcher_Files Launcher_Log Launcher_Http Launcher_Server Launcher_Main
    Launcher_Session Launcher_Media
begin

text \<open>
  \<^bold>\<open>The Windows 2000 support of Supermium: compatibility libraries, self-extractor, certificate
  installer and diagnostics launcher.\<close>

  The program. The browser itself is built elsewhere; the repository holds what lets it run on
  Windows 2000. Five compatibility libraries stand in for functions that system lacks
  (\<open>src/compat\<close>): name resolution for Winsock, slim locks and condition variables, job queries,
  vectored exception handlers with a hook of one security function, and terminal services. A
  self-extractor (\<open>src/sfx\<close>, with its builder) installs the product, a small program installs root
  certificates (\<open>src/certificates/source\<close>), and a launcher (\<open>src/diagnostics\<close>) starts the browser,
  on request with a private profile, a sanitized event log and a local media server.

  Conventions (theory \<open>W2K_Prelude\<close>). C integers are words where their width matters and integers where
  a bound is proved; a C string is the list of its bytes before the NUL; a null pointer is \<open>None\<close> or
  address 0; a failing call returns \<open>None\<close> or a sum with the Windows error code. What the system
  answers is an argument: an answer at will, a record of functions, or a step of a relation, so that
  every failure branch of the code is a branch of the model. Loops over C data are structural
  recursion, \<open>function\<close> with a measure, or \<open>partial_function (option)\<close>, where \<open>None\<close> is a call that does
  not come back; where a property says that a call returns, it excludes \<open>None\<close>. Concurrent code is a
  step relation whose steps are the sections between two points at which another thread may act; the
  locale \<open>inductive_invariant\<close> of the prelude is the contract of all of them, interpreted in each theory.

  \<^bold>\<open>Name resolution\<close> (\<open>compat/w2k_s232.c\<close>). \<open>Winsock_Text\<close>: ports and dotted quads, with the grammar
  each parser accepts. \<open>Winsock_Resolver\<close>: \<open>getaddrinfo\<close>, \<open>freeaddrinfo\<close> and \<open>inet_ntop\<close> over an explicit
  heap whose allocations fail at will; every outcome, the shape of the result chain, and that
  freeing gives back exactly what was allocated. \<open>Winsock_Load\<close>: \<open>DllMain\<close> with the lookup of the system's functions,
  and the forwarding stubs as machine instructions, which hand the caller's stack on as it was.

  \<^bold>\<open>Synchronisation\<close> (\<open>compat/w2k_sync.c\<close>). \<open>Srw_Lock\<close>: the lock's critical sections as functions on its
  state and their interleaving (\<open>srw_step\<close>); mutual exclusion, refinement of an abstract
  readers-writer lock, no lost wakeup, progress, bounds of the counters. \<open>Lazy_Slot\<close>: the race of threads for the
  state behind a slot; one state wins, all others are given back. \<open>Sync_Exports\<close>: the exported lock
  functions as runs of the interleaved lock. \<open>Cond_Var\<close>: the linked queue of waiters as a first-in,
  first-out list (locale \<open>wait_queue\<close>) and waiting, timing out and waking interleaved. \<open>Cond_Wait\<close>: the whole of
  \<open>wait_cv_common\<close> with a critical section as a monitor, and the wake exports with their
  guards; what a system owes the queue to be a client of it is the locale \<open>cv_client\<close>. \<open>Cond_Srw\<close>: the same function
  with a slim lock, composed of the interleaved lock and the queue; it misses no wake and gives the lock back.

  \<^bold>\<open>Jobs\<close> (\<open>compat/w2k_job.c\<close> and the second version in \<open>compat/w2k_sync.c\<close>). \<open>Job_Query\<close>: both
  implementations of \<open>IsProcessInJob\<close> with their growing buffers, and that they agree.

  \<^bold>\<open>Exceptions\<close> (\<open>compat/w2k_veh.c\<close>). \<open>Veh_List\<close>: the intrusive ring. \<open>Veh_Handlers\<close>: adding, removing and
  dispatching interleaved, entries as heap blocks with reference counts, a crash as a state.
  \<open>Veh_Imports\<close>: patching import tables and the SID bridge; \<open>None\<close> is a bridge that calls itself for ever.
  \<open>Veh_Entry\<close>: the patch of the exception dispatcher over a byte memory, the exports whole, as runs of the
  handlers' step relation, both versions of \<open>GetModuleHandleEx\<close> against one specification, and \<open>DllMain\<close>: unloading after
  any calls restores the code of the process.

  \<^bold>\<open>Terminal services\<close> (\<open>compat/w2k_wts.c\<close>). \<open>Wts_Bridge\<close>.

  \<^bold>\<open>Self-extractor\<close> (\<open>sfx/w2k_sfx.c\<close>, \<open>sfx/build_w2k_sfx.mjs\<close>). \<open>Sfx_Crc\<close>: the table-driven checksum of the
  stub equals the bitwise one of the builder. \<open>Sfx_Names\<close>: the name check and the cabinet callback; nothing is
  written outside the destination. \<open>Sfx_Footer\<close>: the record at the end of the file, written and read.
  \<open>Sfx_Extract\<close>: \<open>WinMain\<close> from the footer to the cleanup over a world of system answers; success means
  that the verified payload was extracted, and every run releases what it acquired. \<open>Sfx_Messages\<close>: the texts
  it shows fit their buffers, whatever names the file carries.

  \<^bold>\<open>Certificates\<close> (\<open>certificates/source/w2kroots.c\<close>). \<open>Cert_Roots\<close>: loading the certificate library,
  opening the store, going through a directory, and \<open>main\<close>; exit code 0 means that every file of the
  directory is in the store, and each other code names its reason.

  \<^bold>\<open>Launcher\<close> (\<open>diagnostics/supermium_w2k_rc1_launcher.c\<close>). \<open>Launcher_Text\<close>: bounded strings and the
  sanitizer, with what its output never shows. \<open>Launcher_Files\<close>: writing, and removing a tree of files.
  \<open>Launcher_Log\<close>: the browser's output turned into generated events, and a reference definition of the log.
  \<open>Launcher_Http\<close>: a media request from the first byte to the record. \<open>Launcher_Server\<close>: the server
  thread and its stop, interleaved. \<open>Launcher_Main\<close>: paths, the command line and a session as the trace of its
  effects; consent before collection, and cleanup on every path. \<open>Launcher_Session\<close>: what is written to the disk,
  as a map from paths to contents: the folder of a session and its name, the summaries, the inventory, the profile's
  first file, and the programs started; a run of the launcher as its effects on the disk, which
  stay in the folders meant for them. \<open>Launcher_Media\<close>: loading Winsock, the address listened on, the responses, and
  the log of any number of clients, composed of requests, time stamps and the sanitizer through the
  locale \<open>record_sanitizer\<close>.

  \<^bold>\<open>Bounds.\<close> No fuel is used. The job loops end because the buffer grows to at least 16384 entries or the
  system stops asking for more; the queue loops end on a well-linked queue, which is an invariant; the
  sanitizer's loop ends because each round consumes input or fills the output; the profile is retried 31
  times, as in the code.

  \<^bold>\<open>Not modelled.\<close> The texts of the launcher's message boxes, the lines the certificate installer prints for each file and
  the diagnostic trace of the SID hook, which is compiled out; the addresses of PE headers below the import
  tables; the browser extension, scripts, tests, certificates and manifests, which are in other languages or are
  data. What a program started by the launcher does is a parameter. Cross-process effects (another
  program changing a file between two calls) are covered only where a parameter says so.
\<close>

end
